(* ===== verification/Prelude.thy ===== *)
theory Prelude
  imports Main "HOL-Library.Word"
begin

text \<open>
  Shared vocabulary of the development: the machine types of the kernel, the result type that
  carries Rust panics and the kernel's \<open>KResult\<close> errors, the error numbers of
  \<open>src/kernel/constants.rs\<close>, and generic facts about lists that several components use.

  Rust's \<open>usize\<close> is modelled as \<open>nat\<close> with the wrap-around of the release profile written
  out (\<open>uadd\<close>, \<open>usub\<close>, \<open>umul\<close>); code that works bit by bit uses \<open>64 word\<close>.
\<close>

named_theorems usize_simps
named_theorems errno_defs
named_theorems res_simps

section \<open>Machine types\<close>

type_synonym u8 = "8 word"
type_synonym u16 = "16 word"
type_synonym u32 = "32 word"
type_synonym u64 = "64 word"
type_synonym usize = nat

definition usize_mod :: nat where
  "usize_mod = 2 ^ 64"

definition uadd :: "usize \<Rightarrow> usize \<Rightarrow> usize" where
  "uadd a b = (a + b) mod usize_mod"

definition usub :: "usize \<Rightarrow> usize \<Rightarrow> usize" where
  "usub a b = (a + usize_mod - b) mod usize_mod"

definition umul :: "usize \<Rightarrow> usize \<Rightarrow> usize" where
  "umul a b = (a * b) mod usize_mod"

definition div_ceil :: "nat \<Rightarrow> nat \<Rightarrow> nat" where
  "div_ceil a b = (if a mod b = 0 then a div b else a div b + 1)"

lemma usize_mod_pos [simp]: "0 < usize_mod"
  by (simp add: usize_mod_def)

lemma uadd_eq [usize_simps]: "a + b < usize_mod \<Longrightarrow> uadd a b = a + b"
  by (simp add: uadd_def)

lemma usub_eq [usize_simps]: "b \<le> a \<Longrightarrow> a < usize_mod \<Longrightarrow> usub a b = a - b"
  by (simp add: usub_def mod_if)

lemma umul_eq [usize_simps]: "a * b < usize_mod \<Longrightarrow> umul a b = a * b"
  by (simp add: umul_def)

lemma uadd_less [simp]: "uadd a b < usize_mod"
  by (simp add: uadd_def)

lemma usub_less [simp]: "usub a b < usize_mod"
  by (simp add: usub_def)

lemma umul_less [simp]: "umul a b < usize_mod"
  by (simp add: umul_def)

section \<open>Results: panics and error numbers\<close>

text \<open>
  \<open>Panic\<close> is a Rust panic (a failed \<open>assert!\<close>, \<open>expect\<close>, \<open>unwrap\<close>, \<open>unreachable!\<close> or an
  out-of-range slice); \<open>Errno e\<close> is \<open>Err(e)\<close> of a \<open>KResult\<close>.
\<close>

datatype fault = Panic | Errno nat

type_synonym 'a res = "fault + 'a"

definition rbind :: "'a res \<Rightarrow> ('a \<Rightarrow> 'b res) \<Rightarrow> 'b res" where
  "rbind m f = (case m of Inl e \<Rightarrow> Inl e | Inr x \<Rightarrow> f x)"

definition rassert :: "bool \<Rightarrow> 'a res \<Rightarrow> 'a res" where
  "rassert b m = (if b then m else Inl Panic)"

definition rmap :: "('a \<Rightarrow> 'b) \<Rightarrow> 'a res \<Rightarrow> 'b res" where
  "rmap f m = (case m of Inl e \<Rightarrow> Inl e | Inr x \<Rightarrow> Inr (f x))"

definition ok_or :: "'a option \<Rightarrow> nat \<Rightarrow> 'a res" where
  "ok_or x e = (case x of None \<Rightarrow> Inl (Errno e) | Some v \<Rightarrow> Inr v)"

definition unwrap :: "'a option \<Rightarrow> 'a res" where
  "unwrap x = (case x of None \<Rightarrow> Inl Panic | Some v \<Rightarrow> Inr v)"

lemma rbind_simps [simp, res_simps]:
  "rbind (Inl e) f = Inl e" "rbind (Inr x) f = f x"
  by (simp_all add: rbind_def)

lemma rassert_simps [simp, res_simps]:
  "rassert True m = m" "rassert False m = Inl Panic"
  by (simp_all add: rassert_def)

lemma rmap_simps [simp, res_simps]:
  "rmap f (Inl e) = Inl e" "rmap f (Inr x) = Inr (f x)"
  by (simp_all add: rmap_def)

lemma ok_or_simps [simp, res_simps]:
  "ok_or None e = Inl (Errno e)" "ok_or (Some v) e = Inr v"
  by (simp_all add: ok_or_def)

lemma unwrap_simps [simp, res_simps]:
  "unwrap None = Inl Panic" "unwrap (Some v) = Inr v"
  by (simp_all add: unwrap_def)

lemma rbind_Inr_iff [res_simps]: "rbind m f = Inr y \<longleftrightarrow> (\<exists>x. m = Inr x \<and> f x = Inr y)"
  by (cases m) simp_all

lemma rassert_Inr_iff [res_simps]: "rassert b m = Inr y \<longleftrightarrow> b \<and> m = Inr y"
  by (cases b) simp_all

lemma rmap_Inr_iff [res_simps]: "rmap f m = Inr y \<longleftrightarrow> (\<exists>x. m = Inr x \<and> y = f x)"
  by (cases m) auto

lemma rassert_cong [fundef_cong]: "b = b' \<Longrightarrow> (b' \<Longrightarrow> m = m') \<Longrightarrow> rassert b m = rassert b' m'"
  by (simp add: rassert_def)

lemma rbind_cong [fundef_cong]:
  "m = m' \<Longrightarrow> (\<And>x. m' = Inr x \<Longrightarrow> f x = f' x) \<Longrightarrow> rbind m f = rbind m' f'"
  by (cases m') simp_all

text \<open>The result of a three-way comparison, \<open>core::cmp::Ordering\<close>.\<close>

datatype ordering = Less | Equal | Greater

section \<open>Error numbers\<close>

definition EPERM :: nat where [errno_defs]: "EPERM = 1"
definition ENOENT :: nat where [errno_defs]: "ENOENT = 2"
definition EINTR :: nat where [errno_defs]: "EINTR = 4"
definition ENXIO :: nat where [errno_defs]: "ENXIO = 6"
definition EBADF :: nat where [errno_defs]: "EBADF = 9"
definition EAGAIN :: nat where [errno_defs]: "EAGAIN = 11"
definition ENOMEM :: nat where [errno_defs]: "ENOMEM = 12"
definition EFAULT :: nat where [errno_defs]: "EFAULT = 14"
definition EEXIST :: nat where [errno_defs]: "EEXIST = 17"
definition ENOTDIR :: nat where [errno_defs]: "ENOTDIR = 20"
definition EISDIR :: nat where [errno_defs]: "EISDIR = 21"
definition EINVAL :: nat where [errno_defs]: "EINVAL = 22"
definition ENOTTY :: nat where [errno_defs]: "ENOTTY = 25"
definition EPIPE :: nat where [errno_defs]: "EPIPE = 32"
definition ENAMETOOLONG :: nat where [errno_defs]: "ENAMETOOLONG = 36"

section \<open>Lists\<close>

text \<open>\<open>copy_from_slice\<close> into \<open>buf[off..off + len(data)]\<close>; the callers stay inside the slice.\<close>

definition splice :: "'a list \<Rightarrow> nat \<Rightarrow> 'a list \<Rightarrow> 'a list" where
  "splice buf off data = take off buf @ data @ drop (off + length data) buf"

lemma length_splice [simp]:
  "off + length data \<le> length buf \<Longrightarrow> length (splice buf off data) = length buf"
  by (simp add: splice_def)

lemma take_splice [simp]: "off \<le> length buf \<Longrightarrow> take off (splice buf off data) = take off buf"
  by (simp add: splice_def)

lemma take_splice_end:
  "off \<le> length buf \<Longrightarrow> take (off + length data) (splice buf off data) = take off buf @ data"
  by (simp add: splice_def)

lemma nth_splice:
  assumes "off + length data \<le> length buf" and "i < length buf"
  shows "splice buf off data ! i =
    (if off \<le> i \<and> i < off + length data then data ! (i - off) else buf ! i)"
  using assms by (auto simp: splice_def nth_append)

lemma splice_Nil [simp]: "splice buf off [] = buf"
  by (simp add: splice_def)

text \<open>Index of the first element that satisfies a predicate, \<open>Iterator::position\<close>.\<close>

definition position :: "('a \<Rightarrow> bool) \<Rightarrow> 'a list \<Rightarrow> nat option" where
  "position P xs = (let n = length (takeWhile (\<lambda>x. \<not> P x) xs) in
     if n < length xs then Some n else None)"

lemma position_None_iff: "position P xs = None \<longleftrightarrow> (\<forall>x\<in>set xs. \<not> P x)"
proof -
  have "length (takeWhile (\<lambda>x. \<not> P x) xs) < length xs \<longleftrightarrow> (\<exists>x\<in>set xs. P x)"
    by (induction xs) auto
  then show ?thesis by (simp add: position_def Let_def)
qed

lemma position_SomeD:
  assumes "position P xs = Some n"
  shows "n < length xs" "P (xs ! n)" "\<And>i. i < n \<Longrightarrow> \<not> P (xs ! i)"
proof -
  let ?m = "length (takeWhile (\<lambda>x. \<not> P x) xs)"
  have n: "n = ?m" "?m < length xs"
    using assms by (auto simp: position_def Let_def split: if_splits)
  show "n < length xs" using n by simp
  show "P (xs ! n)" using nth_length_takeWhile n by fastforce
  show "\<not> P (xs ! i)" if "i < n" for i
  proof -
    have "takeWhile (\<lambda>x. \<not> P x) xs ! i = xs ! i" using that n by (simp add: takeWhile_nth)
    then show ?thesis using that n
      by (metis (mono_tags, lifting) nth_mem set_takeWhileD)
  qed
qed

lemma position_SomeI:
  assumes "n < length xs" and "P (xs ! n)" and "\<And>i. i < n \<Longrightarrow> \<not> P (xs ! i)"
  shows "position P xs = Some n"
proof (cases "position P xs")
  case None
  then show ?thesis using assms(1,2) by (auto simp: position_None_iff)
next
  case (Some k)
  note k = position_SomeD [OF Some]
  have "k = n" using k assms by (metis linorder_neqE_nat)
  with Some show ?thesis by simp
qed

lemma position_upt:
  assumes "n < k" and "P (a + n)" and "\<And>i. i < n \<Longrightarrow> \<not> P (a + i)"
  shows "position P [a..<a + k] = Some n"
  using assms by (intro position_SomeI) auto

text \<open>The last index below \<open>n\<close> with a property.\<close>

lemma last_filter_upt:
  assumes "filter P [0..<n] \<noteq> []"
  shows "last (filter P [0..<n]) < n \<and> P (last (filter P [0..<n])) \<and> (\<forall>j. last (filter P [0..<n]) < j \<and> j < n \<longrightarrow> \<not> P j)"
  using assms
proof (induction n)
  case (Suc n)
  show ?case
  proof (cases "P n")
    case False
    then have eq: "filter P [0..<Suc n] = filter P [0..<n]" by simp
    show ?thesis using Suc False unfolding eq by (metis less_Suc_eq)
  next
    case True
    then have "last (filter P [0..<Suc n]) = n" by simp
    with True show ?thesis by (auto simp del: upt_Suc)
  qed
qed simp

end
