(* ===== verification/Address.thy ===== *)
theory Address
  imports Prelude
begin

text \<open>
  Addresses and address ranges: the \<open>address\<close> module of the crate \<open>dlutos_mm\<close>
  (\<open>addr.rs\<close>, \<open>addr_range.rs\<close>, \<open>paddr.rs\<close>, \<open>vaddr.rs\<close>), the page frame numbers of
  \<open>paging/pfn.rs\<close> and the user/kernel split of \<open>src/kernel/mem/address.rs\<close>.

  \<open>PAddr\<close>, \<open>VAddr\<close> and \<open>PFN\<close> are newtypes of \<open>usize\<close>; the model uses the number itself. The
  alignment operations divide by \<open>size\<close>; every caller passes a non-zero constant, so the
  panic on \<open>size = 0\<close> is left out.
\<close>

section \<open>Alignment\<close>

definition PAGE_SIZE :: nat where [simp]: "PAGE_SIZE = 4096"

definition PAGE_SIZE_BITS :: nat where [simp]: "PAGE_SIZE_BITS = 12"

definition offset_in :: "usize \<Rightarrow> usize \<Rightarrow> usize" where
  "offset_in addr sz = addr mod sz"

definition is_aligned_to :: "usize \<Rightarrow> usize \<Rightarrow> bool" where
  "is_aligned_to addr sz \<longleftrightarrow> offset_in addr sz = 0"

definition floor_to :: "usize \<Rightarrow> usize \<Rightarrow> usize" where
  "floor_to addr sz = addr div sz * sz"

definition ceil_to :: "usize \<Rightarrow> usize \<Rightarrow> usize" where
  "ceil_to addr sz = umul (div_ceil addr sz) sz"

definition page_offset :: "usize \<Rightarrow> usize" where
  "page_offset addr = offset_in addr PAGE_SIZE"

definition is_page_aligned :: "usize \<Rightarrow> bool" where
  "is_page_aligned addr \<longleftrightarrow> is_aligned_to addr PAGE_SIZE"

definition page_floor :: "usize \<Rightarrow> usize" where
  "page_floor addr = floor_to addr PAGE_SIZE"

definition page_ceil :: "usize \<Rightarrow> usize" where
  "page_ceil addr = ceil_to addr PAGE_SIZE"

definition pfn_of_paddr :: "usize \<Rightarrow> usize" where
  "pfn_of_paddr paddr = drop_bit PAGE_SIZE_BITS paddr"

definition paddr_of_pfn :: "usize \<Rightarrow> usize" where
  "paddr_of_pfn pfn = push_bit PAGE_SIZE_BITS pfn mod usize_mod"

section \<open>Ranges\<close>

record addr_range =
  ar_start :: usize
  ar_end :: usize

definition range_cmp :: "addr_range \<Rightarrow> addr_range \<Rightarrow> ordering" where
  "range_cmp self other =
     (if ar_start self = ar_start other then Equal
      else if ar_end self = ar_end other then
        (if ar_start self = ar_end self then Greater
         else if ar_start other = ar_end other then Less
         else Equal)
      else if ar_start self < ar_start other then
        (if ar_end other < ar_end self then Equal else Less)
      else \<comment> \<open>here \<open>other.start < self.start\<close>, so \<open>unreachable!()\<close> is dead\<close>
        (if ar_end self < ar_end other then Equal else Greater))"

definition range_eq :: "addr_range \<Rightarrow> addr_range \<Rightarrow> bool" where
  "range_eq self other \<longleftrightarrow> range_cmp self other = Equal"

definition range_from :: "usize \<Rightarrow> addr_range" where
  "range_from addr = \<lparr>ar_start = addr, ar_end = addr\<rparr>"

definition range_new :: "usize \<Rightarrow> usize \<Rightarrow> addr_range res" where
  "range_new s e = rassert (s \<le> e) (Inr \<lparr>ar_start = s, ar_end = e\<rparr>)"

definition range_len :: "addr_range \<Rightarrow> usize" where
  "range_len r = usub (ar_end r) (ar_start r)"

definition range_shrink :: "addr_range \<Rightarrow> usize \<Rightarrow> addr_range res" where
  "range_shrink r sz =
     rassert (sz \<le> range_len r) (range_new (ar_start r) (usub (ar_end r) sz))"

definition range_grow :: "addr_range \<Rightarrow> usize \<Rightarrow> addr_range res" where
  "range_grow r count = range_new (ar_start r) (uadd (ar_end r) count)"

text \<open>The inclusive bounds \<open>lo..=hi\<close> handed to \<open>BTreeSet::range\<close>.\<close>

definition into_bounds :: "addr_range \<Rightarrow> addr_range \<times> addr_range" where
  "into_bounds r =
     (if range_len r = 0 then (range_from (ar_start r), range_from (ar_start r))
      else (range_from (ar_start r), range_from (usub (ar_end r) 1)))"

definition overlap_with :: "addr_range \<Rightarrow> addr_range \<Rightarrow> bool" where
  "overlap_with self other \<longleftrightarrow> ar_start self < ar_end other \<and> ar_end self > ar_start other"

definition split_at_checked ::
  "addr_range \<Rightarrow> usize \<Rightarrow> (addr_range option \<times> addr_range option) res" where
  "split_at_checked r at =
     (if ar_end r \<le> at then Inr (Some r, None)
      else if at \<le> ar_start r then Inr (None, Some r)
      else rbind (range_new (ar_start r) at) (\<lambda>l.
           rbind (range_new at (ar_end r)) (\<lambda>rt. Inr (Some l, Some rt))))"

definition split_at :: "addr_range \<Rightarrow> usize \<Rightarrow> (addr_range \<times> addr_range) res" where
  "split_at r at =
     rbind (split_at_checked r at) (\<lambda>(left, right).
     rbind (unwrap left) (\<lambda>l.
     rbind (unwrap right) (\<lambda>rt. Inr (l, rt))))"

definition mask_with_checked ::
  "addr_range \<Rightarrow> addr_range \<Rightarrow> (addr_range option \<times> addr_range \<times> addr_range option) option res"
where
  "mask_with_checked self msk =
     (if range_len msk = 0 \<or> \<not> overlap_with self msk then Inr None
      else
        rbind (if ar_start self < ar_start msk \<and> ar_start msk < ar_end self
               then rbind (split_at self (ar_start msk)) (\<lambda>(l, r). Inr (Some l, r))
               else Inr (None, self)) (\<lambda>(left, mid).
        rbind (if ar_end msk < ar_end self
               then rbind (split_at mid (ar_end msk)) (\<lambda>(l, r). Inr (l, Some r))
               else Inr (mid, None)) (\<lambda>(mid, right).
        Inr (Some (left, mid, right)))))"

section \<open>User and kernel space\<close>

definition USER_SPACE_MEMORY_TOP :: usize where
  "USER_SPACE_MEMORY_TOP = 0x800000000000"

definition KERNEL_SPACE_MEMORY_BOTTOM :: usize where
  "KERNEL_SPACE_MEMORY_BOTTOM = 0xffff800000000000"

definition addr_is_user :: "usize \<Rightarrow> bool" where
  "addr_is_user a \<longleftrightarrow> a < USER_SPACE_MEMORY_TOP"

definition range_is_user :: "addr_range \<Rightarrow> bool" where
  "range_is_user r \<longleftrightarrow>
     \<not> (ar_end r > USER_SPACE_MEMORY_TOP \<or> ar_start r \<ge> USER_SPACE_MEMORY_TOP)"

definition range_is_kernel :: "addr_range \<Rightarrow> bool" where
  "range_is_kernel r \<longleftrightarrow> ar_start r \<ge> KERNEL_SPACE_MEMORY_BOTTOM"

section \<open>Facts about alignment\<close>

lemma div_ceil_cases:
  obtains q where "a = q * b" "div_ceil a b = q"
  | q m where "a = q * b + m" "0 < m" "div_ceil a b = q + 1" "m = a mod b"
proof (cases "a mod b = 0")
  case True
  then have "a = a div b * b" using div_mult_mod_eq [of a b] by linarith
  with True that(1) show ?thesis by (simp add: div_ceil_def)
next
  case False
  show ?thesis
    by (rule that(2) [of "a div b" "a mod b"]) (use False in \<open>simp_all add: div_ceil_def\<close>)
qed

lemma div_ceil_ge:
  assumes "0 < b"
  shows "a \<le> div_ceil a b * b"
proof (rule div_ceil_cases [of a b])
  fix q m
  assume "a = q * b + m" "div_ceil a b = q + 1" "m = a mod b"
  moreover have "a mod b < b" using assms by simp
  ultimately show ?thesis by (simp add: add_mult_distrib)
qed simp

lemma div_ceil_less: "0 < b \<Longrightarrow> div_ceil a b * b < a + b"
  by (rule div_ceil_cases [of a b]) auto

lemma floor_to_dvd [simp]: "sz dvd floor_to a sz"
  by (simp add: floor_to_def)

lemma floor_to_le [simp]: "floor_to a sz \<le> a"
  by (simp add: floor_to_def)

lemma floor_to_gt: "0 < sz \<Longrightarrow> a < floor_to a sz + sz"
  unfolding floor_to_def using div_mult_mod_eq [of a sz] mod_less_divisor [of sz a] by linarith

lemma is_aligned_to_iff [simp]: "is_aligned_to a sz \<longleftrightarrow> sz dvd a"
  by (simp add: is_aligned_to_def offset_in_def dvd_eq_mod_eq_0)

lemma floor_to_aligned: "sz dvd a \<Longrightarrow> floor_to a sz = a"
  by (simp add: floor_to_def)

lemma ceil_to_nowrap:
  assumes "0 < sz" and "a + sz \<le> usize_mod"
  shows "ceil_to a sz = div_ceil a sz * sz"
  using div_ceil_less [OF assms(1), of a] assms(2) by (simp add: ceil_to_def umul_eq)

lemma ceil_to_aligned: "sz dvd a \<Longrightarrow> a < usize_mod \<Longrightarrow> ceil_to a sz = a"
  by (simp add: ceil_to_def div_ceil_def dvd_eq_mod_eq_0 [symmetric] umul_eq)

lemma ceil_to_dvd: "0 < sz \<Longrightarrow> a + sz \<le> usize_mod \<Longrightarrow> sz dvd ceil_to a sz"
  by (simp add: ceil_to_nowrap)

lemma page_floor_simps [simp]:
  "4096 dvd page_floor a" "page_floor a \<le> a"
  by (simp_all add: page_floor_def floor_to_def)

lemma is_page_aligned_iff [simp]: "is_page_aligned a \<longleftrightarrow> 4096 dvd a"
  by (simp add: is_page_aligned_def)




section \<open>Facts about ranges\<close>

text \<open>What every range of the kernel satisfies: \<open>AddrRange::new\<close> asserts the first half.\<close>

definition valid_range :: "addr_range \<Rightarrow> bool" where
  "valid_range r \<longleftrightarrow> ar_start r \<le> ar_end r \<and> ar_end r < usize_mod"

definition range_set :: "addr_range \<Rightarrow> usize set" where
  "range_set r = {ar_start r..<ar_end r}"

definition range_opt_set :: "addr_range option \<Rightarrow> usize set" where
  "range_opt_set x = (case x of None \<Rightarrow> {} | Some r \<Rightarrow> range_set r)"

lemma range_opt_set_simps [simp]:
  "range_opt_set None = {}" "range_opt_set (Some r) = range_set r"
  by (simp_all add: range_opt_set_def)

lemma range_from_simps [simp]: "ar_start (range_from a) = a" "ar_end (range_from a) = a"
  by (simp_all add: range_from_def)

lemma range_new_eq [simp]: "s \<le> e \<Longrightarrow> range_new s e = Inr \<lparr>ar_start = s, ar_end = e\<rparr>"
  by (simp add: range_new_def)

lemma range_new_panic [simp]: "e < s \<Longrightarrow> range_new s e = Inl Panic"
  by (simp add: range_new_def)

lemma range_len_eq: "valid_range r \<Longrightarrow> range_len r = ar_end r - ar_start r"
  by (simp add: valid_range_def range_len_def usub_eq)

lemma split_at_eq [simp]:
  "ar_start r < at \<Longrightarrow> at < ar_end r \<Longrightarrow>
   split_at r at = Inr (\<lparr>ar_start = ar_start r, ar_end = at\<rparr>, \<lparr>ar_start = at, ar_end = ar_end r\<rparr>)"
  by (simp add: split_at_def split_at_checked_def)

lemma mask_with_checked_None:
  assumes "valid_range r" and "valid_range m"
  shows "mask_with_checked r m = Inr None \<longleftrightarrow> ar_start m = ar_end m \<or> \<not> overlap_with r m"
  using assms
  by (auto simp: mask_with_checked_def range_len_eq valid_range_def overlap_with_def
      split: if_splits)

lemma mask_with_checked_Some:
  assumes "valid_range r" and "valid_range m" and "ar_start m < ar_end m" and "overlap_with r m"
  shows "mask_with_checked r m = Inr (Some
    (if ar_start r < ar_start m then Some \<lparr>ar_start = ar_start r, ar_end = ar_start m\<rparr> else None,
     \<lparr>ar_start = max (ar_start r) (ar_start m), ar_end = min (ar_end r) (ar_end m)\<rparr>,
     if ar_end m < ar_end r then Some \<lparr>ar_start = ar_end m, ar_end = ar_end r\<rparr> else None))"
  using assms
  by (auto simp: mask_with_checked_def range_len_eq valid_range_def overlap_with_def
      max_def min_def)

lemma range_cmp_point:
  "valid_range r \<Longrightarrow> range_cmp (range_from a) r =
     (if a < ar_start r then Less else if a = ar_start r \<or> a < ar_end r then Equal else Greater)"
  by (auto simp: range_cmp_def valid_range_def)

lemma range_cmp_point_right:
  "valid_range r \<Longrightarrow> range_cmp r (range_from a) =
     (if a < ar_start r then Greater else if a = ar_start r \<or> a < ar_end r then Equal else Less)"
  by (auto simp: range_cmp_def valid_range_def)

text \<open>The order in which the ranges of one address space stand: no two of them share an
  address or a start.\<close>

definition range_before :: "addr_range \<Rightarrow> addr_range \<Rightarrow> bool" where
  "range_before r1 r2 \<longleftrightarrow> valid_range r1 \<and> valid_range r2 \<and>
     ar_end r1 \<le> ar_start r2 \<and> ar_start r1 < ar_start r2"

lemma range_before_cmp:
  "range_before r1 r2 \<Longrightarrow> range_cmp r1 r2 = Less \<and> range_cmp r2 r1 = Greater"
  by (auto simp: range_before_def range_cmp_def valid_range_def)

lemma range_before_trans: "range_before a b \<Longrightarrow> range_before b c \<Longrightarrow> range_before a c"
  by (auto simp: range_before_def valid_range_def)

text \<open>C8: masking partitions. For ranges that \<open>AddrRange::new\<close> accepts,
  \<open>mask_with_checked\<close> never panics; it answers \<open>None\<close> exactly when the mask is empty or does
  not overlap, and otherwise the three pieces are the part of the range below the mask, the
  common part and the part above it.\<close>

theorem mask_with_checked_partition:
  assumes "valid_range self" and "valid_range msk"
  shows "(mask_with_checked self msk = Inr None \<and>
           (ar_start msk = ar_end msk \<or> \<not> overlap_with self msk) \<and>
           range_set self \<inter> range_set msk = {}) \<or>
         (\<exists>left mid right. mask_with_checked self msk = Inr (Some (left, mid, right)) \<and>
           ar_start msk < ar_end msk \<and> overlap_with self msk \<and>
           range_opt_set left \<union> range_set mid \<union> range_opt_set right = range_set self \<and>
           range_set mid = range_set self \<inter> range_set msk \<and>
           range_opt_set left = {a \<in> range_set self. a < ar_start msk} \<and>
           range_opt_set right = {a \<in> range_set self. ar_end msk \<le> a})"
proof (cases "ar_start msk = ar_end msk \<or> \<not> overlap_with self msk")
  case True
  with assms have "mask_with_checked self msk = Inr None" by (simp add: mask_with_checked_None)
  with True show ?thesis by (auto simp: range_set_def overlap_with_def)
next
  case False
  with assms have "ar_start msk < ar_end msk" "overlap_with self msk"
    by (auto simp: valid_range_def)
  with assms show ?thesis
    by (simp add: mask_with_checked_Some) (auto simp: range_set_def overlap_with_def)
qed

theorem mask_with_checked_partition_witness:
  "valid_range \<lparr>ar_start = 0, ar_end = 9\<rparr> \<and> valid_range \<lparr>ar_start = 3, ar_end = 5\<rparr> \<and>
   mask_with_checked \<lparr>ar_start = 0, ar_end = 9\<rparr> \<lparr>ar_start = 3, ar_end = 5\<rparr> =
     Inr (Some (Some \<lparr>ar_start = 0, ar_end = 3\<rparr>, \<lparr>ar_start = 3, ar_end = 5\<rparr>,
                Some \<lparr>ar_start = 5, ar_end = 9\<rparr>))"
proof -
  have h: "valid_range \<lparr>ar_start = 0, ar_end = 9\<rparr>" "valid_range \<lparr>ar_start = 3, ar_end = 5\<rparr>"
    by (simp_all add: valid_range_def usize_mod_def)
  from mask_with_checked_partition [OF h] h show ?thesis
    by (simp add: mask_with_checked_Some overlap_with_def)
qed

end
