(* ===== verification/Btree.thy ===== *)
theory Btree
  imports Prelude
begin

text \<open>
  The ordered collections of the standard library the kernel uses (\<open>BTreeSet\<close>, \<open>BTreeMap\<close>),
  as the list of their elements in order. A search walks the elements from the left, comparing
  the key with each: it goes on at \<open>Greater\<close>, has found the element at \<open>Equal\<close> and gives up at
  \<open>Less\<close>. The locale \<open>search_order\<close> is the contract between the comparison function of a client
  and the searches: what the comparison has to satisfy on the elements that are in the
  collection for a search to be exact.
\<close>

fun bt_get :: "('k \<Rightarrow> 'a \<Rightarrow> ordering) \<Rightarrow> 'k \<Rightarrow> 'a list \<Rightarrow> 'a option" where
  "bt_get cmp k [] = None"
| "bt_get cmp k (x # xs) =
     (case cmp k x of Greater \<Rightarrow> bt_get cmp k xs | Equal \<Rightarrow> Some x | Less \<Rightarrow> None)"

text \<open>\<open>BTreeSet::insert\<close> keeps the old element when an equal one is present.\<close>

fun bt_insert :: "('a \<Rightarrow> 'a \<Rightarrow> ordering) \<Rightarrow> 'a \<Rightarrow> 'a list \<Rightarrow> 'a list" where
  "bt_insert cmp y [] = [y]"
| "bt_insert cmp y (x # xs) =
     (case cmp y x of Greater \<Rightarrow> x # bt_insert cmp y xs | Equal \<Rightarrow> x # xs | Less \<Rightarrow> y # x # xs)"

fun bt_from :: "('k \<Rightarrow> 'a \<Rightarrow> ordering) \<Rightarrow> 'k \<Rightarrow> 'a list \<Rightarrow> 'a list" where
  "bt_from cmp lo [] = []"
| "bt_from cmp lo (x # xs) = (if cmp lo x = Greater then bt_from cmp lo xs else x # xs)"

fun bt_upto :: "('k \<Rightarrow> 'a \<Rightarrow> ordering) \<Rightarrow> 'k \<Rightarrow> 'a list \<Rightarrow> 'a list" where
  "bt_upto cmp hi [] = []"
| "bt_upto cmp hi (x # xs) =
     (case cmp hi x of Greater \<Rightarrow> x # bt_upto cmp hi xs | Equal \<Rightarrow> [x] | Less \<Rightarrow> [])"

text \<open>\<open>BTreeSet::range(lo..=hi)\<close>.\<close>

definition bt_range :: "('k \<Rightarrow> 'a \<Rightarrow> ordering) \<Rightarrow> 'k \<Rightarrow> 'k \<Rightarrow> 'a list \<Rightarrow> 'a list" where
  "bt_range cmp lo hi xs = bt_upto cmp hi (bt_from cmp lo xs)"

locale search_order =
  fixes cmp :: "'k \<Rightarrow> 'a \<Rightarrow> ordering"
    and before :: "'a \<Rightarrow> 'a \<Rightarrow> bool"
  assumes not_greater: "before x y \<Longrightarrow> cmp k x \<noteq> Greater \<Longrightarrow> cmp k y = Less"
begin

lemma not_greater_all:
  "sorted_wrt before (x # xs) \<Longrightarrow> cmp k x \<noteq> Greater \<Longrightarrow> y \<in> set xs \<Longrightarrow> cmp k y = Less"
  by (auto intro: not_greater)

lemma bt_get_Some_iff:
  "sorted_wrt before xs \<Longrightarrow> bt_get cmp k xs = Some x \<longleftrightarrow> x \<in> set xs \<and> cmp k x = Equal"
proof (induction xs)
  case (Cons y ys)
  show ?case
  proof (cases "cmp k y = Greater")
    case True
    with Cons show ?thesis by auto
  next
    case False
    with Cons.prems have "\<And>z. z \<in> set ys \<Longrightarrow> cmp k z = Less" by (rule not_greater_all)
    with False show ?thesis by (cases "cmp k y") auto
  qed
qed simp

lemma bt_get_None_iff:
  "sorted_wrt before xs \<Longrightarrow> bt_get cmp k xs = None \<longleftrightarrow> (\<forall>x\<in>set xs. cmp k x \<noteq> Equal)"
  using bt_get_Some_iff [of xs k] by (metis not_Some_eq)

lemma set_bt_from: "sorted_wrt before xs \<Longrightarrow> set (bt_from cmp lo xs) = {x \<in> set xs. cmp lo x \<noteq> Greater}"
  by (induction xs) (auto dest: not_greater, metis not_greater ordering.distinct(3))

lemma set_bt_upto: "sorted_wrt before xs \<Longrightarrow> set (bt_upto cmp hi xs) = {x \<in> set xs. cmp hi x \<noteq> Less}"
proof (induction xs)
  case (Cons y ys)
  show ?case
  proof (cases "cmp hi y = Greater")
    case True
    with Cons show ?thesis by auto
  next
    case False
    with Cons.prems have "\<And>z. z \<in> set ys \<Longrightarrow> cmp hi z = Less" by (rule not_greater_all)
    with False show ?thesis by (cases "cmp hi y") auto
  qed
qed simp

lemma sorted_bt_from: "sorted_wrt before xs \<Longrightarrow> sorted_wrt before (bt_from cmp lo xs)"
  by (induction xs) auto

lemma bt_upto_prefix: "\<exists>n. bt_upto cmp hi xs = take n xs"
proof (induction xs)
  case (Cons y ys)
  then obtain n where n: "bt_upto cmp hi ys = take n ys" by blast
  show ?case
  proof (cases "cmp hi y")
    case Greater
    with n have "bt_upto cmp hi (y # ys) = take (Suc n) (y # ys)" by simp
    then show ?thesis by blast
  next
    case Equal
    then have "bt_upto cmp hi (y # ys) = take 1 (y # ys)" by simp
    then show ?thesis by blast
  next
    case Less
    then have "bt_upto cmp hi (y # ys) = take 0 (y # ys)" by simp
    then show ?thesis by blast
  qed
qed simp

lemma sorted_bt_range: "sorted_wrt before xs \<Longrightarrow> sorted_wrt before (bt_range cmp lo hi xs)"
  using bt_upto_prefix [of hi "bt_from cmp lo xs"] sorted_bt_from [of xs lo]
  by (auto simp: bt_range_def sorted_wrt_take)

lemma set_bt_range:
  "sorted_wrt before xs \<Longrightarrow>
   set (bt_range cmp lo hi xs) = {x \<in> set xs. cmp lo x \<noteq> Greater \<and> cmp hi x \<noteq> Less}"
  using set_bt_upto [OF sorted_bt_from, of xs hi lo] set_bt_from [of xs lo]
  by (auto simp: bt_range_def)

end

text \<open>Insertion of an element that is comparable with all the others.\<close>

lemma set_bt_insert: "set (bt_insert cmp y xs) \<subseteq> insert y (set xs)"
  by (induction xs) (auto split: ordering.splits)

lemma bt_insert_sorted:
  assumes "sorted_wrt before xs"
    and trans: "\<And>a b c. before a b \<Longrightarrow> before b c \<Longrightarrow> before a c"
    and "\<forall>x\<in>set xs. (before x y \<and> cmp y x = Greater) \<or> (before y x \<and> cmp y x = Less)"
  shows "sorted_wrt before (bt_insert cmp y xs) \<and> set (bt_insert cmp y xs) = insert y (set xs)"
  using assms(1,3)
proof (induction xs)
  case (Cons x xs)
  show ?case
  proof (cases "cmp y x")
    case Less
    with Cons.prems have "before y x" by auto
    with Less Cons.prems show ?thesis by (auto intro: trans)
  next
    case Equal
    with Cons.prems show ?thesis by auto
  next
    case Greater
    with Cons show ?thesis by auto
  qed
qed simp

end
