(* ===== verification/Intrusive_List.thy ===== *)
theory Intrusive_List
  imports Prelude
begin

text \<open>
  The doubly linked list of the crate \<open>intrusive_list\<close>. The links live inside the nodes, so the
  model keeps them in a store \<open>'n links\<close> from node addresses to link fields, and every method
  is a function on the store. \<open>is_list h hn xs\<close> says that the store represents the list \<open>xs\<close>
  behind the head \<open>hn\<close>; the locale \<open>linked_lists\<close> is the contract the allocators rely on, with
  the lemmas for a family of lists that share one store.
\<close>

record 'n link =
  lk_prev :: "'n option"
  lk_next :: "'n option"

type_synonym 'n links = "'n \<Rightarrow> 'n link"

record 'n ilist =
  il_head :: 'n
  il_count :: usize

definition link_new :: "'n link" where
  "link_new = \<lparr>lk_prev = None, lk_next = None\<rparr>"

definition link_insert :: "'n links \<Rightarrow> 'n \<Rightarrow> 'n \<Rightarrow> 'n links" where
  "link_insert h self node =
     (let h = (case lk_next (h self) of
                 Some nx \<Rightarrow> h(nx := (h nx)\<lparr>lk_prev := Some node\<rparr>)
               | None \<Rightarrow> h);
          h = h(node := (h node)\<lparr>lk_next := lk_next (h self)\<rparr>);
          h = h(node := (h node)\<lparr>lk_prev := Some self\<rparr>)
      in h(self := (h self)\<lparr>lk_next := Some node\<rparr>))"

definition link_remove :: "'n links \<Rightarrow> 'n \<Rightarrow> 'n links" where
  "link_remove h self =
     (let h = (case lk_next (h self) of
                 Some nx \<Rightarrow> h(nx := (h nx)\<lparr>lk_prev := lk_prev (h self)\<rparr>)
               | None \<Rightarrow> h);
          h = (case lk_prev (h self) of
                 Some pv \<Rightarrow> h(pv := (h pv)\<lparr>lk_next := lk_next (h self)\<rparr>)
               | None \<Rightarrow> h)
      in h(self := \<lparr>lk_prev = None, lk_next = None\<rparr>))"

definition link_next :: "'n links \<Rightarrow> 'n \<Rightarrow> 'n option" where
  "link_next h self = lk_next (h self)"

text \<open>The counter counts nodes in memory, so the increment cannot overflow; the decrement
  wraps at 0 as in the release profile.\<close>

definition udec :: "usize \<Rightarrow> usize" where
  "udec c = (if c = 0 then usize_mod - 1 else c - 1)"

definition ilist_new :: "'n \<Rightarrow> 'n ilist" where
  "ilist_new hn = \<lparr>il_head = hn, il_count = 0\<rparr>"

definition ilist_insert :: "'n links \<Rightarrow> 'n ilist \<Rightarrow> 'n \<Rightarrow> 'n links \<times> 'n ilist" where
  "ilist_insert h l node = (link_insert h (il_head l) node, l\<lparr>il_count := il_count l + 1\<rparr>)"

definition ilist_remove :: "'n links \<Rightarrow> 'n ilist \<Rightarrow> 'n \<Rightarrow> 'n links \<times> 'n ilist" where
  "ilist_remove h l node = (link_remove h node, l\<lparr>il_count := udec (il_count l)\<rparr>)"

definition ilist_pop :: "'n links \<Rightarrow> 'n ilist \<Rightarrow> 'n links \<times> 'n ilist \<times> 'n option" where
  "ilist_pop h l =
     (case link_next h (il_head l) of
        None \<Rightarrow> (h, l, None)
      | Some node \<Rightarrow> (link_remove h node, l\<lparr>il_count := udec (il_count l)\<rparr>, Some node))"

definition ilist_is_empty :: "'n ilist \<Rightarrow> bool" where
  "ilist_is_empty l \<longleftrightarrow> il_count l = 0"

definition ilist_first :: "'n links \<Rightarrow> 'n ilist \<Rightarrow> 'n option" where
  "ilist_first h l = link_next h (il_head l)"

section \<open>What a store represents\<close>

fun dll :: "'n links \<Rightarrow> 'n \<Rightarrow> 'n list \<Rightarrow> bool" where
  "dll h p [] \<longleftrightarrow> lk_next (h p) = None"
| "dll h p (x # xs) \<longleftrightarrow> lk_next (h p) = Some x \<and> lk_prev (h x) = Some p \<and> dll h x xs"

definition is_list :: "'n links \<Rightarrow> 'n \<Rightarrow> 'n list \<Rightarrow> bool" where
  "is_list h hn xs \<longleftrightarrow> distinct (hn # xs) \<and> lk_prev (h hn) = None \<and> dll h hn xs"

lemma dll_frame:
  "dll h p xs \<Longrightarrow> lk_next (h' p) = lk_next (h p) \<Longrightarrow> (\<And>x. x \<in> set xs \<Longrightarrow> h' x = h x) \<Longrightarrow> dll h' p xs"
  by (induction h p xs rule: dll.induct) auto

lemma is_list_frame:
  "is_list h hn xs \<Longrightarrow> (\<And>x. x \<in> set (hn # xs) \<Longrightarrow> h' x = h x) \<Longrightarrow> is_list h' hn xs"
  unfolding is_list_def by (auto intro: dll_frame [where h = h])

lemma dll_append:
  "dll h p (xs @ ys) \<Longrightarrow> dll h (last (p # xs)) ys"
  by (induction xs arbitrary: p) auto

lemma dll_next_mem: "dll h p xs \<Longrightarrow> q \<in> set (p # xs) \<Longrightarrow> lk_next (h q) = Some r \<Longrightarrow> r \<in> set xs"
proof (induction h p xs rule: dll.induct)
  case (2 h p x xs)
  then show ?case by (cases "q = p") auto
qed auto

lemma link_insert_list:
  assumes "is_list h hn xs" and "n \<notin> set (hn # xs)"
  shows "is_list (link_insert h hn n) hn (n # xs)"
proof (cases xs)
  case Nil
  with assms show ?thesis by (auto simp: is_list_def link_insert_def Let_def)
next
  case (Cons x ys)
  have "dll (link_insert h hn n) x ys"
    by (rule dll_frame [where h = h])
      (use assms Cons in \<open>auto simp: is_list_def link_insert_def Let_def\<close>)
  with assms Cons show ?thesis by (auto simp: is_list_def link_insert_def Let_def)
qed

lemma link_insert_same:
  assumes "is_list h hn xs" and "m \<notin> set (n # hn # xs)"
  shows "link_insert h hn n m = h m"
  using assms by (cases xs) (auto simp: is_list_def link_insert_def Let_def)

lemma link_remove_dll:
  assumes "dll h p (xs @ n # ys)" and "distinct (p # xs @ n # ys)"
  shows "dll (link_remove h n) p (xs @ ys)"
  using assms
proof (induction xs arbitrary: p)
  case Nil
  show ?case
  proof (cases ys)
    case Nil
    with Nil.prems show ?thesis by (auto simp: link_remove_def Let_def)
  next
    case (Cons y zs)
    have "dll (link_remove h n) y zs"
      by (rule dll_frame [where h = h])
        (use Nil.prems Cons in \<open>auto simp: link_remove_def Let_def\<close>)
    moreover have "lk_next (link_remove h n p) = Some y" "lk_prev (link_remove h n y) = Some p"
      using Nil.prems Cons by (auto simp: link_remove_def Let_def)
    ultimately show ?thesis using Cons by simp
  qed
next
  case (Cons x xs)
  have pv: "lk_prev (h n) = Some (last (x # xs))"
    using dll_append [of h x xs "n # ys"] Cons.prems(1) by simp
  have nx: "lk_next (h n) \<noteq> Some x" "lk_next (h n) \<noteq> Some p"
    using dll_next_mem [of h "last (x # xs)" "n # ys" n] dll_append [of h x xs "n # ys"] Cons.prems
    by auto
  have "p \<noteq> last (x # xs)" "p \<noteq> n" using Cons.prems(2) last_in_set [of "x # xs"] by auto
  then have p: "lk_next (link_remove h n p) = lk_next (h p)"
    using pv nx by (auto simp: link_remove_def Let_def split: option.splits)
  have x: "lk_prev (link_remove h n x) = lk_prev (h x)"
    using pv nx Cons.prems by (auto simp: link_remove_def Let_def split: option.splits)
  show ?case using Cons p x by auto
qed

lemma link_remove_head_prev:
  assumes "is_list h hn (xs @ n # ys)"
  shows "lk_prev (link_remove h n hn) = None"
proof -
  have "lk_next (h n) \<noteq> Some hn"
    using dll_next_mem [of h hn "xs @ n # ys" n hn] assms by (auto simp: is_list_def)
  with assms show ?thesis by (auto simp: is_list_def link_remove_def Let_def split: option.splits)
qed

lemma link_remove_list:
  "is_list h hn (xs @ n # ys) \<Longrightarrow> is_list (link_remove h n) hn (xs @ ys)"
  using link_remove_dll [of h hn xs n ys] link_remove_head_prev [of h hn xs n ys]
  by (auto simp: is_list_def)

lemma link_remove_same:
  assumes "is_list h hn xs" and "n \<in> set xs" and "m \<notin> set (hn # xs)"
  shows "link_remove h n m = h m"
proof -
  obtain as bs where ab: "xs = as @ n # bs" using assms(2) by (meson split_list)
  have "lk_next (h n) \<noteq> Some m"
    using dll_next_mem [of h hn xs n m] assms by (auto simp: is_list_def)
  moreover have "lk_prev (h n) = Some (last (hn # as))"
    using dll_append [of h hn as "n # bs"] assms(1) ab by (simp add: is_list_def)
  moreover have "last (hn # as) \<noteq> m"
    using assms(3) ab last_in_set [of "hn # as"] by auto
  moreover have "m \<noteq> n" using assms by auto
  ultimately show ?thesis by (auto simp: link_remove_def Let_def split: option.splits)
qed

lemma link_next_list:
  "is_list h hn xs \<Longrightarrow> link_next h hn = (case xs of [] \<Rightarrow> None | x # _ \<Rightarrow> Some x)"
  by (cases xs) (auto simp: is_list_def link_next_def)


section \<open>The contract of linked lists\<close>

text \<open>A family of lists in one store: the heads \<open>H\<close>, and the nodes \<open>f hn\<close> behind each head.\<close>

definition list_family ::
  "('s \<Rightarrow> 'n \<Rightarrow> 'n list \<Rightarrow> bool) \<Rightarrow> 's \<Rightarrow> 'n set \<Rightarrow> ('n \<Rightarrow> 'n list) \<Rightarrow> bool" where
  "list_family repr h H f \<longleftrightarrow>
     (\<forall>hn\<in>H. repr h hn (f hn) \<and> set (f hn) \<inter> H = {}) \<and>
     (\<forall>hn\<in>H. \<forall>hm\<in>H. hn \<noteq> hm \<longrightarrow> set (f hn) \<inter> set (f hm) = {})"

locale linked_lists =
  fixes repr :: "'s \<Rightarrow> 'n \<Rightarrow> 'n list \<Rightarrow> bool"
    and ins :: "'s \<Rightarrow> 'n \<Rightarrow> 'n \<Rightarrow> 's"
    and rem :: "'s \<Rightarrow> 'n \<Rightarrow> 's"
    and nxt :: "'s \<Rightarrow> 'n \<Rightarrow> 'n option"
  assumes repr_distinct: "repr h hn xs \<Longrightarrow> distinct (hn # xs)"
    and ins_list: "repr h hn xs \<Longrightarrow> n \<notin> set (hn # xs) \<Longrightarrow> repr (ins h hn n) hn (n # xs)"
    and ins_frame: "repr h hn xs \<Longrightarrow> repr h hm ys \<Longrightarrow> set (n # hn # xs) \<inter> set (hm # ys) = {} \<Longrightarrow>
      repr (ins h hn n) hm ys"
    and rem_list: "repr h hn (xs @ n # ys) \<Longrightarrow> repr (rem h n) hn (xs @ ys)"
    and rem_frame: "repr h hn xs \<Longrightarrow> n \<in> set xs \<Longrightarrow> repr h hm ys \<Longrightarrow>
      set (hn # xs) \<inter> set (hm # ys) = {} \<Longrightarrow> repr (rem h n) hm ys"
    and nxt_list: "repr h hn xs \<Longrightarrow> nxt h hn = (case xs of [] \<Rightarrow> None | x # _ \<Rightarrow> Some x)"
begin

lemma family_nxt:
  "list_family repr h H f \<Longrightarrow> hn \<in> H \<Longrightarrow> nxt h hn = (case f hn of [] \<Rightarrow> None | x # _ \<Rightarrow> Some x)"
  by (auto simp: list_family_def nxt_list)

lemma family_distinct: "list_family repr h H f \<Longrightarrow> hn \<in> H \<Longrightarrow> distinct (f hn)"
  using repr_distinct by (fastforce simp: list_family_def)

lemma family_disjoint:
  "list_family repr h H f \<Longrightarrow> hn \<in> H \<Longrightarrow> hm \<in> H \<Longrightarrow> hn \<noteq> hm \<Longrightarrow> x \<in> set (f hn) \<Longrightarrow> x \<notin> set (f hm)"
  unfolding list_family_def by (metis IntI empty_iff)

lemma family_insert:
  assumes fam: "list_family repr h H f" and hn: "hn \<in> H"
    and n: "n \<notin> H" "\<And>hm. hm \<in> H \<Longrightarrow> n \<notin> set (f hm)"
  shows "list_family repr (ins h hn n) H (f(hn := n # f hn))"
proof -
  have "repr (ins h hn n) hm ((f(hn := n # f hn)) hm)" if hm: "hm \<in> H" for hm
  proof (cases "hm = hn")
    case True
    have "n \<notin> set (hn # f hn)" using n hn by auto
    with True fam hn show ?thesis by (auto simp: list_family_def intro: ins_list)
  next
    case False
    have "set (n # hn # f hn) \<inter> set (hm # f hm) = {}"
      using fam hn hm n False by (auto simp: list_family_def)
    then have "repr (ins h hn n) hm (f hm)"
      using ins_frame [of h hn "f hn" hm "f hm" n] fam hn hm by (simp add: list_family_def)
    with False show ?thesis by simp
  qed
  moreover have "set ((f(hn := n # f hn)) hm) \<inter> H = {}" if "hm \<in> H" for hm
    using fam hn n that by (auto simp: list_family_def)
  moreover have "set ((f(hn := n # f hn)) h1) \<inter> set ((f(hn := n # f hn)) h2) = {}"
    if "h1 \<in> H" "h2 \<in> H" "h1 \<noteq> h2" for h1 h2
    using fam hn n that by (auto simp: list_family_def)
  ultimately show ?thesis by (simp add: list_family_def)
qed

lemma family_remove:
  assumes fam: "list_family repr h H f" and hn: "hn \<in> H" and n: "n \<in> set (f hn)"
  shows "list_family repr (rem h n) H (f(hn := remove1 n (f hn)))"
proof -
  obtain as bs where ab: "f hn = as @ n # bs" using n by (meson split_list)
  have d: "distinct (f hn)" using family_distinct [OF fam hn] .
  then have r: "remove1 n (f hn) = as @ bs" by (simp add: ab remove1_append)
  have "repr (rem h n) hm ((f(hn := remove1 n (f hn))) hm)" if hm: "hm \<in> H" for hm
  proof (cases "hm = hn")
    case True
    have "repr h hn (as @ n # bs)" using fam hn ab by (auto simp: list_family_def)
    then have "repr (rem h n) hn (as @ bs)" by (rule rem_list)
    with True r show ?thesis by simp
  next
    case False
    have "set (hn # f hn) \<inter> set (hm # f hm) = {}"
      using fam hn hm False by (auto simp: list_family_def)
    then have "repr (rem h n) hm (f hm)"
      using rem_frame [of h hn "f hn" n hm "f hm"] fam hn hm n by (simp add: list_family_def)
    with False show ?thesis by simp
  qed
  moreover have "set (remove1 n (f hn)) \<subseteq> set (f hn)" by (rule set_remove1_subset)
  ultimately show ?thesis using fam hn by (auto simp: list_family_def; blast)
qed

end

interpretation il: linked_lists is_list link_insert link_remove link_next
proof
  show "distinct (hn # xs)" if "is_list h hn xs" for h :: "'a links" and hn xs
    using that by (simp add: is_list_def)
  show "is_list (link_insert h hn n) hn (n # xs)"
    if "is_list h hn xs" "n \<notin> set (hn # xs)" for h :: "'a links" and hn xs n
    using that by (rule link_insert_list)
  show "is_list (link_insert h hn n) hm ys"
    if "is_list h hn xs" "is_list h hm ys" "set (n # hn # xs) \<inter> set (hm # ys) = {}"
    for h :: "'a links" and hn xs hm ys n
    using that by (intro is_list_frame [OF that(2)] link_insert_same [OF that(1)]) auto
  show "is_list (link_remove h n) hn (xs @ ys)" if "is_list h hn (xs @ n # ys)"
    for h :: "'a links" and hn xs n ys
    using that by (rule link_remove_list)
  show "is_list (link_remove h n) hm ys"
    if "is_list h hn xs" "n \<in> set xs" "is_list h hm ys" "set (hn # xs) \<inter> set (hm # ys) = {}"
    for h :: "'a links" and hn xs n hm ys
    using that by (intro is_list_frame [OF that(3)] link_remove_same [OF that(1,2)]) auto
  show "link_next h hn = (case xs of [] \<Rightarrow> None | x # _ \<Rightarrow> Some x)" if "is_list h hn xs"
    for h :: "'a links" and hn xs
    using that by (rule link_next_list)
qed



end
