(* ===== verification/Raw_Page.thy ===== *)
theory Raw_Page
  imports Intrusive_List
begin

unbundle bit_operations_syntax

text \<open>
  The page descriptors of \<open>src/kernel/mem/page_alloc/raw_page.rs\<close>. \<open>RawPagePtr\<close> is a pointer into
  the page array, whose index is the page frame number, so the model names a descriptor by
  its frame number and keeps the array as a function. A link field is named by the constructor
  of \<open>node\<close> that owns it: the head of a list of one of the allocators, or a page descriptor.
\<close>

datatype node =
    AreaHead nat      \<comment> \<open>\<open>free_areas[order]\<close> of the buddy zone\<close>
  | CpuHead nat       \<comment> \<open>\<open>free_areas[order]\<close> of the per-cpu allocator\<close>
  | SlabEmpty nat | SlabPartial nat | SlabFull nat  \<comment> \<open>the lists of one slab cache\<close>
  | PageNode nat      \<comment> \<open>the \<open>link\<close> field of a page descriptor\<close>

datatype page_type =
    Buddy
  | Slab (allocated_count: nat) (free_next: "usize option")
  | PageCacheData (cache_valid_size: usize)

record raw_page =
  rp_order :: nat
  rp_flags :: u32
  rp_refcount :: usize
  rp_data :: page_type

record phys =
  ph_page :: "nat \<Rightarrow> raw_page"
  ph_links :: "node links"
  ph_area_count :: "nat \<Rightarrow> usize"

definition PF_PRESENT :: u32 where "PF_PRESENT = 1"
definition PF_BUDDY :: u32 where "PF_BUDDY = 4"
definition PF_SLAB :: u32 where "PF_SLAB = 8"
definition PF_DIRTY :: u32 where "PF_DIRTY = 16"
definition PF_FREE :: u32 where "PF_FREE = 32"
definition PF_LOCAL :: u32 where "PF_LOCAL = 64"

definition flags_has :: "u32 \<Rightarrow> u32 \<Rightarrow> bool" where
  "flags_has f flag \<longleftrightarrow> f AND flag = flag"

definition flags_set :: "u32 \<Rightarrow> u32 \<Rightarrow> u32" where
  "flags_set f flag = f OR flag"

definition flags_clear :: "u32 \<Rightarrow> u32 \<Rightarrow> u32" where
  "flags_clear f flag = f AND NOT flag"

definition upd_page :: "nat \<Rightarrow> (raw_page \<Rightarrow> raw_page) \<Rightarrow> 'a phys_scheme \<Rightarrow> 'a phys_scheme" where
  "upd_page p f st = st\<lparr>ph_page := (ph_page st)(p := f (ph_page st p))\<rparr>"

definition page_has :: "'a phys_scheme \<Rightarrow> nat \<Rightarrow> u32 \<Rightarrow> bool" where
  "page_has st p flag \<longleftrightarrow> flags_has (rp_flags (ph_page st p)) flag"

definition page_set_flag :: "nat \<Rightarrow> u32 \<Rightarrow> 'a phys_scheme \<Rightarrow> 'a phys_scheme" where
  "page_set_flag p flag = upd_page p (\<lambda>r. r\<lparr>rp_flags := flags_set (rp_flags r) flag\<rparr>)"

definition page_clear_flag :: "nat \<Rightarrow> u32 \<Rightarrow> 'a phys_scheme \<Rightarrow> 'a phys_scheme" where
  "page_clear_flag p flag = upd_page p (\<lambda>r. r\<lparr>rp_flags := flags_clear (rp_flags r) flag\<rparr>)"

definition is_present :: "'a phys_scheme \<Rightarrow> nat \<Rightarrow> bool" where
  "is_present st p \<longleftrightarrow> page_has st p PF_PRESENT"

definition is_buddy :: "'a phys_scheme \<Rightarrow> nat \<Rightarrow> bool" where
  "is_buddy st p \<longleftrightarrow> page_has st p PF_BUDDY"

definition is_free :: "'a phys_scheme \<Rightarrow> nat \<Rightarrow> bool" where
  "is_free st p \<longleftrightarrow> page_has st p PF_FREE"

definition set_buddy :: "nat \<Rightarrow> 'a phys_scheme \<Rightarrow> 'a phys_scheme" where
  "set_buddy p = page_set_flag p PF_BUDDY"

definition set_free :: "nat \<Rightarrow> 'a phys_scheme \<Rightarrow> 'a phys_scheme" where
  "set_free p = page_set_flag p PF_FREE"

definition clear_buddy :: "nat \<Rightarrow> 'a phys_scheme \<Rightarrow> 'a phys_scheme" where
  "clear_buddy p = page_clear_flag p PF_BUDDY"

definition clear_free :: "nat \<Rightarrow> 'a phys_scheme \<Rightarrow> 'a phys_scheme" where
  "clear_free p = page_clear_flag p PF_FREE"

definition set_order :: "nat \<Rightarrow> nat \<Rightarrow> 'a phys_scheme \<Rightarrow> 'a phys_scheme" where
  "set_order p ord = upd_page p (\<lambda>r. r\<lparr>rp_order := ord\<rparr>)"

definition page_order :: "'a phys_scheme \<Rightarrow> nat \<Rightarrow> nat" where
  "page_order st p = rp_order (ph_page st p)"

definition page_refcount :: "'a phys_scheme \<Rightarrow> nat \<Rightarrow> usize" where
  "page_refcount st p = rp_refcount (ph_page st p)"

definition set_refcount :: "nat \<Rightarrow> usize \<Rightarrow> 'a phys_scheme \<Rightarrow> 'a phys_scheme" where
  "set_refcount p c = upd_page p (\<lambda>r. r\<lparr>rp_refcount := c\<rparr>)"

definition get_link :: "nat \<Rightarrow> node" where
  "get_link p = PageNode p"

text \<open>\<open>container_of!\<close> on a link that is not a page's is undefined behaviour in the source; it is a
  panic here, so a proof that there is no panic excludes it too.\<close>

fun from_link :: "node \<Rightarrow> nat res" where
  "from_link (PageNode p) = Inr p"
| "from_link _ = Inl Panic"

section \<open>Flags\<close>

lemma flags_has_set_same [simp]: "flags_has (flags_set f a) a"
  by (simp add: flags_has_def flags_set_def bit_eq_iff bit_simps)

lemma flags_has_set_other: "a AND b = 0 \<Longrightarrow> flags_has (flags_set f a) b = flags_has f b"
  by (simp add: flags_has_def flags_set_def bit_eq_iff bit_simps) blast

lemma flags_has_clear_other: "a AND b = 0 \<Longrightarrow> flags_has (flags_clear f a) b = flags_has f b"
  by (simp add: flags_has_def flags_clear_def bit_eq_iff bit_simps) blast

lemma flags_has_clear_same: "a \<noteq> 0 \<Longrightarrow> \<not> flags_has (flags_clear f a) a"
  by (simp add: flags_has_def flags_clear_def bit_eq_iff bit_simps)

lemmas pf_defs = PF_PRESENT_def PF_BUDDY_def PF_SLAB_def PF_DIRTY_def PF_FREE_def PF_LOCAL_def

lemma pf_disjoint [simp]:
  "PF_PRESENT AND PF_BUDDY = 0" "PF_PRESENT AND PF_FREE = 0" "PF_PRESENT AND PF_LOCAL = 0"
  "PF_BUDDY AND PF_PRESENT = 0" "PF_BUDDY AND PF_FREE = 0" "PF_BUDDY AND PF_LOCAL = 0"
  "PF_FREE AND PF_PRESENT = 0" "PF_FREE AND PF_BUDDY = 0" "PF_FREE AND PF_LOCAL = 0"
  "PF_LOCAL AND PF_PRESENT = 0" "PF_LOCAL AND PF_BUDDY = 0" "PF_LOCAL AND PF_FREE = 0"
  "PF_DIRTY AND PF_PRESENT = 0" "PF_DIRTY AND PF_FREE = 0"
  by (simp_all add: pf_defs)

lemma pf_nonzero [simp]: "PF_PRESENT \<noteq> 0" "PF_BUDDY \<noteq> 0" "PF_FREE \<noteq> 0" "PF_LOCAL \<noteq> 0"
  by (simp_all add: pf_defs)

text \<open>How each descriptor update changes each observation of a descriptor.\<close>

lemma page_has_set_flag [simp]:
  "a AND b = 0 \<Longrightarrow> page_has (page_set_flag p a st) q b = page_has st q b"
  by (simp add: page_has_def page_set_flag_def upd_page_def flags_has_set_other)

lemma page_has_set_flag_same [simp]:
  "page_has (page_set_flag p a st) q a \<longleftrightarrow> q = p \<or> page_has st q a"
  by (auto simp: page_has_def page_set_flag_def upd_page_def)

lemma page_has_clear_flag [simp]:
  "a AND b = 0 \<Longrightarrow> page_has (page_clear_flag p a st) q b = page_has st q b"
  by (simp add: page_has_def page_clear_flag_def upd_page_def flags_has_clear_other)

lemma page_has_clear_flag_same [simp]:
  "a \<noteq> 0 \<Longrightarrow> page_has (page_clear_flag p a st) q a \<longleftrightarrow> q \<noteq> p \<and> page_has st q a"
  by (auto simp: page_has_def page_clear_flag_def upd_page_def flags_has_clear_same)

lemma page_has_other [simp]:
  "page_has (set_order p k st) q a = page_has st q a"
  "page_has (set_refcount p c st) q a = page_has st q a"
  "page_has (st\<lparr>ph_links := h\<rparr>) q a = page_has st q a"
  "page_has (st\<lparr>ph_area_count := ac\<rparr>) q a = page_has st q a"
  by (simp_all add: page_has_def set_order_def set_refcount_def upd_page_def)

lemma page_order_simps [simp]:
  "page_order (page_set_flag p a st) q = page_order st q"
  "page_order (page_clear_flag p a st) q = page_order st q"
  "page_order (set_refcount p c st) q = page_order st q"
  "page_order (set_order p k st) q = (if q = p then k else page_order st q)"
  "page_order (st\<lparr>ph_links := h\<rparr>) q = page_order st q"
  "page_order (st\<lparr>ph_area_count := ac\<rparr>) q = page_order st q"
  by (simp_all add: page_order_def page_set_flag_def page_clear_flag_def set_refcount_def
      set_order_def upd_page_def)

lemma page_refcount_simps [simp]:
  "page_refcount (page_set_flag p a st) q = page_refcount st q"
  "page_refcount (page_clear_flag p a st) q = page_refcount st q"
  "page_refcount (set_order p k st) q = page_refcount st q"
  "page_refcount (set_refcount p c st) q = (if q = p then c else page_refcount st q)"
  "page_refcount (st\<lparr>ph_links := h\<rparr>) q = page_refcount st q"
  "page_refcount (st\<lparr>ph_area_count := ac\<rparr>) q = page_refcount st q"
  by (simp_all add: page_refcount_def page_set_flag_def page_clear_flag_def set_refcount_def
      set_order_def upd_page_def)

lemma page_upd_frame [simp]:
  "ph_links (page_set_flag p a st) = ph_links st" "ph_links (page_clear_flag p a st) = ph_links st"
  "ph_links (set_order p k st) = ph_links st" "ph_links (set_refcount p c st) = ph_links st"
  "ph_area_count (page_set_flag p a st) = ph_area_count st"
  "ph_area_count (page_clear_flag p a st) = ph_area_count st"
  "ph_area_count (set_order p k st) = ph_area_count st"
  "ph_area_count (set_refcount p c st) = ph_area_count st"
  by (simp_all add: page_set_flag_def page_clear_flag_def set_order_def set_refcount_def
      upd_page_def)

lemmas flag_ops = is_present_def is_buddy_def is_free_def set_buddy_def set_free_def
  clear_buddy_def clear_free_def

end
