(* ===== verification/Buddy_Alloc.thy ===== *)
theory Buddy_Alloc
  imports Raw_Page Address
begin

unbundle bit_operations_syntax

text \<open>
  The buddy allocator of the crate \<open>buddy_allocator\<close> (\<open>free_area.rs\<close>, \<open>zone.rs\<close>, \<open>lib.rs\<close>), over
  the page descriptors and the link store of \<open>Raw_Page\<close>. \<open>free_areas\<close> is an array of
  \<open>MAX_ORDER + 1\<close> lists, \<open>AreaHead 0\<close> to \<open>AreaHead 10\<close>.

  Frame numbers stay far below \<open>2 ^ 64\<close>, so the additions on them are plain additions.
\<close>

section \<open>Operations\<close>

definition MAX_ORDER :: nat where "MAX_ORDER = 10"

definition ZONE_AREAS :: nat where "ZONE_AREAS = MAX_ORDER + 1"

subsection \<open>\<open>FreeArea\<close>\<close>

text \<open>\<open>Zone::new\<close>: every area has a list head that is linked to nothing and the count 0.\<close>

definition zone_new :: "(nat \<Rightarrow> raw_page) \<Rightarrow> phys" where
  "zone_new pages = \<lparr>ph_page = pages, ph_links = (\<lambda>_. link_new), ph_area_count = (\<lambda>_. 0)\<rparr>"

definition area_get_free_pages :: "'a phys_scheme \<Rightarrow> nat \<Rightarrow> ('a phys_scheme \<times> nat option) res" where
  "area_get_free_pages st k =
     (case link_next (ph_links st) (AreaHead k) of
        None \<Rightarrow> Inr (st, None)
      | Some pages_link \<Rightarrow>
          rassert (ph_area_count st k \<noteq> 0) (
          rbind (from_link pages_link) (\<lambda>pages_ptr.
            let st = st\<lparr>ph_area_count := (ph_area_count st)(k := ph_area_count st k - 1)\<rparr>;
                st = st\<lparr>ph_links := link_remove (ph_links st) pages_link\<rparr>
            in Inr (st, Some pages_ptr))))"

definition area_add_pages :: "'a phys_scheme \<Rightarrow> nat \<Rightarrow> nat \<Rightarrow> 'a phys_scheme" where
  "area_add_pages st k p =
     (let st = st\<lparr>ph_area_count := (ph_area_count st)(k := ph_area_count st k + 1)\<rparr>;
          st = set_free p st
      in st\<lparr>ph_links := link_insert (ph_links st) (AreaHead k) (get_link p)\<rparr>)"

definition area_del_pages :: "'a phys_scheme \<Rightarrow> nat \<Rightarrow> nat \<Rightarrow> 'a phys_scheme res" where
  "area_del_pages st k p =
     rassert (ph_area_count st k \<ge> 1 \<and> is_free st p) (
       let st = st\<lparr>ph_area_count := (ph_area_count st)(k := ph_area_count st k - 1)\<rparr>;
           st = clear_free p st
       in Inr (st\<lparr>ph_links := link_remove (ph_links st) (get_link p)\<rparr>))"

subsection \<open>\<open>Zone\<close>\<close>

definition buddy_pfn :: "nat \<Rightarrow> nat \<Rightarrow> nat" where
  "buddy_pfn pfn ord = pfn XOR push_bit ord 1"

definition combined_pfn :: "nat \<Rightarrow> nat \<Rightarrow> nat" where
  "combined_pfn pfn bpfn = pfn AND bpfn"

text \<open>The loop of \<open>Zone::expand\<close>, over the orders \<open>(target_order..order).rev()\<close>.\<close>

fun expand_loop :: "'a phys_scheme \<Rightarrow> nat \<Rightarrow> nat \<Rightarrow> nat list \<Rightarrow> 'a phys_scheme" where
  "expand_loop st pfn offset [] = st"
| "expand_loop st pfn offset (ord # ords) =
     (let offset = drop_bit 1 offset;
          split_pages_ptr = pfn + offset;
          st = set_order split_pages_ptr ord st;
          st = set_buddy split_pages_ptr st;
          st = area_add_pages st ord split_pages_ptr
      in expand_loop st pfn offset ords)"

definition zone_expand :: "'a phys_scheme \<Rightarrow> nat \<Rightarrow> nat \<Rightarrow> nat \<Rightarrow> 'a phys_scheme" where
  "zone_expand st p ord target_order =
     expand_loop st p (push_bit ord 1) (rev [target_order..<ord])"

text \<open>The loop of \<open>Zone::get_free_pages\<close>, over the orders \<open>order..AREAS\<close>.\<close>

fun get_free_pages_loop ::
  "'a phys_scheme \<Rightarrow> nat \<Rightarrow> nat list \<Rightarrow> ('a phys_scheme \<times> nat option) res" where
  "get_free_pages_loop st ord [] = Inr (st, None)"
| "get_free_pages_loop st ord (current_order # os) =
     rbind (area_get_free_pages st current_order) (\<lambda>(st, pages_ptr).
       case pages_ptr of
         None \<Rightarrow> get_free_pages_loop st ord os
       | Some p \<Rightarrow>
           let st = set_order p ord st;
               st = (if current_order > ord then zone_expand st p current_order ord else st)
           in rassert (is_present st p) (rassert (is_free st p) (Inr (st, Some p))))"

definition zone_get_free_pages :: "'a phys_scheme \<Rightarrow> nat \<Rightarrow> ('a phys_scheme \<times> nat option) res" where
  "zone_get_free_pages st ord = get_free_pages_loop st ord [ord..<ZONE_AREAS]"

definition buddy_check :: "'a phys_scheme \<Rightarrow> nat \<Rightarrow> nat \<Rightarrow> bool res" where
  "buddy_check st p ord =
     (if \<not> is_present st p then Inr False
      else if \<not> is_free st p then Inr False
      else if page_order st p \<noteq> ord then Inr False
      else rassert (page_refcount st p = 0) (Inr True))"

text \<open>The loop of \<open>Zone::free_pages\<close>; it returns the state, the page and the order at which
  the loop stops.\<close>

function free_pages_loop ::
  "'a phys_scheme \<Rightarrow> nat \<Rightarrow> nat \<Rightarrow> nat \<Rightarrow> ('a phys_scheme \<times> nat \<times> nat) res" where
  "free_pages_loop st pages_ptr pfn current_order =
     (if current_order < ZONE_AREAS - 1 then
        let bpfn = buddy_pfn pfn current_order;
            buddy_pages_ptr = bpfn
        in rbind (buddy_check st buddy_pages_ptr current_order) (\<lambda>ok.
             if \<not> ok then Inr (st, pages_ptr, current_order)
             else
               let st = clear_buddy pages_ptr st;
                   st = clear_buddy buddy_pages_ptr st
               in rbind (area_del_pages st current_order buddy_pages_ptr) (\<lambda>st.
                    let pages_ptr = combined_pfn pfn bpfn;
                        pfn = combined_pfn pfn bpfn;
                        st = set_buddy pages_ptr st
                    in free_pages_loop st pages_ptr pfn (current_order + 1)))
      else Inr (st, pages_ptr, current_order))"
  by pat_completeness auto
termination
  by (relation "measure (\<lambda>(st, p, pfn, c). ZONE_AREAS - c)") auto

declare free_pages_loop.simps [simp del]

definition zone_free_pages :: "'a phys_scheme \<Rightarrow> nat \<Rightarrow> 'a phys_scheme res" where
  "zone_free_pages st pages_ptr =
     rassert (page_refcount st pages_ptr = 0) (
     rassert (is_present st pages_ptr) (
     rassert (\<not> is_free st pages_ptr) (
     rbind (free_pages_loop st pages_ptr pages_ptr (page_order st pages_ptr))
       (\<lambda>(st, pages_ptr, current_order).
         let st = set_order pages_ptr current_order st
         in Inr (area_add_pages st current_order pages_ptr)))))"

text \<open>\<open>trailing_zeros\<close> of a \<open>usize\<close>: 64 for 0.\<close>

fun trailing_zeros_upto :: "nat \<Rightarrow> nat \<Rightarrow> nat" where
  "trailing_zeros_upto 0 n = 0"
| "trailing_zeros_upto (Suc w) n = (if odd n then 0 else Suc (trailing_zeros_upto w (n div 2)))"

definition trailing_zeros :: "usize \<Rightarrow> nat" where
  "trailing_zeros n = trailing_zeros_upto 64 n"

text \<open>The inner loop of \<open>create_pages\<close>: \<open>while start_pfn + (1 << order) > end_pfn { order -= 1 }\<close>.
  It stops at order 0 at the latest, since the outer loop has \<open>start_pfn < end_pfn\<close>.\<close>

fun fit_order :: "nat \<Rightarrow> nat \<Rightarrow> nat \<Rightarrow> nat" where
  "fit_order start_pfn end_pfn 0 = 0"
| "fit_order start_pfn end_pfn (Suc ord) =
     (if start_pfn + push_bit (Suc ord) 1 > end_pfn then fit_order start_pfn end_pfn ord
      else Suc ord)"

function create_pages_loop :: "'a phys_scheme \<Rightarrow> nat \<Rightarrow> nat \<Rightarrow> 'a phys_scheme" where
  "create_pages_loop st start_pfn end_pfn =
     (if start_pfn < end_pfn then
        let ord = min (trailing_zeros start_pfn) (ZONE_AREAS - 1);
            ord = fit_order start_pfn end_pfn ord;
            page_ptr = start_pfn;
            st = set_buddy page_ptr st;
            st = area_add_pages st ord page_ptr
        in create_pages_loop st (start_pfn + push_bit ord 1) end_pfn
      else st)"
  by pat_completeness auto
termination
  by (relation "measure (\<lambda>(st, s, e). e - s)") (auto intro: diff_less_mono2)

declare create_pages_loop.simps [simp del]

definition zone_create_pages :: "'a phys_scheme \<Rightarrow> usize \<Rightarrow> usize \<Rightarrow> 'a phys_scheme" where
  "zone_create_pages st start fin =
     create_pages_loop st (pfn_of_paddr (page_ceil start)) (pfn_of_paddr (page_floor fin))"

subsection \<open>\<open>BuddyAllocator\<close>\<close>

definition buddy_alloc_order :: "'a phys_scheme \<Rightarrow> nat \<Rightarrow> ('a phys_scheme \<times> nat option) res" where
  "buddy_alloc_order st ord =
     rbind (zone_get_free_pages st ord) (\<lambda>(st, pages_ptr).
       case pages_ptr of
         None \<Rightarrow> Inr (st, None)
       | Some p \<Rightarrow>
           let st = set_refcount p (uadd (page_refcount st p) 1) st;
               st = clear_free p st
           in Inr (st, Some p))"

definition buddy_dealloc :: "'a phys_scheme \<Rightarrow> nat \<Rightarrow> 'a phys_scheme res" where
  "buddy_dealloc st page_ptr = zone_free_pages st page_ptr"

definition buddy_has_management_over :: "'a phys_scheme \<Rightarrow> nat \<Rightarrow> bool" where
  "buddy_has_management_over st page_ptr \<longleftrightarrow> \<not> is_free st page_ptr \<and> is_buddy st page_ptr"

end
