(* ===== verification/Buddy_Correct.thy ===== *)
theory Buddy_Correct
  imports Buddy_Alloc
begin

unbundle bit_operations_syntax

text \<open>
  Correctness of the buddy allocator. \<open>zone_core\<close> and \<open>zone_inv\<close> are the invariant: free and
  allocated blocks are aligned, pairwise disjoint and together exactly the pages under
  management. The lemmas \<open>split_core\<close>, \<open>join_core\<close>, \<open>add_core\<close>, \<open>del_core\<close> and \<open>get_core\<close> are the
  effects of the single steps; the loops follow by induction.
\<close>

section \<open>The invariant\<close>

definition blk :: "nat \<times> nat \<Rightarrow> nat set" where
  "blk b = {fst b..<fst b + 2 ^ snd b}"

definition blocks_disjoint :: "(nat \<times> nat) set \<Rightarrow> bool" where
  "blocks_disjoint B \<longleftrightarrow> (\<forall>b\<in>B. \<forall>c\<in>B. b \<noteq> c \<longrightarrow> blk b \<inter> blk c = {})"

text \<open>\<open>G\<close> gives the pages behind each list head; the free blocks are those behind the areas.\<close>

definition fblocks :: "(node \<Rightarrow> nat list) \<Rightarrow> (nat \<times> nat) set" where
  "fblocks G = {(p, k). k \<le> MAX_ORDER \<and> p \<in> set (G (AreaHead k))}"

definition is_area :: "node \<Rightarrow> bool" where
  "is_area hn \<longleftrightarrow> (\<exists>k\<le>MAX_ORDER. hn = AreaHead k)"

text \<open>
  \<open>zone_core st H G A M X\<close>: the store represents the lists \<open>G\<close> behind the heads \<open>H\<close>; the free
  blocks of \<open>G\<close> and the blocks \<open>A\<close> handed out are aligned, pairwise disjoint and cover exactly
  the pages \<open>M\<close>, all of them present; the \<open>FREE\<close> flag marks the first pages of free blocks, and
  of the blocks \<open>X\<close> that are just being taken; only the first pages of blocks of \<open>A\<close> can have
  a non-zero reference count; lists of other allocators hold pages of \<open>A\<close>.
  Descriptors of blocks made by \<open>create_pages\<close> keep order 0 until they are taken.
\<close>

definition zone_core ::
  "'a phys_scheme \<Rightarrow> node set \<Rightarrow> (node \<Rightarrow> nat list) \<Rightarrow> (nat \<times> nat) set \<Rightarrow> nat set \<Rightarrow> nat set \<Rightarrow> bool"
where
  "zone_core st H G A M X \<longleftrightarrow>
     list_family is_list (ph_links st) H (\<lambda>hn. map PageNode (G hn)) \<and>
     (\<forall>k\<le>MAX_ORDER. AreaHead k \<in> H \<and> ph_area_count st k = length (G (AreaHead k))) \<and>
     (\<forall>p. PageNode p \<notin> H) \<and>
     (\<forall>p k. (p, k) \<in> fblocks G \<longrightarrow>
        is_free st p \<and> is_buddy st p \<and> (page_order st p = k \<or> page_order st p = 0)) \<and>
     (\<forall>p\<in>M. (\<forall>k. (p, k) \<notin> A) \<longrightarrow> page_refcount st p = 0) \<and>
     (\<forall>p k. (p, k) \<in> fblocks G \<union> A \<longrightarrow> 2 ^ k dvd p) \<and>
     (\<forall>p. is_free st p \<longrightarrow> p \<in> X \<or> (\<exists>k. (p, k) \<in> fblocks G)) \<and>
     fblocks G \<inter> A = {} \<and> blocks_disjoint (fblocks G \<union> A) \<and>
     (\<forall>hn\<in>H. \<not> is_area hn \<longrightarrow> set (G hn) \<subseteq> fst ` A) \<and>
     \<Union> (blk ` (fblocks G \<union> A)) = M \<and> (\<forall>p\<in>M. is_present st p)"

text \<open>Between operations no block is being taken, and the descriptor of an allocated block
  holds its order.\<close>

definition zone_inv ::
  "'a phys_scheme \<Rightarrow> node set \<Rightarrow> (node \<Rightarrow> nat list) \<Rightarrow> (nat \<times> nat) set \<Rightarrow> nat set \<Rightarrow> bool"
where
  "zone_inv st H G A M \<longleftrightarrow> zone_core st H G A M {} \<and>
     (\<forall>p k. (p, k) \<in> A \<longrightarrow> page_order st p = k \<and> is_buddy st p \<and> k \<le> MAX_ORDER)"

lemma blk_mem [simp]: "p \<in> blk (p, k)"
  by (simp add: blk_def)

lemma blocks_disjointD:
  "blocks_disjoint B \<Longrightarrow> (p, k) \<in> B \<Longrightarrow> (q, j) \<in> B \<Longrightarrow> x \<in> blk (p, k) \<Longrightarrow> x \<in> blk (q, j) \<Longrightarrow>
   p = q \<and> k = j"
  unfolding blocks_disjoint_def by blast

lemma blk_split: "blk (p, Suc k) = blk (p, k) \<union> blk (p + 2 ^ k, k)"
  by (auto simp: blk_def)

lemma blk_halves_disjoint: "blk (p, k) \<inter> blk (p + 2 ^ k, k) = {}"
  by (auto simp: blk_def)

lemma zone_coreD:
  assumes "zone_core st H G A M X"
  shows zc_family: "list_family is_list (ph_links st) H (\<lambda>hn. map PageNode (G hn))"
    and zc_area: "k \<le> MAX_ORDER \<Longrightarrow> AreaHead k \<in> H"
    and zc_count: "k \<le> MAX_ORDER \<Longrightarrow> ph_area_count st k = length (G (AreaHead k))"
    and zc_head: "PageNode p \<notin> H"
    and zc_free: "(p, k) \<in> fblocks G \<Longrightarrow> is_free st p"
    and zc_buddy: "(p, k) \<in> fblocks G \<Longrightarrow> is_buddy st p"
    and zc_refcount: "p \<in> M \<Longrightarrow> (\<And>k. (p, k) \<notin> A) \<Longrightarrow> page_refcount st p = 0"
    and zc_order: "(p, k) \<in> fblocks G \<Longrightarrow> page_order st p = k \<or> page_order st p = 0"
    and zc_is_free: "is_free st p \<Longrightarrow> p \<in> X \<or> (\<exists>k. (p, k) \<in> fblocks G)"
    and zc_inter: "fblocks G \<inter> A = {}"
    and zc_disjoint: "blocks_disjoint (fblocks G \<union> A)"
    and zc_other: "hn \<in> H \<Longrightarrow> \<not> is_area hn \<Longrightarrow> set (G hn) \<subseteq> fst ` A"
    and zc_cover: "\<Union> (blk ` (fblocks G \<union> A)) = M"
    and zc_present: "p \<in> M \<Longrightarrow> is_present st p"
  using assms by (simp_all add: zone_core_def)

lemma zc_dvd: "zone_core st H G A M X \<Longrightarrow> (p, k) \<in> fblocks G \<union> A \<Longrightarrow> 2 ^ k dvd p"
  by (simp only: zone_core_def)

lemma zone_coreI:
  assumes "list_family is_list (ph_links st) H (\<lambda>hn. map PageNode (G hn))"
    and "\<And>k. k \<le> MAX_ORDER \<Longrightarrow> AreaHead k \<in> H \<and> ph_area_count st k = length (G (AreaHead k))"
    and "\<And>p. PageNode p \<notin> H"
    and "\<And>p k. (p, k) \<in> fblocks G \<Longrightarrow>
      is_free st p \<and> is_buddy st p \<and> (page_order st p = k \<or> page_order st p = 0)"
    and "\<And>p. p \<in> M \<Longrightarrow> (\<And>k. (p, k) \<notin> A) \<Longrightarrow> page_refcount st p = 0"
    and "\<And>p k. (p, k) \<in> fblocks G \<union> A \<Longrightarrow> 2 ^ k dvd p"
    and "\<And>p. is_free st p \<Longrightarrow> p \<in> X \<or> (\<exists>k. (p, k) \<in> fblocks G)"
    and "fblocks G \<inter> A = {}" and "blocks_disjoint (fblocks G \<union> A)"
    and "\<And>hn. hn \<in> H \<Longrightarrow> \<not> is_area hn \<Longrightarrow> set (G hn) \<subseteq> fst ` A"
    and "\<Union> (blk ` (fblocks G \<union> A)) = M" and "\<And>p. p \<in> M \<Longrightarrow> is_present st p"
  shows "zone_core st H G A M X"
  using assms by (simp add: zone_core_def)

lemma zone_core_cong:
  assumes core: "zone_core st H G A M X"
    and "ph_links st' = ph_links st" and "ph_area_count st' = ph_area_count st"
    and "\<And>p. is_free st' p = is_free st p" and "\<And>p. is_present st' p = is_present st p"
    and "\<And>p. (\<And>k. (p, k) \<notin> A) \<Longrightarrow> page_refcount st' p = page_refcount st p"
    and "\<And>p k. (p, k) \<in> fblocks G \<Longrightarrow> page_order st' p = page_order st p"
    and "\<And>p k. (p, k) \<in> fblocks G \<Longrightarrow> is_buddy st p \<Longrightarrow> is_buddy st' p"
  shows "zone_core st' H G A M X"
proof (rule zone_coreI)
  show "2 ^ k dvd p" if "(p, k) \<in> fblocks G \<union> A" for p k
    using zc_dvd [OF core that] .
qed (use zone_coreD [OF core] in \<open>simp_all add: assms\<close>)

lemma zone_core_change_alloc:
  assumes core: "zone_core st H G A M X"
    and "\<And>p k. (p, k) \<in> A' \<Longrightarrow> 2 ^ k dvd p"
    and "\<And>p. p \<in> M \<Longrightarrow> (\<And>k. (p, k) \<notin> A') \<Longrightarrow> page_refcount st p = 0"
    and "fblocks G \<inter> A' = {}" and "blocks_disjoint (fblocks G \<union> A')"
    and "\<And>hn. hn \<in> H \<Longrightarrow> \<not> is_area hn \<Longrightarrow> set (G hn) \<subseteq> fst ` A'"
    and "\<Union> (blk ` A') = \<Union> (blk ` A)"
  shows "zone_core st H G A' M X"
proof -
  have "\<Union> (blk ` (fblocks G \<union> A')) = M"
    using zc_cover [OF core] assms(7) by (simp add: image_Un)
  moreover have "(p, k) \<in> fblocks G \<union> A' \<longrightarrow> 2 ^ k dvd p" for p k
    using zc_dvd [OF core, of p k] assms(2) by blast
  ultimately show ?thesis using core assms(3-6) unfolding zone_core_def by simp
qed

lemma zone_core_alloc_not_fblock:
  assumes "zone_core st H G A M X" and "(p, k) \<in> A"
  shows "(p, j) \<notin> fblocks G"
proof
  assume "(p, j) \<in> fblocks G"
  with assms(2) zc_disjoint [OF assms(1)] have "k = j"
    using blocks_disjointD [of "fblocks G \<union> A" p k p j p] by simp
  with \<open>(p, j) \<in> fblocks G\<close> assms(2) zc_inter [OF assms(1)] show False by blast
qed

lemma zone_core_not_in_lists:
  assumes core: "zone_core st H G A M X" and pk: "(p, k) \<in> A"
    and q: "q \<in> blk (p, k)" "q \<noteq> p" and hn: "hn \<in> H"
  shows "q \<notin> set (G hn)"
proof
  assume mem: "q \<in> set (G hn)"
  obtain j where "(q, j) \<in> fblocks G \<union> A"
  proof (cases "is_area hn")
    case True
    with mem that show ?thesis by (auto simp: is_area_def fblocks_def)
  next
    case False
    with zc_other [OF core hn] mem that show ?thesis by force
  qed
  with pk q(1) have "q = p"
    using blocks_disjointD [OF zc_disjoint [OF core], of q j p k q] by simp
  with q(2) show False by simp
qed

lemma fblocks_insert:
  "k \<le> MAX_ORDER \<Longrightarrow> fblocks (G(AreaHead k := p # G (AreaHead k))) = insert (p, k) (fblocks G)"
  by (auto simp: fblocks_def)

lemma fblocks_delete:
  "k \<le> MAX_ORDER \<Longrightarrow> distinct (G (AreaHead k)) \<Longrightarrow>
   fblocks (G(AreaHead k := remove1 p (G (AreaHead k)))) = fblocks G - {(p, k)}"
  by (auto simp: fblocks_def)

lemma zone_core_distinct:
  assumes "zone_core st H G A M X" and "k \<le> MAX_ORDER"
  shows "distinct (G (AreaHead k))"
  using il.family_distinct [OF zc_family [OF assms(1)] zc_area [OF assms]]
  by (simp add: distinct_map)

lemma blocks_disjoint_split:
  assumes disj: "blocks_disjoint (insert (p, Suc k) B)" and new: "(p, Suc k) \<notin> B"
  shows "blocks_disjoint (insert (p, k) (insert (p + 2 ^ k, k) B))"
    and "(p, k) \<notin> B" and "(p + 2 ^ k, k) \<notin> B"
proof -
  have sub: "blk (p, k) \<subseteq> blk (p, Suc k)" "blk (p + 2 ^ k, k) \<subseteq> blk (p, Suc k)"
    by (auto simp: blk_split)
  have other: "blk b \<inter> blk (p, Suc k) = {}" if "b \<in> B" for b
    using disj new that unfolding blocks_disjoint_def by (metis insertCI)
  have o1: "blk b \<inter> blk (p, k) = {}" "blk b \<inter> blk (p + 2 ^ k, k) = {}" if "b \<in> B" for b
    using other [OF that] sub by blast+
  have bb: "blk b \<inter> blk c = {}" if "b \<in> B" "c \<in> B" "b \<noteq> c" for b c
    using disj that unfolding blocks_disjoint_def by (metis insertCI)
  show "blocks_disjoint (insert (p, k) (insert (p + 2 ^ k, k) B))"
    unfolding blocks_disjoint_def
    using o1 bb blk_halves_disjoint [of p k] by (simp add: ball_simps Int_commute)
  show "(p, k) \<notin> B" "(p + 2 ^ k, k) \<notin> B" using o1 by (fastforce simp: blk_def)+
qed

lemma split_core:
  assumes core: "zone_core st H G (insert (p, Suc k) A) M X" and new: "(p, Suc k) \<notin> A"
  shows "zone_core st H G (insert (p, k) (insert (p + 2 ^ k, k) A)) M X"
    and "(p, k) \<notin> insert (p + 2 ^ k, k) A" and "(p + 2 ^ k, k) \<notin> A"
proof -
  have new': "(p, Suc k) \<notin> fblocks G \<union> A" using new zc_inter [OF core] by blast
  have disj: "blocks_disjoint (insert (p, Suc k) (fblocks G \<union> A))"
    using zc_disjoint [OF core] by simp
  note sp = blocks_disjoint_split [OF disj new']
  show "(p, k) \<notin> insert (p + 2 ^ k, k) A" "(p + 2 ^ k, k) \<notin> A" using sp by auto
  have "2 ^ Suc k dvd p" using zc_dvd [OF core, of p "Suc k"] by simp
  then have dvd: "2 ^ k dvd p" by (metis dvd_mult_left power_Suc mult.commute)
  show "zone_core st H G (insert (p, k) (insert (p + 2 ^ k, k) A)) M X"
  proof (rule zone_core_change_alloc [OF core])
    show "2 ^ j dvd q" if "(q, j) \<in> insert (p, k) (insert (p + 2 ^ k, k) A)" for q j
      using that dvd zc_dvd [OF core, of q j] by auto
    show "page_refcount st q = 0"
      if "q \<in> M" "\<And>j. (q, j) \<notin> insert (p, k) (insert (p + 2 ^ k, k) A)" for q
    proof (rule zc_refcount [OF core that(1)])
      show "(q, j) \<notin> insert (p, Suc k) A" for j using that(2) by (metis insert_iff prod.inject)
    qed
    show "fblocks G \<inter> insert (p, k) (insert (p + 2 ^ k, k) A) = {}"
      using sp zc_inter [OF core] by blast
    show "blocks_disjoint (fblocks G \<union> insert (p, k) (insert (p + 2 ^ k, k) A))"
      using sp(1) by simp
    show "set (G hn) \<subseteq> fst ` insert (p, k) (insert (p + 2 ^ k, k) A)"
      if "hn \<in> H" "\<not> is_area hn" for hn
      using zc_other [OF core that] by auto
    show "\<Union> (blk ` insert (p, k) (insert (p + 2 ^ k, k) A)) = \<Union> (blk ` insert (p, Suc k) A)"
      by (auto simp: blk_split)
  qed
qed


lemma join_core:
  assumes core: "zone_core st H G (insert (p, k) (insert (p + 2 ^ k, k) A)) M X"
    and new: "(p, k) \<notin> A" "(p + 2 ^ k, k) \<notin> A" and dvd: "2 ^ Suc k dvd p"
    and ref: "page_refcount st (p + 2 ^ k) = 0"
    and lists: "\<And>hn. hn \<in> H \<Longrightarrow> \<not> is_area hn \<Longrightarrow> p + 2 ^ k \<notin> set (G hn)"
  shows "zone_core st H G (insert (p, Suc k) A) M X" and "(p, Suc k) \<notin> A"
proof -
  let ?B = "fblocks G \<union> A"
  have disj: "blocks_disjoint (insert (p, k) (insert (p + 2 ^ k, k) ?B))"
    using zc_disjoint [OF core] by simp
  have notB: "(p, k) \<notin> ?B" "(p + 2 ^ k, k) \<notin> ?B"
    using new zc_inter [OF core] by auto
  have other: "blk b \<inter> blk (p, Suc k) = {}" if "b \<in> ?B" for b
  proof -
    have "b \<noteq> (p, k)" "b \<noteq> (p + 2 ^ k, k)" using that notB by auto
    with disj that have "blk b \<inter> blk (p, k) = {}" "blk b \<inter> blk (p + 2 ^ k, k) = {}"
      unfolding blocks_disjoint_def by (metis insertCI)+
    then show ?thesis by (auto simp: blk_split)
  qed
  have pS: "(p, Suc k) \<notin> ?B" using other [of "(p, Suc k)"] by (auto simp: blk_def)
  then show "(p, Suc k) \<notin> A" by blast
  have bb: "blk b \<inter> blk c = {}" if "b \<in> ?B" "c \<in> ?B" "b \<noteq> c" for b c
    using disj that unfolding blocks_disjoint_def by (metis insertCI)
  show "zone_core st H G (insert (p, Suc k) A) M X"
  proof (rule zone_core_change_alloc [OF core])
    show "2 ^ j dvd q" if "(q, j) \<in> insert (p, Suc k) A" for q j
      using that dvd zc_dvd [OF core, of q j] by auto
    show "page_refcount st q = 0" if "q \<in> M" "\<And>j. (q, j) \<notin> insert (p, Suc k) A" for q
    proof (cases "q = p + 2 ^ k")
      case True
      with ref show ?thesis by simp
    next
      case False
      show ?thesis
        by (rule zc_refcount [OF core that(1)]) (use that(2) False in auto)
    qed
    show "fblocks G \<inter> insert (p, Suc k) A = {}" using pS zc_inter [OF core] by blast
    show "blocks_disjoint (fblocks G \<union> insert (p, Suc k) A)"
      unfolding blocks_disjoint_def using other bb by (auto simp: Int_commute)
    show "set (G hn) \<subseteq> fst ` insert (p, Suc k) A" if "hn \<in> H" "\<not> is_area hn" for hn
      using zc_other [OF core that] lists [OF that] by fastforce
    show "\<Union> (blk ` insert (p, Suc k) A) = \<Union> (blk ` insert (p, k) (insert (p + 2 ^ k, k) A))"
      by (auto simp: blk_split)
  qed
qed


section \<open>Single steps\<close>

lemma is_free_area_add [simp]:
  "is_free (area_add_pages st k p) q \<longleftrightarrow> q = p \<or> is_free st q"
  "is_buddy (area_add_pages st k p) q = is_buddy st q"
  by (simp_all add: area_add_pages_def Let_def flag_ops)

lemma area_add_frame [simp]:
  "is_present (area_add_pages st k p) q = is_present st q"
  "page_order (area_add_pages st k p) q = page_order st q"
  "page_refcount (area_add_pages st k p) q = page_refcount st q"
  by (simp_all add: area_add_pages_def Let_def flag_ops)

lemma flag_ops_frame [simp]:
  "is_buddy (set_order p k st) q = is_buddy st q" "is_buddy (set_refcount p c st) q = is_buddy st q"
  "is_buddy (set_buddy p st) q \<longleftrightarrow> q = p \<or> is_buddy st q"
  "is_buddy (clear_buddy p st) q \<longleftrightarrow> q \<noteq> p \<and> is_buddy st q"
  "is_buddy (clear_free p st) q = is_buddy st q"
  "is_free (set_order p k st) q = is_free st q" "is_present (set_order p k st) q = is_present st q"
  "is_free (set_buddy p st) q = is_free st q" "is_present (set_buddy p st) q = is_present st q"
  "is_free (clear_buddy p st) q = is_free st q" "is_present (clear_buddy p st) q = is_present st q"
  "is_free (set_refcount p c st) q = is_free st q"
  "is_present (set_refcount p c st) q = is_present st q"
  "page_order (set_buddy p st) q = page_order st q" "page_order (clear_buddy p st) q = page_order st q"
  "page_refcount (set_buddy p st) q = page_refcount st q"
  "page_refcount (clear_buddy p st) q = page_refcount st q"
  "ph_links (set_buddy p st) = ph_links st" "ph_links (clear_buddy p st) = ph_links st"
  "ph_area_count (set_buddy p st) = ph_area_count st"
  "ph_area_count (clear_buddy p st) = ph_area_count st"
  "is_free (clear_free p st) q \<longleftrightarrow> q \<noteq> p \<and> is_free st q"
  "is_present (clear_free p st) q = is_present st q"
  "page_order (clear_free p st) q = page_order st q"
  "page_refcount (clear_free p st) q = page_refcount st q"
  "ph_links (clear_free p st) = ph_links st" "ph_area_count (clear_free p st) = ph_area_count st"
  by (auto simp: flag_ops)

lemma zone_core_fblock_not_in_other:
  assumes core: "zone_core st H G A M X" and b: "(b, k) \<in> fblocks G"
    and hn: "hn \<in> H" "\<not> is_area hn"
  shows "b \<notin> set (G hn)"
proof
  assume "b \<in> set (G hn)"
  with zc_other [OF core hn] obtain j where "(b, j) \<in> A" by force
  with zone_core_alloc_not_fblock [OF core] b show False by blast
qed

lemma family_map_upd:
  "(\<lambda>hn. map PageNode (G hn))(h0 := map PageNode xs) = (\<lambda>hn. map PageNode ((G(h0 := xs)) hn))"
  by auto

lemma zone_core_insert_links:
  assumes core: "zone_core st H G (insert (p, k) A) M X" and k: "k \<le> MAX_ORDER"
    and lists: "\<And>hn. hn \<in> H \<Longrightarrow> \<not> is_area hn \<Longrightarrow> p \<notin> set (G hn)"
  shows "list_family is_list (link_insert (ph_links st) (AreaHead k) (PageNode p)) H
    (\<lambda>hn. map PageNode ((G(AreaHead k := p # G (AreaHead k))) hn))"
proof -
  have "p \<notin> set (G hn)" if "hn \<in> H" for hn
    using lists [OF that] zone_core_alloc_not_fblock [OF core, of p k]
    by (cases "is_area hn") (auto simp: is_area_def fblocks_def)
  then have "list_family is_list (link_insert (ph_links st) (AreaHead k) (PageNode p)) H
    ((\<lambda>hn. map PageNode (G hn))(AreaHead k := PageNode p # map PageNode (G (AreaHead k))))"
    by (intro il.family_insert [OF zc_family [OF core] zc_area [OF core k] zc_head [OF core]]) auto
  then show ?thesis using family_map_upd [of G "AreaHead k" "p # G (AreaHead k)"] by simp
qed

lemma zone_core_remove_links:
  assumes core: "zone_core st H G A M X" and b: "(b, k) \<in> fblocks G"
  shows "list_family is_list (link_remove (ph_links st) (PageNode b)) H
    (\<lambda>hn. map PageNode ((G(AreaHead k := remove1 b (G (AreaHead k)))) hn))"
proof -
  have k: "k \<le> MAX_ORDER" and mem: "b \<in> set (G (AreaHead k))" using b by (auto simp: fblocks_def)
  have inj: "remove1 (PageNode b) (map PageNode xs) = map PageNode (remove1 b xs)" for xs
    by (induction xs) auto
  have "list_family is_list (link_remove (ph_links st) (PageNode b)) H
    ((\<lambda>hn. map PageNode (G hn))(AreaHead k := map PageNode (remove1 b (G (AreaHead k)))))"
    using il.family_remove [OF zc_family [OF core] zc_area [OF core k], of "PageNode b"] mem
    by (simp add: inj)
  then show ?thesis by (simp only: family_map_upd)
qed

lemma add_core:
  assumes core: "zone_core st H G (insert (p, k) A) M X" and new: "(p, k) \<notin> A"
    and k: "k \<le> MAX_ORDER" and ref: "page_refcount st p = 0"
    and ord: "page_order st p = k \<or> page_order st p = 0" and mark: "is_buddy st p"
    and lists: "\<And>hn. hn \<in> H \<Longrightarrow> \<not> is_area hn \<Longrightarrow> p \<notin> set (G hn)"
  shows "zone_core (area_add_pages st k p) H (G(AreaHead k := p # G (AreaHead k))) A M X"
proof -
  let ?G = "G(AreaHead k := p # G (AreaHead k))"
  have fb: "fblocks ?G = insert (p, k) (fblocks G)" by (rule fblocks_insert [OF k])
  have un: "fblocks ?G \<union> A = fblocks G \<union> insert (p, k) A" using fb by auto
  show ?thesis
  proof (rule zone_coreI)
    show "list_family is_list (ph_links (area_add_pages st k p)) H (\<lambda>hn. map PageNode (?G hn))"
      using zone_core_insert_links [OF core k lists]
      by (simp add: area_add_pages_def Let_def set_free_def get_link_def)
    show "AreaHead j \<in> H \<and> ph_area_count (area_add_pages st k p) j = length (?G (AreaHead j))"
      if "j \<le> MAX_ORDER" for j
      using zc_area [OF core that] zc_count [OF core that] zc_count [OF core k]
      by (auto simp: area_add_pages_def Let_def set_free_def)
    show "PageNode q \<notin> H" for q by (rule zc_head [OF core])
    show "is_free (area_add_pages st k p) q \<and> is_buddy (area_add_pages st k p) q \<and>
      (page_order (area_add_pages st k p) q = j \<or> page_order (area_add_pages st k p) q = 0)"
      if "(q, j) \<in> fblocks ?G" for q j
      using that ord mark zc_free [OF core, of q j] zc_buddy [OF core, of q j] zc_order [OF core, of q j]
      by (auto simp: fb)
    show "page_refcount (area_add_pages st k p) q = 0" if "q \<in> M" "\<And>j. (q, j) \<notin> A" for q
      using zc_refcount [OF core that(1)] that(2) ref by (cases "q = p") auto
    show "2 ^ j dvd q" if "(q, j) \<in> fblocks ?G \<union> A" for q j
      using zc_dvd [OF core, of q j] that un by simp
    show "q \<in> X \<or> (\<exists>j. (q, j) \<in> fblocks ?G)" if "is_free (area_add_pages st k p) q" for q
      using that zc_is_free [OF core, of q] by (auto simp: fb)
    show "fblocks ?G \<inter> A = {}" using zc_inter [OF core] new fb by auto
    show "blocks_disjoint (fblocks ?G \<union> A)" using zc_disjoint [OF core] un by simp
    show "set (?G hn) \<subseteq> fst ` A" if "hn \<in> H" "\<not> is_area hn" for hn
    proof -
      have "hn \<noteq> AreaHead k" using that(2) k by (auto simp: is_area_def)
      then show ?thesis using zc_other [OF core that] lists [OF that] by auto
    qed
    show "\<Union> (blk ` (fblocks ?G \<union> A)) = M" using zc_cover [OF core] un by simp
    show "is_present (area_add_pages st k p) q" if "q \<in> M" for q
      using zc_present [OF core that] by simp
  qed
qed


lemma take_core:
  assumes core: "zone_core st H G A M X" and b: "(b, k) \<in> fblocks G"
    and links: "ph_links st' = link_remove (ph_links st) (PageNode b)"
    and cnt: "ph_area_count st' = (ph_area_count st)(k := ph_area_count st k - 1)"
    and pres: "\<And>q. is_present st' q = is_present st q"
    and ords: "\<And>q. page_order st' q = page_order st q"
    and refs: "\<And>q. page_refcount st' q = page_refcount st q"
    and free: "\<And>q. q \<noteq> b \<Longrightarrow> is_free st' q = is_free st q"
    and marks: "\<And>q j. (q, j) \<in> fblocks G \<Longrightarrow> q \<noteq> b \<Longrightarrow> is_buddy st' q = is_buddy st q"
    and X: "X \<subseteq> X'" "is_free st' b \<Longrightarrow> b \<in> X'"
  shows "zone_core st' H (G(AreaHead k := remove1 b (G (AreaHead k)))) (insert (b, k) A) M X'"
proof -
  let ?G = "G(AreaHead k := remove1 b (G (AreaHead k)))"
  have k: "k \<le> MAX_ORDER" and mem: "b \<in> set (G (AreaHead k))" using b by (auto simp: fblocks_def)
  have fb: "fblocks ?G = fblocks G - {(b, k)}"
    using fblocks_delete [of k G b] k zone_core_distinct [OF core k] by simp
  have un: "fblocks ?G \<union> insert (b, k) A = fblocks G \<union> A" using fb b by auto
  have uniq: "q \<noteq> b" if "(q, j) \<in> fblocks ?G" for q j
    using that fb b blocks_disjointD [OF zc_disjoint [OF core], of q j b k q] by auto
  show ?thesis
  proof (rule zone_coreI)
    show "list_family is_list (ph_links st') H (\<lambda>hn. map PageNode (?G hn))"
      using zone_core_remove_links [OF core b] links by simp
    show "AreaHead j \<in> H \<and> ph_area_count st' j = length (?G (AreaHead j))" if "j \<le> MAX_ORDER" for j
      using zc_area [OF core that] zc_count [OF core that] zc_count [OF core k] mem cnt
      by (auto simp: length_remove1)
    show "PageNode q \<notin> H" for q by (rule zc_head [OF core])
    show "is_free st' q \<and> is_buddy st' q \<and> (page_order st' q = j \<or> page_order st' q = 0)"
      if "(q, j) \<in> fblocks ?G" for q j
    proof -
      have q: "(q, j) \<in> fblocks G" "q \<noteq> b" using that fb uniq [OF that] by auto
      show ?thesis
        using free [OF q(2)] marks [OF q] ords zc_free [OF core q(1)] zc_buddy [OF core q(1)]
          zc_order [OF core q(1)] by simp
    qed
    show "page_refcount st' q = 0" if "q \<in> M" "\<And>j. (q, j) \<notin> insert (b, k) A" for q
      using zc_refcount [OF core that(1)] that(2) refs by auto
    show "2 ^ j dvd q" if "(q, j) \<in> fblocks ?G \<union> insert (b, k) A" for q j
      using that zc_dvd [OF core, of q j] unfolding un by simp
    show "q \<in> X' \<or> (\<exists>j. (q, j) \<in> fblocks ?G)" if "is_free st' q" for q
    proof (cases "q = b")
      case False
      then show ?thesis using that X(1) free [OF False] zc_is_free [OF core, of q] by (auto simp: fb)
    qed (use that X(2) in simp)
    show "fblocks ?G \<inter> insert (b, k) A = {}" using zc_inter [OF core] fb by auto
    show "blocks_disjoint (fblocks ?G \<union> insert (b, k) A)" using zc_disjoint [OF core] un by simp
    show "set (?G hn) \<subseteq> fst ` insert (b, k) A" if "hn \<in> H" "\<not> is_area hn" for hn
    proof -
      have "hn \<noteq> AreaHead k" using that(2) k by (auto simp: is_area_def)
      then show ?thesis using zc_other [OF core that] by auto
    qed
    show "\<Union> (blk ` (fblocks ?G \<union> insert (b, k) A)) = M" using zc_cover [OF core] un by simp
    show "is_present st' q" if "q \<in> M" for q using zc_present [OF core that] pres by simp
  qed
qed

lemma zone_core_fblock_count:
  assumes "zone_core st H G A M X" and "(b, k) \<in> fblocks G"
  shows "0 < ph_area_count st k"
  using zc_count [OF assms(1), of k] assms(2) by (auto simp: fblocks_def)

lemma del_core:
  assumes core: "zone_core st H G A M X" and b: "(b, k) \<in> fblocks G"
    and p: "\<And>j. (p, j) \<notin> fblocks G"
  obtains st' where "area_del_pages (clear_buddy b (clear_buddy p st)) k b = Inr st'"
    and "zone_core st' H (G(AreaHead k := remove1 b (G (AreaHead k)))) (insert (b, k) A) M X"
    and "\<And>q. page_order st' q = page_order st q" and "\<And>q. page_refcount st' q = page_refcount st q"
    and "\<And>q. q \<noteq> b \<Longrightarrow> q \<noteq> p \<Longrightarrow> is_buddy st' q = is_buddy st q"
proof -
  let ?cl = "clear_buddy b (clear_buddy p st)"
  let ?st = "(clear_free b (?cl\<lparr>ph_area_count := (ph_area_count st)(k := ph_area_count st k - 1)\<rparr>))
    \<lparr>ph_links := link_remove (ph_links st) (PageNode b)\<rparr>"
  have frees: "is_free ?st q \<longleftrightarrow> q \<noteq> b \<and> is_free st q" for q
    by (simp add: flag_ops)
  have marks: "is_buddy ?st q \<longleftrightarrow> q \<noteq> b \<and> q \<noteq> p \<and> is_buddy st q" for q
    by (auto simp: flag_ops)
  have "area_del_pages ?cl k b = Inr ?st"
    using zone_core_fblock_count [OF core b] zc_free [OF core b]
    by (simp add: area_del_pages_def Let_def get_link_def)
  moreover have "zone_core ?st H (G(AreaHead k := remove1 b (G (AreaHead k)))) (insert (b, k) A) M X"
  proof (rule take_core [OF core b])
    show "is_buddy ?st q = is_buddy st q" if "(q, j) \<in> fblocks G" "q \<noteq> b" for q j
      using p marks [of q] that by blast
  qed (simp_all add: frees, simp_all add: flag_ops)
  moreover have "is_buddy ?st q = is_buddy st q" if "q \<noteq> b" "q \<noteq> p" for q
    using marks [of q] that by blast
  ultimately show ?thesis by (intro that [of ?st]) (simp_all add: clear_free_def)
qed

lemma get_core_None:
  assumes core: "zone_core st H G A M X" and k: "k \<le> MAX_ORDER" and "G (AreaHead k) = []"
  shows "area_get_free_pages st k = Inr (st, None)"
  using il.family_nxt [OF zc_family [OF core] zc_area [OF core k]] assms(3)
  by (simp add: area_get_free_pages_def)

lemma get_core_Some:
  assumes core: "zone_core st H G A M X" and k: "k \<le> MAX_ORDER" and ne: "G (AreaHead k) = p # ps"
  obtains st' where "area_get_free_pages st k = Inr (st', Some p)"
    and "zone_core st' H (G(AreaHead k := ps)) (insert (p, k) A) M (insert p X)"
    and "ph_page st' = ph_page st"
proof -
  let ?st = "st\<lparr>ph_area_count := (ph_area_count st)(k := ph_area_count st k - 1),
    ph_links := link_remove (ph_links st) (PageNode p)\<rparr>"
  have b: "(p, k) \<in> fblocks G" using k ne by (simp add: fblocks_def)
  have nx: "link_next (ph_links st) (AreaHead k) = Some (PageNode p)"
    using il.family_nxt [OF zc_family [OF core] zc_area [OF core k]] ne by simp
  have "area_get_free_pages st k = Inr (?st, Some p)"
    using zone_core_fblock_count [OF core b] nx by (simp add: area_get_free_pages_def Let_def)
  moreover have "zone_core ?st H (G(AreaHead k := remove1 p (G (AreaHead k)))) (insert (p, k) A) M
      (insert p X)"
    by (rule take_core [OF core b]) (auto simp: flag_ops)
  ultimately show ?thesis using that [of ?st] ne by simp
qed

section \<open>Buddies\<close>

lemma nat_and_succ_even: "even m \<Longrightarrow> m AND Suc m = (m :: nat)"
  using even_bit_succ_iff [of m] by (intro bit_eqI) (auto simp: bit_simps)

lemma nat_xor_one: "even m \<Longrightarrow> m XOR 1 = Suc m" "even m \<Longrightarrow> Suc m XOR 1 = (m :: nat)"
  using xor_one_eq [of m] xor_one_eq [of "Suc m"] by simp_all

lemma buddy_shift:
  "buddy_pfn (m * 2 ^ k) k = (m XOR 1) * 2 ^ k"
  "combined_pfn (m * 2 ^ k) (n * 2 ^ k) = (m AND n) * 2 ^ k"
proof -
  have "push_bit k m XOR push_bit k 1 = push_bit k (m XOR 1)" by (simp only: push_bit_xor)
  then show "buddy_pfn (m * 2 ^ k) k = (m XOR 1) * 2 ^ k"
    by (simp only: buddy_pfn_def push_bit_eq_mult)
  have "push_bit k m AND push_bit k n = push_bit k (m AND n)" by (simp only: push_bit_and)
  then show "combined_pfn (m * 2 ^ k) (n * 2 ^ k) = (m AND n) * 2 ^ k"
    by (simp only: combined_pfn_def push_bit_eq_mult)
qed

text \<open>The two ways in which a block and its buddy make the block of the next order.\<close>

lemma buddy_cases:
  assumes "2 ^ k dvd p"
  obtains (lower) "buddy_pfn p k = p + 2 ^ k" "combined_pfn p (buddy_pfn p k) = p" "2 ^ Suc k dvd p"
  | (upper) b where "buddy_pfn p k = b" "p = b + 2 ^ k" "combined_pfn p (buddy_pfn p k) = b"
    "2 ^ Suc k dvd b"
proof -
  obtain m where m: "p = m * 2 ^ k" using assms by (metis dvd_def mult.commute)
  show ?thesis
  proof (cases "even m")
    case True
    then have dvd: "2 ^ Suc k dvd p" using m by (auto simp: mult_dvd_mono)
    have b: "buddy_pfn p k = Suc m * 2 ^ k" using m buddy_shift(1) [of m k] nat_xor_one(1) [OF True] by simp
    have "combined_pfn p (buddy_pfn p k) = p"
      unfolding b using m buddy_shift(2) [of m k "Suc m"] nat_and_succ_even [OF True] by simp
    with dvd b m show ?thesis by (intro lower) simp_all
  next
    case False
    then obtain n where n: "m = Suc n" "even n" by (cases m) auto
    then have dvd: "2 ^ Suc k dvd n * 2 ^ k" by (auto simp: mult_dvd_mono)
    have b: "buddy_pfn p k = n * 2 ^ k"
      using m n(1) buddy_shift(1) [of m k] nat_xor_one(2) [OF n(2)] by simp
    have "combined_pfn p (buddy_pfn p k) = n * 2 ^ k"
      unfolding b using m n(1) buddy_shift(2) [of m k n] nat_and_succ_even [OF n(2)]
      by (simp add: and.commute)
    with dvd b m n(1) show ?thesis by (intro upper [of "n * 2 ^ k"]) simp_all
  qed
qed

section \<open>Allocation\<close>

text \<open>What a step leaves alone: the lists that are not areas, every reference count, and the
  order of every block in \<open>A\<close>.\<close>

definition step_frame ::
  "'a phys_scheme \<Rightarrow> 'a phys_scheme \<Rightarrow> (node \<Rightarrow> nat list) \<Rightarrow> (node \<Rightarrow> nat list) \<Rightarrow> (nat \<times> nat) set \<Rightarrow> bool"
where
  "step_frame st st' G G' A \<longleftrightarrow>
     (\<forall>hn. \<not> is_area hn \<longrightarrow> G' hn = G hn) \<and>
     (\<forall>q. page_refcount st' q = page_refcount st q) \<and>
     (\<forall>q j. (q, j) \<in> A \<longrightarrow> page_order st' q = page_order st q \<and> (is_buddy st q \<longrightarrow> is_buddy st' q))"

lemma step_frame_trans:
  "step_frame st st1 G G1 A \<Longrightarrow> step_frame st1 st2 G1 G2 A \<Longrightarrow> step_frame st st2 G G2 A"
  unfolding step_frame_def by metis

lemma step_frame_mono: "step_frame st st' G G' B \<Longrightarrow> A \<subseteq> B \<Longrightarrow> step_frame st st' G G' A"
  unfolding step_frame_def by blast

lemma is_area_AreaHead [simp]: "k \<le> MAX_ORDER \<Longrightarrow> is_area (AreaHead k)"
  by (auto simp: is_area_def)

lemma zone_core_in_M: "zone_core st H G A M X \<Longrightarrow> b \<in> fblocks G \<union> A \<Longrightarrow> blk b \<subseteq> M"
  using zc_cover by blast

text \<open>One round of \<open>expand\<close>: the upper half of the block goes to its area.\<close>

lemma expand_step:
  assumes core: "zone_core st H G (insert (p, Suc k) A) M X" and new: "(p, Suc k) \<notin> A"
    and k: "k \<le> MAX_ORDER"
  defines "r \<equiv> p + 2 ^ k"
  defines "st' \<equiv> area_add_pages (set_buddy r (set_order r k st)) k r"
  defines "G' \<equiv> G(AreaHead k := r # G (AreaHead k))"
  shows "zone_core st' H G' (insert (p, k) A) M X" and "(p, k) \<notin> A"
    and "step_frame st st' G G' (insert (p, k) A)"
proof -
  note sp = split_core [OF core new]
  have rA: "(r, j) \<notin> insert (p, Suc k) A" for j
  proof
    assume a: "(r, j) \<in> insert (p, Suc k) A"
    have r: "r \<in> blk (p, Suc k)" "r \<noteq> p" by (simp_all add: blk_def r_def)
    have "r = p \<and> j = Suc k"
      by (rule blocks_disjointD [OF zc_disjoint [OF core] _ _ _ r(1)]) (use a in auto)
    with r(2) show False by simp
  qed
  have rF: "(r, j) \<notin> fblocks G" for j
    using zone_core_alloc_not_fblock [OF sp(1), of r k] by (simp add: r_def)
  have "r \<in> blk (p, Suc k)" by (simp add: blk_def r_def)
  then have rM: "r \<in> M" using zone_core_in_M [OF core, of "(p, Suc k)"] by blast
  have ref: "page_refcount st r = 0" using zc_refcount [OF core rM] rA by simp
  have c1: "zone_core (set_buddy r (set_order r k st)) H G (insert (r, k) (insert (p, k) A)) M X"
  proof (rule zone_core_cong)
    show "zone_core st H G (insert (r, k) (insert (p, k) A)) M X"
      using sp(1) by (simp add: r_def insert_commute)
    show "page_order (set_buddy r (set_order r k st)) q = page_order st q" if "(q, j) \<in> fblocks G" for q j
      using rF that by auto
  qed simp_all
  show "zone_core st' H G' (insert (p, k) A) M X" unfolding st'_def G'_def
  proof (rule add_core [OF c1 _ k])
    show "(r, k) \<notin> insert (p, k) A" using rA by (auto simp: r_def)
    show "r \<notin> set (G hn)" if "hn \<in> H" for hn
      by (rule zone_core_not_in_lists [OF core _ _ _ that, of p "Suc k"]) (auto simp: r_def blk_def)
  qed (use ref in simp_all)
  show "(p, k) \<notin> A" using sp by blast
  have ne: "q \<noteq> r" if "(q, j) \<in> insert (p, k) A" for q j
    using rA [of j] that by (auto simp: r_def)
  show "step_frame st st' G G' (insert (p, k) A)" unfolding step_frame_def
  proof (intro conjI allI impI)
    show "G' hn = G hn" if "\<not> is_area hn" for hn using that k by (auto simp: G'_def)
    show "page_order st' q = page_order st q" if "(q, j) \<in> insert (p, k) A" for q j
      using ne [OF that] by (simp add: st'_def)
  qed (simp_all add: st'_def)
qed

lemma expand_loop_is_free: "is_free st q \<Longrightarrow> is_free (expand_loop st p n ks) q"
  by (induction st p n ks rule: expand_loop.induct) (simp_all add: Let_def)

lemma zone_expand_is_free: "is_free st q \<Longrightarrow> is_free (zone_expand st p c k) q"
  by (simp add: zone_expand_def expand_loop_is_free)

lemma expand_core:
  assumes "zone_core st H G (insert (p, t + n) A) M X" and "(p, t + n) \<notin> A"
    and "t + n \<le> MAX_ORDER"
  shows "\<exists>G'. zone_core (zone_expand st p (t + n) t) H G' (insert (p, t) A) M X \<and> (p, t) \<notin> A \<and>
    step_frame st (zone_expand st p (t + n) t) G G' (insert (p, t) A)"
  using assms
proof (induction n arbitrary: st G)
  case 0
  then show ?case by (auto simp: zone_expand_def step_frame_def)
next
  case (Suc n)
  let ?r = "p + 2 ^ (t + n)"
  let ?st = "area_add_pages (set_buddy ?r (set_order ?r (t + n) st)) (t + n) ?r"
  have k: "t + n \<le> MAX_ORDER" using Suc.prems(3) by simp
  have ex: "zone_expand st p (t + Suc n) t = zone_expand ?st p (t + n) t"
    by (simp add: zone_expand_def push_bit_eq_mult drop_bit_eq_div Let_def)
  obtain G1 where c1: "zone_core ?st H G1 (insert (p, t + n) A) M X" "(p, t + n) \<notin> A"
    and f1: "step_frame st ?st G G1 (insert (p, t + n) A)"
    using expand_step [of st H G p "t + n" A M X] Suc.prems k by simp
  obtain G' where c2: "zone_core (zone_expand ?st p (t + n) t) H G' (insert (p, t) A) M X" "(p, t) \<notin> A"
    and f2: "step_frame ?st (zone_expand ?st p (t + n) t) G1 G' (insert (p, t) A)"
    using Suc.IH [OF c1 k] by blast
  have "step_frame st ?st G G1 (insert (p, t) A)"
    using f1 unfolding step_frame_def by (metis insert_iff prod.inject)
  from c2 step_frame_trans [OF this f2] show ?case unfolding ex by blast
qed


text \<open>The result of a round of \<open>get_free_pages\<close> that finds a block of order \<open>c\<close> and cuts it down.\<close>

lemma take_and_expand:
  assumes core: "zone_core st H G A M {}" and c: "c \<le> MAX_ORDER" "k \<le> c"
    and ne: "G (AreaHead c) = p # ps"
  obtains st' G' where
    "get_free_pages_loop st k (c # cs) = Inr (st', Some p)"
    "zone_core st' H G' (insert (p, k) A) M {p}" "(p, k) \<notin> A"
    "page_order st' p = k" "is_buddy st' p" "step_frame st st' G G' A"
proof -
  obtain st1 where get: "area_get_free_pages st c = Inr (st1, Some p)"
    and c1: "zone_core st1 H (G(AreaHead c := ps)) (insert (p, c) A) M {p}"
    and pg: "ph_page st1 = ph_page st"
    using get_core_Some [OF core c(1) ne] by metis
  have pF: "(p, c) \<in> fblocks G" using c ne by (simp add: fblocks_def)
  have pA: "(p, j) \<notin> A" for j using zone_core_alloc_not_fblock [OF core, of p j c] pF by blast
  let ?st2 = "set_order p k st1" and ?G1 = "G(AreaHead c := ps)"
  have c2: "zone_core ?st2 H ?G1 (insert (p, c) A) M {p}"
  proof (rule zone_core_cong [OF c1])
    fix q j
    assume "(q, j) \<in> fblocks ?G1"
    then have "q \<noteq> p" using zone_core_alloc_not_fblock [OF c1, of p c j] by auto
    then show "page_order ?st2 q = page_order st1 q" by simp
  qed simp_all
  have st1: "page_refcount st1 q = page_refcount st q" "page_order st1 q = page_order st q"
    "is_free st1 q = is_free st q" "is_buddy st1 q = is_buddy st q" for q
    using pg by (simp_all add: page_refcount_def page_order_def flag_ops page_has_def)
  have f2: "step_frame st ?st2 G ?G1 A" unfolding step_frame_def
  proof (intro conjI allI impI)
    show "?G1 hn = G hn" if "\<not> is_area hn" for hn using that c(1) by auto
    show "page_order ?st2 q = page_order st q" if "(q, j) \<in> A" for q j
    proof -
      have "q \<noteq> p" using that pA by auto
      then show ?thesis using st1 by simp
    qed
  qed (use st1 in simp_all)
  let ?st3 = "zone_expand ?st2 p c k"
  have kc: "k + (c - k) = c" using c by simp
  obtain G3 where c3: "zone_core ?st3 H G3 (insert (p, k) A) M {p}"
    and f3: "step_frame ?st2 ?st3 ?G1 G3 (insert (p, k) A)"
    using expand_core [of ?st2 H ?G1 p k "c - k" A M "{p}"] c2 pA c unfolding kc by blast
  have "p \<in> M" using zone_core_in_M [OF c3, of "(p, k)"] blk_mem by blast
  then have pres: "is_present ?st3 p" by (rule zc_present [OF c3])
  have "is_free ?st2 p" using st1(3) [of p] zc_free [OF core pF] by simp
  then have free: "is_free ?st3 p" by (rule zone_expand_is_free)
  have same: "?st3 = ?st2" if "c = k" using that by (simp add: zone_expand_def)
  have "get_free_pages_loop st k (c # cs) = Inr (?st3, Some p)"
    using get pres free same c(2) by (cases "c = k") (simp_all add: Let_def)
  moreover have "page_order ?st3 p = k" using f3 by (auto simp: step_frame_def)
  moreover have "is_buddy ?st3 p"
    using f3 st1(4) [of p] zc_buddy [OF core pF] by (auto simp: step_frame_def)
  moreover have "step_frame st ?st3 G G3 A"
    using step_frame_trans [OF f2 step_frame_mono [OF f3]] by blast
  ultimately show ?thesis using that c3 pA by blast
qed


lemma get_loop_None:
  assumes "zone_core st H G A M {}" and "\<And>c. c \<in> set cs \<Longrightarrow> c \<le> MAX_ORDER \<and> G (AreaHead c) = []"
  shows "get_free_pages_loop st k (cs @ ds) = get_free_pages_loop st k ds"
  using assms(2) get_core_None [OF assms(1)] by (induction cs) auto

lemma get_free_pages_None:
  assumes "zone_core st H G A M {}" and "\<And>c. k \<le> c \<Longrightarrow> c \<le> MAX_ORDER \<Longrightarrow> G (AreaHead c) = []"
  shows "zone_get_free_pages st k = Inr (st, None)"
proof -
  have "get_free_pages_loop st k ([k..<ZONE_AREAS] @ []) = get_free_pages_loop st k []"
    by (rule get_loop_None [OF assms(1)]) (use assms(2) in \<open>auto simp: ZONE_AREAS_def\<close>)
  then show ?thesis by (simp add: zone_get_free_pages_def)
qed

text \<open>The least order from \<open>k\<close> on whose list is not empty is the one that is cut.\<close>

lemma get_free_pages_Some:
  assumes core: "zone_core st H G A M {}" and c: "k \<le> c" "c \<le> MAX_ORDER" "G (AreaHead c) = p # ps"
    and least: "\<And>j. k \<le> j \<Longrightarrow> j < c \<Longrightarrow> G (AreaHead j) = []"
  obtains st' G' where "zone_get_free_pages st k = Inr (st', Some p)"
    "zone_core st' H G' (insert (p, k) A) M {p}" "(p, k) \<notin> A"
    "page_order st' p = k" "is_buddy st' p" "step_frame st st' G G' A"
proof -
  have sp: "[k..<ZONE_AREAS] = [k..<c] @ c # [Suc c..<ZONE_AREAS]"
    using c(1,2) upt_add_eq_append [of k c "ZONE_AREAS - c"] by (simp add: ZONE_AREAS_def upt_conv_Cons)
  have "zone_get_free_pages st k = get_free_pages_loop st k (c # [Suc c..<ZONE_AREAS])"
    unfolding zone_get_free_pages_def sp by (rule get_loop_None [OF core]) (use c least in auto)
  then show ?thesis
    using take_and_expand [OF core c(2,1,3), of "[Suc c..<ZONE_AREAS]"] that by metis
qed

lemma least_nonempty_area:
  assumes "k \<le> c" "c \<le> MAX_ORDER" "G (AreaHead c) \<noteq> []"
  obtains d p ps where "k \<le> d" "d \<le> MAX_ORDER" "G (AreaHead d) = p # ps"
    "\<And>j. k \<le> j \<Longrightarrow> j < d \<Longrightarrow> G (AreaHead j) = []"
proof -
  let ?P = "\<lambda>d. k \<le> d \<and> G (AreaHead d) \<noteq> []"
  have L: "?P (LEAST d. ?P d)" by (rule LeastI [of ?P c]) (use assms in simp)
  have le: "(LEAST d. ?P d) \<le> c" by (rule Least_le) (use assms in simp)
  obtain p ps where "G (AreaHead (LEAST d. ?P d)) = p # ps" using L by (meson neq_Nil_conv)
  moreover have "G (AreaHead j) = []" if "k \<le> j" "j < (LEAST d. ?P d)" for j
    using not_less_Least [OF that(2)] that(1) by simp
  ultimately show ?thesis using that L le assms(2) by fastforce
qed

text \<open>\<open>alloc_order\<close> takes the block out of the hands of the zone with reference count 1.\<close>

lemma alloc_order_Some:
  assumes inv: "zone_inv st H G A M" and c: "k \<le> c" "c \<le> MAX_ORDER" "G (AreaHead c) = p # ps"
    and least: "\<And>j. k \<le> j \<Longrightarrow> j < c \<Longrightarrow> G (AreaHead j) = []"
  obtains st' G' where "buddy_alloc_order st k = Inr (st', Some p)"
    "zone_inv st' H G' (insert (p, k) A) M" "(p, k) \<notin> A" "page_refcount st' p = 1"
    "\<And>q. q \<noteq> p \<Longrightarrow> page_refcount st' q = page_refcount st q"
    "\<And>hn. \<not> is_area hn \<Longrightarrow> G' hn = G hn"
proof -
  have core: "zone_core st H G A M {}" using inv by (simp add: zone_inv_def)
  obtain st1 G1 where get: "zone_get_free_pages st k = Inr (st1, Some p)"
    and c1: "zone_core st1 H G1 (insert (p, k) A) M {p}" and new: "(p, k) \<notin> A"
    and o1: "page_order st1 p = k" "is_buddy st1 p" and f1: "step_frame st st1 G G1 A"
    using get_free_pages_Some [OF core c least] by metis
  have pF: "(p, c) \<in> fblocks G" using c by (simp add: fblocks_def)
  then have pM: "p \<in> M" using zone_core_in_M [OF core, of "(p, c)"] blk_mem by blast
  have pA: "(p, j) \<notin> A" for j using zone_core_alloc_not_fblock [OF core, of p j c] pF by blast
  have ref: "page_refcount st1 p = 0"
    using f1 zc_refcount [OF core pM pA] by (simp add: step_frame_def)
  let ?st = "clear_free p (set_refcount p 1 st1)"
  have al: "buddy_alloc_order st k = Inr (?st, Some p)"
    using get ref by (simp add: buddy_alloc_order_def Let_def uadd_def usize_mod_def)
  have pG1: "(p, j) \<notin> fblocks G1" for j
    using zone_core_alloc_not_fblock [OF c1, of p k j] by simp
  have "zone_core ?st H G1 (insert (p, k) A) M {}"
  proof (rule zone_coreI)
    show "is_free ?st q \<and> is_buddy ?st q \<and> (page_order ?st q = j \<or> page_order ?st q = 0)"
      if "(q, j) \<in> fblocks G1" for q j
    proof -
      have "q \<noteq> p" using that pG1 by auto
      then show ?thesis
        using zc_free [OF c1 that] zc_buddy [OF c1 that] zc_order [OF c1 that] by simp
    qed
    show "page_refcount ?st q = 0" if "q \<in> M" "\<And>j. (q, j) \<notin> insert (p, k) A" for q
    proof -
      have "q \<noteq> p" using that(2) by auto
      then show ?thesis using zc_refcount [OF c1 that] by simp
    qed
    show "2 ^ j dvd q" if "(q, j) \<in> fblocks G1 \<union> insert (p, k) A" for q j
      using zc_dvd [OF c1 that] .
    show "q \<in> {} \<or> (\<exists>j. (q, j) \<in> fblocks G1)" if "is_free ?st q" for q
      using that zc_is_free [OF c1, of q] by simp
  qed (use zone_coreD [OF c1] in simp_all)
  moreover have "page_order ?st q = j \<and> is_buddy ?st q \<and> j \<le> MAX_ORDER"
    if "(q, j) \<in> insert (p, k) A" for q j
    using that o1 c inv f1 by (auto simp: zone_inv_def step_frame_def)
  ultimately have "zone_inv ?st H G1 (insert (p, k) A) M" by (simp add: zone_inv_def)
  then show ?thesis
    by (rule that [OF al _ new]) (use f1 in \<open>simp_all add: step_frame_def\<close>)
qed

lemma alloc_order_None:
  assumes "zone_inv st H G A M" and "\<And>c. k \<le> c \<Longrightarrow> c \<le> MAX_ORDER \<Longrightarrow> G (AreaHead c) = []"
  shows "buddy_alloc_order st k = Inr (st, None)"
  using get_free_pages_None [of st H G A M k] assms by (simp add: buddy_alloc_order_def zone_inv_def)

section \<open>Deallocation\<close>

lemma buddy_check_core:
  assumes core: "zone_core st H G (insert (p, c) A) M {}" and b: "b = buddy_pfn p c"
  obtains ok where "buddy_check st b c = Inr ok" "ok \<Longrightarrow> (b, c) \<in> fblocks G"
proof (cases "is_present st b \<and> is_free st b \<and> page_order st b = c")
  case True
  then obtain j where j: "(b, j) \<in> fblocks G" using zc_is_free [OF core, of b] by auto
  then have bM: "b \<in> M" using zone_core_in_M [OF core, of "(b, j)"] blk_mem by blast
  have "page_refcount st b = 0"
    using zc_refcount [OF core bM] zone_core_alloc_not_fblock [OF core, of b _ j] j by blast
  then have ok: "buddy_check st b c = Inr True" using True by (simp add: buddy_check_def)
  have dvd: "2 ^ c dvd p" "2 ^ j dvd b"
    using zc_dvd [OF core, of p c] zc_dvd [OF core, of b j] j by blast+
  have "j = c"
  proof (rule ccontr)
    assume "j \<noteq> c"
    with True zc_order [OF core j] have c: "c = 0" and "0 < j" by auto
    then have even: "even b" using dvd(2) by (metis dvd_power dvd_trans)
    from dvd(1) show False
    proof (cases rule: buddy_cases)
      case lower
      with even b c show False by simp
    next
      case (upper b')
      have "(1 :: nat) < 2 ^ j" using \<open>0 < j\<close> by (intro one_less_power) simp_all
      then have "p \<in> blk (b, j)" using upper b c by (simp add: blk_def)
      with j have "b = p \<and> j = c"
        using blocks_disjointD [OF zc_disjoint [OF core], of b j p c p] by auto
      with \<open>j \<noteq> c\<close> show False by simp
    qed
  qed
  with ok j that show ?thesis by blast
qed (use that [of False] in \<open>auto simp: buddy_check_def\<close>)

text \<open>One round of the loop of \<open>free_pages\<close>: the block and its free buddy become one block.\<close>

lemma merge_step:
  assumes core: "zone_core st H G (insert (p, c) A) M {}" and new: "(p, c) \<notin> A"
    and ref: "page_refcount st p = 0"
    and lists: "\<And>hn. hn \<in> H \<Longrightarrow> \<not> is_area hn \<Longrightarrow> p \<notin> set (G hn)"
    and b: "b = buddy_pfn p c" "(b, c) \<in> fblocks G"
  defines "q \<equiv> combined_pfn p b"
  obtains st' G' where
    "area_del_pages (clear_buddy b (clear_buddy p st)) c b = Inr st'"
    "zone_core (set_buddy q st') H G' (insert (q, Suc c) A) M {}" "(q, Suc c) \<notin> A"
    "step_frame st (set_buddy q st') G G' A" "page_refcount st' q = 0"
    "\<And>hn. hn \<in> H \<Longrightarrow> \<not> is_area hn \<Longrightarrow> q \<notin> set (G' hn)"
proof -
  let ?A = "insert (p, c) A" and ?G = "G(AreaHead c := remove1 b (G (AreaHead c)))"
  have c: "c \<le> MAX_ORDER" using b(2) by (simp add: fblocks_def)
  have pF: "(p, j) \<notin> fblocks G" for j using zone_core_alloc_not_fblock [OF core, of p c j] by simp
  obtain st1 where del: "area_del_pages (clear_buddy b (clear_buddy p st)) c b = Inr st1"
    and c1: "zone_core st1 H ?G (insert (b, c) ?A) M {}"
    and o1: "\<And>x. page_order st1 x = page_order st x" "\<And>x. page_refcount st1 x = page_refcount st x"
    and m1: "\<And>x. x \<noteq> b \<Longrightarrow> x \<noteq> p \<Longrightarrow> is_buddy st1 x = is_buddy st x"
    using del_core [OF core b(2) pF] by metis
  have neA: "x \<noteq> b \<and> x \<noteq> p" if "(x, j) \<in> A" for x j
    using that new zone_core_alloc_not_fblock [OF core, of x j c] b(2)
      blocks_disjointD [OF zc_disjoint [OF core], of p j p c p] by auto
  have bA: "(b, c) \<notin> A" using zc_inter [OF core] b(2) by blast
  have bM: "b \<in> M" using zone_core_in_M [OF core, of "(b, c)"] blk_mem b(2) by blast
  have refb: "page_refcount st1 b = 0" and refp: "page_refcount st1 p = 0"
    using zc_refcount [OF core bM] zone_core_alloc_not_fblock [OF core, of b _ c] b(2) o1 ref by auto
  have nb: "b \<notin> set (?G hn)" "p \<notin> set (?G hn)" if "hn \<in> H" "\<not> is_area hn" for hn
    using zone_core_fblock_not_in_other [OF core b(2) that] lists [OF that] that(2) c by auto
  have dvd: "2 ^ c dvd p" by (rule zc_dvd [OF core]) simp
  then have join: "zone_core st1 H ?G (insert (q, Suc c) A) M {} \<and> (q, Suc c) \<notin> A \<and> (q = b \<or> q = p)"
  proof (cases rule: buddy_cases)
    case lower
    have e: "b = p + 2 ^ c" "q = p" using lower(1,2) b(1) by (simp_all add: q_def)
    have c2: "zone_core st1 H ?G (insert (p, c) (insert (p + 2 ^ c, c) A)) M {}"
      using c1 unfolding e(1) [symmetric] by (simp add: insert_commute)
    have n: "p + 2 ^ c \<notin> set (?G hn)" if "hn \<in> H" "\<not> is_area hn" for hn
      using nb(1) [OF that] unfolding e(1) [symmetric] .
    note j = join_core [OF c2 new bA [unfolded e] lower(3) refb [unfolded e] n]
    show ?thesis unfolding e(2) using j by blast
  next
    case (upper b')
    have e: "p = b + 2 ^ c" "q = b" and d: "2 ^ Suc c dvd b" using upper b(1) by (simp_all add: q_def)
    have c2: "zone_core st1 H ?G (insert (b, c) (insert (b + 2 ^ c, c) A)) M {}"
      using c1 unfolding e(1) .
    note j = join_core [OF c2 bA new [unfolded e(1)] d refp [unfolded e(1)] nb(2) [unfolded e(1)]]
    show ?thesis unfolding e(2) using j by blast
  qed
  have "zone_core (set_buddy q st1) H ?G (insert (q, Suc c) A) M {}"
    by (rule zone_core_cong [OF conjunct1 [OF join]]) simp_all
  moreover have "step_frame st (set_buddy q st1) G ?G A" 
    using o1 c m1 neA by (auto simp: step_frame_def)
  moreover have "page_refcount st1 q = 0" using join refb refp by auto
  moreover have "q \<notin> set (?G hn)" if "hn \<in> H" "\<not> is_area hn" for hn
    using join nb [OF that] by blast
  ultimately show ?thesis using that del join by blast
qed


lemma free_loop_core:
  assumes "zone_core st H G (insert (p, c) A) M {}" and "(p, c) \<notin> A" and "c \<le> MAX_ORDER"
    and "page_refcount st p = 0" and "is_buddy st p"
    and "\<And>hn. hn \<in> H \<Longrightarrow> \<not> is_area hn \<Longrightarrow> p \<notin> set (G hn)"
  shows "\<exists>st' q d G'. free_pages_loop st p p c = Inr (st', q, d) \<and>
    zone_core st' H G' (insert (q, d) A) M {} \<and> (q, d) \<notin> A \<and> d \<le> MAX_ORDER \<and>
    page_refcount st' q = 0 \<and> is_buddy st' q \<and>
    (\<forall>hn\<in>H. \<not> is_area hn \<longrightarrow> q \<notin> set (G' hn)) \<and> step_frame st st' G G' A"
  using assms
proof (induction "MAX_ORDER - c" arbitrary: st G p c)
  case 0
  then have "free_pages_loop st p p c = Inr (st, p, c)"
    by (subst free_pages_loop.simps) (simp add: ZONE_AREAS_def)
  with 0 show ?case by (auto simp: step_frame_def)
next
  case (Suc n)
  let ?b = "buddy_pfn p c"
  have c: "c < MAX_ORDER" using Suc.hyps(2) by simp
  obtain ok where ok: "buddy_check st ?b c = Inr ok" "ok \<Longrightarrow> (?b, c) \<in> fblocks G"
    using buddy_check_core [OF Suc.prems(1) refl] by blast
  show ?case
  proof (cases ok)
    case False
    then have "free_pages_loop st p p c = Inr (st, p, c)"
      using ok by (subst free_pages_loop.simps) (simp add: ZONE_AREAS_def c)
    with Suc.prems show ?thesis by (auto simp: step_frame_def)
  next
    case True
    let ?q = "combined_pfn p ?b"
    obtain st1 G1 where del: "area_del_pages (clear_buddy ?b (clear_buddy p st)) c ?b = Inr st1"
      and c1: "zone_core (set_buddy ?q st1) H G1 (insert (?q, Suc c) A) M {}" "(?q, Suc c) \<notin> A"
      and f1: "step_frame st (set_buddy ?q st1) G G1 A" and r1: "page_refcount st1 ?q = 0"
      and l1: "\<And>hn. hn \<in> H \<Longrightarrow> \<not> is_area hn \<Longrightarrow> ?q \<notin> set (G1 hn)"
      using merge_step [OF Suc.prems(1,2,4,6) refl ok(2) [OF True]] by metis
    have eq: "free_pages_loop st p p c = free_pages_loop (set_buddy ?q st1) ?q ?q (Suc c)"
      using ok(1) True del by (subst free_pages_loop.simps) (simp add: ZONE_AREAS_def c Let_def)
    have "\<exists>st' q d G'. free_pages_loop (set_buddy ?q st1) ?q ?q (Suc c) = Inr (st', q, d) \<and>
      zone_core st' H G' (insert (q, d) A) M {} \<and> (q, d) \<notin> A \<and> d \<le> MAX_ORDER \<and>
      page_refcount st' q = 0 \<and> is_buddy st' q \<and> (\<forall>hn\<in>H. \<not> is_area hn \<longrightarrow> q \<notin> set (G' hn)) \<and>
      step_frame (set_buddy ?q st1) st' G1 G' A"
      by (rule Suc.hyps(1)) (use Suc.hyps(2) c c1 r1 l1 in simp_all)
    then show ?thesis unfolding eq using step_frame_trans [OF f1] by blast
  qed
qed

lemma dealloc_core:
  assumes inv: "zone_inv st H G (insert (p, k) A) M" and new: "(p, k) \<notin> A"
    and ref: "page_refcount st p = 0"
    and lists: "\<And>hn. hn \<in> H \<Longrightarrow> \<not> is_area hn \<Longrightarrow> p \<notin> set (G hn)"
  obtains st' G' where "buddy_dealloc st p = Inr st'" "zone_inv st' H G' A M"
    "\<And>q. page_refcount st' q = page_refcount st q" "\<And>hn. \<not> is_area hn \<Longrightarrow> G' hn = G hn"
proof -
  have core: "zone_core st H G (insert (p, k) A) M {}" and k: "page_order st p = k" "k \<le> MAX_ORDER"
    and mark: "is_buddy st p"
    using inv by (auto simp: zone_inv_def)
  have pM: "p \<in> M" using zone_core_in_M [OF core, of "(p, k)"] blk_mem by blast
  have pF: "\<not> is_free st p"
    using zc_is_free [OF core, of p] zone_core_alloc_not_fblock [OF core, of p k] by auto
  obtain st1 q d G1 where loop: "free_pages_loop st p p k = Inr (st1, q, d)"
    and c1: "zone_core st1 H G1 (insert (q, d) A) M {}" and q: "(q, d) \<notin> A" "d \<le> MAX_ORDER"
    and r1: "page_refcount st1 q = 0" "is_buddy st1 q" and l1: "\<And>hn. hn \<in> H \<Longrightarrow> \<not> is_area hn \<Longrightarrow> q \<notin> set (G1 hn)"
    and f1: "step_frame st st1 G G1 A"
    using free_loop_core [OF core new k(2) ref mark lists] by blast
  let ?st = "area_add_pages (set_order q d st1) d q" and ?G = "G1(AreaHead d := q # G1 (AreaHead d))"
  have qne: "x \<noteq> q" if "(x, j) \<in> fblocks G1 \<union> A" for x j
    using that q(1) zone_core_alloc_not_fblock [OF c1, of q d j]
      blocks_disjointD [OF zc_disjoint [OF c1], of q j q d q] by auto
  have c2: "zone_core (set_order q d st1) H G1 (insert (q, d) A) M {}"
    by (rule zone_core_cong [OF c1]) (use qne in auto)
  have "buddy_dealloc st p = Inr ?st"
    using ref zc_present [OF core pM] pF loop k
    by (simp add: buddy_dealloc_def zone_free_pages_def Let_def)
  moreover have "zone_core ?st H ?G A M {}"
    by (rule add_core [OF c2 q]) (use r1 l1 in simp_all)
  moreover have "page_order ?st x = j \<and> is_buddy ?st x \<and> j \<le> MAX_ORDER" if "(x, j) \<in> A" for x j
    using that inv f1 qne [of x j] by (auto simp: zone_inv_def step_frame_def)
  ultimately show ?thesis
    by (intro that [of ?st ?G]) (use f1 q in \<open>auto simp: zone_inv_def step_frame_def\<close>)
qed

section \<open>Creation\<close>

lemma trailing_zeros_dvd: "2 ^ trailing_zeros_upto w n dvd n"
  by (induction w n rule: trailing_zeros_upto.induct) (auto elim!: evenE)

lemma fit_order_le: "fit_order s e k \<le> k"
  by (induction k) auto

lemma fit_order_fits: "s < e \<Longrightarrow> s + 2 ^ fit_order s e k \<le> e"
  by (induction k) (auto simp: push_bit_eq_mult)

text \<open>The order that \<open>create_pages\<close> chooses for the block at the frame \<open>s\<close>.\<close>

definition create_order :: "nat \<Rightarrow> nat \<Rightarrow> nat" where
  "create_order s e = fit_order s e (min (trailing_zeros s) MAX_ORDER)"

lemma create_order_ok:
  assumes "s < e"
  shows "create_order s e \<le> MAX_ORDER" and "2 ^ create_order s e dvd s"
    and "s + 2 ^ create_order s e \<le> e"
proof -
  have le: "create_order s e \<le> min (trailing_zeros s) MAX_ORDER"
    unfolding create_order_def by (rule fit_order_le)
  then show "create_order s e \<le> MAX_ORDER" by simp
  have "2 ^ create_order s e dvd (2 ^ trailing_zeros s :: nat)" using le by (simp add: le_imp_power_dvd)
  then show "2 ^ create_order s e dvd s"
    using trailing_zeros_dvd [of 64 s] dvd_trans unfolding trailing_zeros_def by blast
  show "s + 2 ^ create_order s e \<le> e" unfolding create_order_def by (rule fit_order_fits [OF assms])
qed

text \<open>Descriptors of pages that no allocator manages yet.\<close>

definition fresh_page :: "'a phys_scheme \<Rightarrow> nat \<Rightarrow> bool" where
  "fresh_page st q \<longleftrightarrow> is_present st q \<and> page_refcount st q = 0 \<and> page_order st q = 0"

lemma blocks_disjoint_insert:
  assumes "blocks_disjoint B" and "blk b \<inter> \<Union> (blk ` B) = {}"
  shows "blocks_disjoint (insert b B)"
  using assms unfolding blocks_disjoint_def by (auto simp: Int_commute)

lemma grow_core:
  assumes core: "zone_core st H G A M X" and k: "2 ^ k dvd p" and out: "blk (p, k) \<inter> M = {}"
    and fresh: "\<And>q. q \<in> blk (p, k) \<Longrightarrow> fresh_page st q"
  shows "zone_core st H G (insert (p, k) A) (M \<union> blk (p, k)) X" and "(p, k) \<notin> A"
    and "\<And>hn. hn \<in> H \<Longrightarrow> \<not> is_area hn \<Longrightarrow> p \<notin> set (G hn)"
proof -
  have nin: "(p, k) \<notin> fblocks G \<union> A" using out zone_core_in_M [OF core, of "(p, k)"] blk_mem by blast
  then show "(p, k) \<notin> A" by blast
  show "p \<notin> set (G hn)" if hn: "hn \<in> H" "\<not> is_area hn" for hn
  proof
    assume "p \<in> set (G hn)"
    then obtain j where "(p, j) \<in> A" using zc_other [OF core hn] by force
    then have "p \<in> M" using zone_core_in_M [OF core, of "(p, j)"] blk_mem by blast
    with out blk_mem [of p k] show False by blast
  qed
  show "zone_core st H G (insert (p, k) A) (M \<union> blk (p, k)) X"
  proof (rule zone_coreI)
    show "2 ^ j dvd q" if "(q, j) \<in> fblocks G \<union> insert (p, k) A" for q j
      using that k zc_dvd [OF core, of q j] by blast
    show "page_refcount st q = 0" if "q \<in> M \<union> blk (p, k)" "\<And>j. (q, j) \<notin> insert (p, k) A" for q
      using that zc_refcount [OF core, of q] fresh [of q] by (auto simp: fresh_page_def)
    show "is_present st q" if "q \<in> M \<union> blk (p, k)" for q
      using that zc_present [OF core, of q] fresh [of q] by (auto simp: fresh_page_def)
    show "blocks_disjoint (fblocks G \<union> insert (p, k) A)"
      using blocks_disjoint_insert [OF zc_disjoint [OF core], of "(p, k)"] out zc_cover [OF core] by simp
    show "fblocks G \<inter> insert (p, k) A = {}" using nin zc_inter [OF core] by blast
    show "\<Union> (blk ` (fblocks G \<union> insert (p, k) A)) = M \<union> blk (p, k)"
      using zc_cover [OF core] by auto
    show "set (G hn) \<subseteq> fst ` insert (p, k) A" if "hn \<in> H" "\<not> is_area hn" for hn
      using zc_other [OF core that] by auto
  qed (use zone_coreD [OF core] in simp_all)
qed

lemma create_step:
  assumes inv: "zone_inv st H G A M" and k: "k \<le> MAX_ORDER" "2 ^ k dvd s"
    and out: "blk (s, k) \<inter> M = {}" and fr: "\<And>q. q \<in> blk (s, k) \<Longrightarrow> fresh_page st q"
  shows "zone_inv (area_add_pages (set_buddy s st) k s) H (G(AreaHead k := s # G (AreaHead k))) A
    (M \<union> blk (s, k))"
proof -
  have core: "zone_core st H G A M {}" using inv by (simp add: zone_inv_def)
  note g = grow_core [OF core k(2) out fr]
  have "zone_core (set_buddy s st) H G (insert (s, k) A) (M \<union> blk (s, k)) {}"
    by (rule zone_core_cong [OF g(1)]) simp_all
  then have "zone_core (area_add_pages (set_buddy s st) k s) H (G(AreaHead k := s # G (AreaHead k))) A
    (M \<union> blk (s, k)) {}"
    by (rule add_core) (use g fr [of s] k(1) in \<open>auto simp: fresh_page_def\<close>)
  then show ?thesis using inv by (simp add: zone_inv_def)
qed

lemma create_loop_core:
  assumes "zone_inv st H G A M" and "{s..<e} \<inter> M = {}" and "s \<le> e"
    and "\<And>q. s \<le> q \<Longrightarrow> q < e \<Longrightarrow> fresh_page st q"
  shows "\<exists>G'. zone_inv (create_pages_loop st s e) H G' A (M \<union> {s..<e}) \<and>
    (\<forall>hn. \<not> is_area hn \<longrightarrow> G' hn = G hn)"
  using assms
proof (induction "e - s" arbitrary: st s G M rule: less_induct)
  case less
  show ?case
  proof (cases "s < e")
    case False
    with less.prems(1,3) show ?thesis by (subst create_pages_loop.simps) auto
  next
    case True
    define k where "k = create_order s e"
    define G1 where "G1 = G(AreaHead k := s # G (AreaHead k))"
    let ?st = "area_add_pages (set_buddy s st) k s"
    note k = create_order_ok [OF True, folded k_def]
    have b: "blk (s, k) = {s..<s + 2 ^ k}" by (simp add: blk_def)
    have "{s..<s + 2 ^ k} \<subseteq> {s..<e}" using k(3) by auto
    then have out: "blk (s, k) \<inter> M = {}" using less.prems(2) unfolding b by blast
    have fr: "fresh_page st q" if "q \<in> blk (s, k)" for q using that less.prems(4) k(3) unfolding b by auto
    have i1: "zone_inv ?st H G1 A (M \<union> blk (s, k))"
      unfolding G1_def by (rule create_step [OF less.prems(1) k(1,2) out fr])
    have "\<exists>G'. zone_inv (create_pages_loop ?st (s + 2 ^ k) e) H G' A (M \<union> blk (s, k) \<union> {s + 2 ^ k..<e}) \<and>
        (\<forall>hn. \<not> is_area hn \<longrightarrow> G' hn = G1 hn)"
    proof (rule less.hyps [OF _ i1])
      show "e - (s + 2 ^ k) < e - s" using True k(3) by (simp add: diff_less_mono2)
      have "{s + 2 ^ k..<e} \<subseteq> {s..<e}" by auto
      then have "{s + 2 ^ k..<e} \<inter> M = {}" using less.prems(2) by blast
      then show "{s + 2 ^ k..<e} \<inter> (M \<union> blk (s, k)) = {}" unfolding b by auto
      show "fresh_page ?st q" if "s + 2 ^ k \<le> q" "q < e" for q
        using less.prems(4) [of q] that by (simp add: fresh_page_def)
    qed (rule k(3))
    moreover have "create_pages_loop st s e = create_pages_loop ?st (s + 2 ^ k) e"
      using True by (subst create_pages_loop.simps)
        (simp add: Let_def k_def create_order_def ZONE_AREAS_def push_bit_eq_mult)
    moreover have "M \<union> blk (s, k) \<union> {s + 2 ^ k..<e} = M \<union> {s..<e}" using k(3) unfolding b by auto
    moreover have "G1 hn = G hn" if "\<not> is_area hn" for hn using that k(1) by (auto simp: G1_def)
    ultimately show ?thesis by metis
  qed
qed

section \<open>What the buddy allocator never touches\<close>

text \<open>The \<open>LOCAL\<close> flag, the shared data of a descriptor and the fields of states that extend
  \<open>phys\<close>.\<close>

definition phys_rest :: "'a phys_scheme \<Rightarrow> (nat \<Rightarrow> bool) \<times> (nat \<Rightarrow> page_type) \<times> 'a" where
  "phys_rest st = ((\<lambda>q. page_has st q PF_LOCAL), (\<lambda>q. rp_data (ph_page st q)), phys.more st)"

lemma phys_rest_step [simp]:
  "phys_rest (set_order p k st) = phys_rest st" "phys_rest (set_buddy p st) = phys_rest st"
  "phys_rest (clear_buddy p st) = phys_rest st" "phys_rest (set_free p st) = phys_rest st"
  "phys_rest (clear_free p st) = phys_rest st" "phys_rest (set_refcount p c st) = phys_rest st"
  "phys_rest (st\<lparr>ph_links := h\<rparr>) = phys_rest st" "phys_rest (st\<lparr>ph_area_count := ac\<rparr>) = phys_rest st"
  by (auto simp: phys_rest_def flag_ops set_order_def page_set_flag_def page_clear_flag_def
      set_refcount_def upd_page_def page_has_def flags_has_set_other flags_has_clear_other)

lemma phys_rest_area [simp]:
  "phys_rest (area_add_pages st k p) = phys_rest st"
  "area_get_free_pages st k = Inr (st', r) \<Longrightarrow> phys_rest st' = phys_rest st"
  "area_del_pages st k p = Inr st' \<Longrightarrow> phys_rest st' = phys_rest st"
  by (auto simp: area_add_pages_def area_get_free_pages_def area_del_pages_def Let_def rassert_def
      rbind_def split: option.splits sum.splits if_splits)

lemma phys_rest_expand [simp]: "phys_rest (zone_expand st p k t) = phys_rest st"
proof -
  have "phys_rest (expand_loop st p n ks) = phys_rest st" for n ks
    by (induction st p n ks rule: expand_loop.induct) (simp_all add: Let_def)
  then show ?thesis by (simp add: zone_expand_def)
qed

lemma phys_rest_get_loop:
  "get_free_pages_loop st k cs = Inr (st', r) \<Longrightarrow> phys_rest st' = phys_rest st"
proof (induction st k cs rule: get_free_pages_loop.induct)
  case (2 st ord c os)
  obtain st1 r1 where get: "area_get_free_pages st c = Inr (st1, r1)"
    using 2(2) by (cases "area_get_free_pages st c") auto
  then have "phys_rest st1 = phys_rest st" by simp
  with 2 get show ?case
    by (cases r1) (auto simp: Let_def rassert_def split: if_splits)
qed simp

lemma phys_rest_alloc: "buddy_alloc_order st k = Inr (st', r) \<Longrightarrow> phys_rest st' = phys_rest st"
  by (auto simp: buddy_alloc_order_def zone_get_free_pages_def rbind_def Let_def
      dest!: phys_rest_get_loop split: sum.splits option.splits)

lemma phys_rest_free_loop:
  "free_pages_loop st p pfn c = Inr (st', q, d) \<Longrightarrow> phys_rest st' = phys_rest st"
proof (induction st p pfn c rule: free_pages_loop.induct)
  case (1 st p pfn c)
  let ?b = "buddy_pfn pfn c"
  let ?cl = "clear_buddy ?b (clear_buddy p st)"
  show ?case
  proof (cases "c < ZONE_AREAS - 1 \<and> buddy_check st ?b c = Inr True")
    case True
    then obtain st1 where del: "area_del_pages ?cl c ?b = Inr st1"
      using 1(2) by (cases "area_del_pages ?cl c ?b") (auto simp: free_pages_loop.simps [of st] Let_def)
    then have "phys_rest st1 = phys_rest st" by (drule_tac phys_rest_area(3)) simp
    with 1 True del show ?thesis by (subst (asm) free_pages_loop.simps) (auto simp: Let_def)
  next
    case False
    with 1(2) show ?thesis
      by (cases "buddy_check st ?b c") (auto simp: free_pages_loop.simps [of st] Let_def split: if_splits)
  qed
qed

lemma phys_rest_dealloc: "buddy_dealloc st p = Inr st' \<Longrightarrow> phys_rest st' = phys_rest st"
  by (auto simp: buddy_dealloc_def zone_free_pages_def rbind_def rassert_def Let_def
      dest!: phys_rest_free_loop split: sum.splits if_splits)

section \<open>The zone keeps its promise\<close>

text \<open>A new zone over descriptors none of which is marked free.\<close>

lemma zone_new_inv:
  assumes "ph_links st = (\<lambda>_. link_new)" and "ph_area_count st = (\<lambda>_. 0)" and "\<And>q. \<not> is_free st q"
    and "\<And>k. k \<le> MAX_ORDER \<Longrightarrow> AreaHead k \<in> H" and "\<And>q. PageNode q \<notin> H"
  shows "zone_inv st H (\<lambda>_. []) {} {}"
  using assms
  by (auto simp: zone_inv_def zone_core_def fblocks_def blocks_disjoint_def list_family_def is_list_def
      link_new_def)

definition sample_pages :: "nat \<Rightarrow> raw_page" where
  "sample_pages q = \<lparr>rp_order = 0, rp_flags = PF_PRESENT, rp_refcount = 0, rp_data = Buddy\<rparr>"

abbreviation sample_heads :: "node set" where "sample_heads \<equiv> AreaHead ` {..MAX_ORDER}"

lemma sample_inv: "zone_inv (zone_new sample_pages) sample_heads (\<lambda>_. []) {} {}"
  by (rule zone_new_inv)
    (auto simp: zone_new_def sample_pages_def pf_defs is_free_def page_has_def flags_has_def)

lemma sample_fresh [simp]: "fresh_page (zone_new sample_pages) q"
  by (simp add: fresh_page_def is_present_def page_has_def flags_has_def pf_defs page_refcount_def
      page_order_def zone_new_def sample_pages_def)

lemma sample_free_inv:
  "zone_inv (area_add_pages (set_buddy 4 (zone_new sample_pages)) 2 4) sample_heads
     ((\<lambda>_. [])(AreaHead 2 := [4])) {} (blk (4, 2))"
  using create_step [OF sample_inv, of 2 4] by (simp add: MAX_ORDER_def)

lemma sample_taken_inv:
  "zone_inv (set_buddy 4 (set_order 4 2 (zone_new sample_pages))) sample_heads (\<lambda>_. []) {(4, 2)} (blk (4, 2))"
proof -
  have core: "zone_core (zone_new sample_pages) sample_heads (\<lambda>_. []) {} {} {}"
    using sample_inv by (simp add: zone_inv_def)
  have "zone_core (zone_new sample_pages) sample_heads (\<lambda>_. []) {(4, 2)} (blk (4, 2)) {}"
    using grow_core(1) [OF core, of 2 4] by simp
  then have "zone_core (set_buddy 4 (set_order 4 2 (zone_new sample_pages))) sample_heads (\<lambda>_. []) {(4, 2)} (blk (4, 2)) {}"
    by (rule zone_core_cong) (simp_all add: fblocks_def)
  then show ?thesis by (simp add: zone_inv_def MAX_ORDER_def)
qed

text \<open>C3: \<open>alloc_order\<close> never panics. It returns \<open>None\<close>, with nothing changed, exactly when no free
  block of the requested order or above is left; otherwise it takes the first block of the
  least such order and returns a page aligned to the requested order, with reference count 1,
  whose block was not allocated before and does not meet any allocated block; the zone keeps
  managing the same pages.\<close>

theorem alloc_order_correct:
  assumes inv: "zone_inv st H G A M"
  shows "case buddy_alloc_order st k of
      Inl _ \<Rightarrow> False
    | Inr (st', None) \<Rightarrow> st' = st \<and> (\<forall>c. k \<le> c \<and> c \<le> MAX_ORDER \<longrightarrow> G (AreaHead c) = [])
    | Inr (st', Some p) \<Rightarrow>
        (\<exists>c. k \<le> c \<and> c \<le> MAX_ORDER \<and> (\<exists>ps. G (AreaHead c) = p # ps) \<and>
           (\<forall>j. k \<le> j \<and> j < c \<longrightarrow> G (AreaHead j) = [])) \<and>
        2 ^ k dvd p \<and> page_refcount st' p = 1 \<and> page_order st' p = k \<and>
        blk (p, k) \<subseteq> M \<and> (\<forall>b\<in>A. blk (p, k) \<inter> blk b = {}) \<and>
        (\<exists>G'. zone_inv st' H G' (insert (p, k) A) M)"
proof (cases "\<exists>c. k \<le> c \<and> c \<le> MAX_ORDER \<and> G (AreaHead c) \<noteq> []")
  case False
  then show ?thesis using alloc_order_None [OF inv, of k] by simp
next
  case True
  then obtain c p ps where c: "k \<le> c" "c \<le> MAX_ORDER" "G (AreaHead c) = p # ps"
    and least: "\<And>j. k \<le> j \<Longrightarrow> j < c \<Longrightarrow> G (AreaHead j) = []"
    using least_nonempty_area [of k _ G] by metis
  obtain st' G' where al: "buddy_alloc_order st k = Inr (st', Some p)"
    and i: "zone_inv st' H G' (insert (p, k) A) M" and new: "(p, k) \<notin> A" "page_refcount st' p = 1"
    using alloc_order_Some [OF inv c least] by metis
  have core: "zone_core st' H G' (insert (p, k) A) M {}" using i by (simp add: zone_inv_def)
  have "blk (p, k) \<inter> blk b = {}" if "b \<in> A" for b
  proof -
    have "b \<noteq> (p, k)" using that new by auto
    with that zc_disjoint [OF core] show ?thesis by (auto simp: blocks_disjoint_def)
  qed
  moreover have "2 ^ k dvd p" by (rule zc_dvd [OF core]) simp
  moreover have "blk (p, k) \<subseteq> M" by (rule zone_core_in_M [OF core]) simp
  moreover have "page_order st' p = k" using i by (simp add: zone_inv_def)
  ultimately show ?thesis using al i new(2) c least by auto
qed

theorem alloc_order_correct_witness:
  "zone_inv (area_add_pages (set_buddy 4 (zone_new sample_pages)) 2 4) sample_heads
     ((\<lambda>_. [])(AreaHead 2 := [4])) {} (blk (4, 2)) \<and>
   (\<exists>st'. buddy_alloc_order (area_add_pages (set_buddy 4 (zone_new sample_pages)) 2 4) 1 = Inr (st', Some 4) \<and>
     page_refcount st' 4 = 1 \<and> (\<exists>G'. zone_inv st' sample_heads G' {(4, 1)} (blk (4, 2))))"
proof -
  let ?st = "area_add_pages (set_buddy 4 (zone_new sample_pages)) 2 4"
  have "\<exists>c. 1 \<le> c \<and> c \<le> MAX_ORDER \<and> ((\<lambda>_. [])(AreaHead 2 := [4::nat])) (AreaHead c) \<noteq> []"
    by (rule exI [of _ 2]) (simp add: MAX_ORDER_def)
  then show ?thesis
    using alloc_order_correct [OF sample_free_inv, of 1] sample_free_inv
    by (auto split: sum.splits option.splits prod.splits if_splits)
qed



lemma frame_range:
  assumes "start + 4096 \<le> usize_mod"
  shows "{pfn_of_paddr (page_ceil start)..<pfn_of_paddr (page_floor fin)} =
    {q. start \<le> q * 4096 \<and> (q + 1) * 4096 \<le> fin}"
proof -
  have c: "pfn_of_paddr (page_ceil start) = div_ceil start 4096"
    using assms ceil_to_nowrap [of 4096 start]
    by (simp add: pfn_of_paddr_def page_ceil_def PAGE_SIZE_BITS_def drop_bit_eq_div)
  have f: "pfn_of_paddr (page_floor fin) = fin div 4096"
    by (simp add: pfn_of_paddr_def page_floor_def floor_to_def PAGE_SIZE_BITS_def drop_bit_eq_div)
  have "div_ceil start 4096 \<le> q \<longleftrightarrow> start \<le> q * 4096" for q
    using div_ceil_ge [of 4096 start] div_ceil_less [of 4096 start] by auto
  moreover have "q < fin div 4096 \<longleftrightarrow> (q + 1) * 4096 \<le> fin" for q
    using less_eq_div_iff_mult_less_eq [of 4096 "q + 1" fin] by auto
  ultimately show ?thesis unfolding c f by auto
qed

text \<open>C5: \<open>create_pages\<close> puts exactly the whole frames between the two addresses under management,
  all of them free, and leaves the allocated blocks alone.\<close>

theorem create_pages_correct:
  assumes "zone_inv st H G A M" and "start + 4096 \<le> usize_mod"
    and "\<forall>q. start \<le> q * 4096 \<and> (q + 1) * 4096 \<le> fin \<longrightarrow> q \<notin> M \<and> fresh_page st q"
  shows "\<exists>G'. zone_inv (zone_create_pages st start fin) H G' A
    (M \<union> {q. start \<le> q * 4096 \<and> (q + 1) * 4096 \<le> fin})"
proof -
  let ?s = "pfn_of_paddr (page_ceil start)" and ?e = "pfn_of_paddr (page_floor fin)"
  note fr = frame_range [OF assms(2), of fin]
  have m: "q \<notin> M \<and> fresh_page st q" if "q \<in> {?s..<?e}" for q using that assms(3) unfolding fr by blast
  show ?thesis
  proof (cases "?s \<le> ?e")
    case True
    have "{?s..<?e} \<inter> M = {}" using m by blast
    then show ?thesis
      using create_loop_core [OF assms(1) _ True] m
      unfolding zone_create_pages_def fr [symmetric] by fastforce
  next
    case False
    then show ?thesis unfolding zone_create_pages_def fr [symmetric]
      using assms(1) by (subst create_pages_loop.simps) auto
  qed
qed


theorem create_pages_correct_witness:
  "5000 + 4096 \<le> usize_mod \<and>
   (\<exists>G'. zone_inv (zone_create_pages (zone_new sample_pages) 5000 40000) sample_heads G' {} {2..<9})"
proof -
  have r: "{q. 5000 \<le> q * 4096 \<and> (q + 1) * 4096 \<le> (40000 :: nat)} = {2..<9}" by auto
  have "5000 + 4096 \<le> usize_mod" by (simp add: usize_mod_def)
  then show ?thesis using create_pages_correct [OF sample_inv, of 5000 40000] unfolding r by simp
qed

end
