(* ===== verification/Page_Alloc.thy ===== *)
theory Page_Alloc
  imports Buddy_Correct
begin

unbundle bit_operations_syntax

text \<open>
  The page allocator of the kernel (\<open>src/kernel/mem/page_alloc.rs\<close>) and the reference-counted
  handle \<open>Page\<close> (\<open>dlutos_mm/src/paging/page.rs\<close>). Blocks of order up to \<open>COSTLY_ORDER\<close> come from the
  lists of the running processor, which are refilled from the buddy allocator in batches;
  larger ones come from the buddy allocator. A \<open>Page\<close> is the frame number of its descriptor.

  The state adds the lists of one processor to \<open>phys\<close>. \<open>page_inv\<close> is the invariant: the cached
  blocks and the blocks \<open>U\<close> held through \<open>Page\<close> are different blocks of the buddy allocator.
\<close>

section \<open>Operations\<close>

definition COSTLY_ORDER :: nat where "COSTLY_ORDER = 3"
definition BATCH_SIZE :: nat where "BATCH_SIZE = 64"

record palloc = phys +
  pc_batch :: nat
  pc_free_areas :: "nat \<Rightarrow> node ilist"

definition percpu_new :: "phys \<Rightarrow> palloc" where
  "percpu_new st = phys.extend st \<lparr>pc_batch = BATCH_SIZE, pc_free_areas = (\<lambda>k. ilist_new (CpuHead k))\<rparr>"

text \<open>Indexing \<open>free_areas\<close> panics from \<open>COSTLY_ORDER + 1\<close> on.\<close>

definition percpu_insert_free_pages :: "'a palloc_scheme \<Rightarrow> nat \<Rightarrow> nat \<Rightarrow> 'a palloc_scheme res" where
  "percpu_insert_free_pages st pages_ptr ord =
     rassert (ord < COSTLY_ORDER + 1) (
       let (h, l) = ilist_insert (ph_links st) (pc_free_areas st ord) (get_link pages_ptr)
       in Inr (st\<lparr>ph_links := h, pc_free_areas := (pc_free_areas st)(ord := l)\<rparr>))"

definition percpu_get_free_pages :: "'a palloc_scheme \<Rightarrow> nat \<Rightarrow> ('a palloc_scheme \<times> nat option) res" where
  "percpu_get_free_pages st ord =
     rassert (ord < COSTLY_ORDER + 1) (
       let (h, l, node) = ilist_pop (ph_links st) (pc_free_areas st ord);
           st = st\<lparr>ph_links := h, pc_free_areas := (pc_free_areas st)(ord := l)\<rparr>
       in case node of
            None \<Rightarrow> Inr (st, None)
          | Some n \<Rightarrow> rbind (from_link n) (\<lambda>p. Inr (st, Some p)))"

text \<open>The loop \<open>for _ in 0..batch\<close> of \<open>alloc_order\<close>.\<close>

fun percpu_refill :: "'a palloc_scheme \<Rightarrow> nat \<Rightarrow> nat \<Rightarrow> 'a palloc_scheme res" where
  "percpu_refill st ord 0 = Inr st"
| "percpu_refill st ord (Suc n) =
     rbind (buddy_alloc_order st ord) (\<lambda>(st, pages).
       case pages of
         None \<Rightarrow> Inr st
       | Some pages_ptr \<Rightarrow>
           rbind (percpu_insert_free_pages (page_set_flag pages_ptr PF_LOCAL st) pages_ptr ord)
             (\<lambda>st. percpu_refill st ord n))"

definition percpu_alloc_order :: "'a palloc_scheme \<Rightarrow> nat \<Rightarrow> ('a palloc_scheme \<times> nat option) res" where
  "percpu_alloc_order st ord =
     rassert (ord \<le> COSTLY_ORDER) (
     rbind (percpu_get_free_pages st ord) (\<lambda>(st, pages).
       case pages of
         Some p \<Rightarrow> Inr (st, Some p)
       | None \<Rightarrow>
           let batch = drop_bit ord (pc_batch st)
           in rbind (percpu_refill st ord batch) (\<lambda>st. percpu_get_free_pages st ord)))"

definition percpu_free_pages :: "'a palloc_scheme \<Rightarrow> nat \<Rightarrow> nat \<Rightarrow> 'a palloc_scheme res" where
  "percpu_free_pages st pages_ptr ord =
     rassert (page_order st pages_ptr = ord) (
     rassert (page_refcount st pages_ptr = 0) (
       percpu_insert_free_pages (set_refcount pages_ptr 1 st) pages_ptr ord))"

text \<open>\<open>GlobalPageAlloc\<close>.\<close>

function mark_present_loop :: "'a phys_scheme \<Rightarrow> nat \<Rightarrow> nat \<Rightarrow> 'a phys_scheme" where
  "mark_present_loop st pfn end_pfn =
     (if pfn < end_pfn then mark_present_loop (page_set_flag pfn PF_PRESENT st) (pfn + 1) end_pfn
      else st)"
  by pat_completeness auto
termination
  by (relation "measure (\<lambda>(st, s, e). e - s)") auto

declare mark_present_loop.simps [simp del]

definition mark_present :: "'a phys_scheme \<Rightarrow> addr_range \<Rightarrow> 'a phys_scheme" where
  "mark_present st r =
     mark_present_loop st (pfn_of_paddr (page_ceil (ar_start r))) (pfn_of_paddr (page_floor (ar_end r)))"

definition add_pages :: "'a phys_scheme \<Rightarrow> addr_range \<Rightarrow> 'a phys_scheme" where
  "add_pages st r = zone_create_pages st (ar_start r) (ar_end r)"

definition global_alloc_order :: "'a palloc_scheme \<Rightarrow> nat \<Rightarrow> ('a palloc_scheme \<times> nat option) res" where
  "global_alloc_order st ord =
     (if ord > COSTLY_ORDER then buddy_alloc_order st ord else percpu_alloc_order st ord)"

definition global_dealloc :: "'a palloc_scheme \<Rightarrow> nat \<Rightarrow> 'a palloc_scheme res" where
  "global_dealloc st page_ptr =
     (if page_order st page_ptr > COSTLY_ORDER then buddy_dealloc st page_ptr
      else percpu_free_pages st page_ptr (page_order st page_ptr))"

definition has_management_over :: "'a palloc_scheme \<Rightarrow> nat \<Rightarrow> bool" where
  "has_management_over st page_ptr \<longleftrightarrow>
     buddy_has_management_over st page_ptr \<and>
     (page_order st page_ptr > COSTLY_ORDER \<or> page_has st page_ptr PF_LOCAL)"

text \<open>\<open>usize::next_power_of_two\<close>, which is 0 on overflow in the release profile, and
  \<open>PageAlloc::alloc_at_least\<close>.\<close>

fun bit_length :: "nat \<Rightarrow> nat" where
  "bit_length n = (if n = 0 then 0 else Suc (bit_length (n div 2)))"

declare bit_length.simps [simp del]

definition next_power_of_two :: "usize \<Rightarrow> usize" where
  "next_power_of_two n = (if n \<le> 1 then 1 else 2 ^ bit_length (n - 1) mod usize_mod)"

definition global_alloc_at_least :: "'a palloc_scheme \<Rightarrow> usize \<Rightarrow> ('a palloc_scheme \<times> nat option) res" where
  "global_alloc_at_least st count = global_alloc_order st (trailing_zeros (next_power_of_two count))"

subsection \<open>\<open>Page\<close>\<close>

definition page_alloc_order_in :: "'a palloc_scheme \<Rightarrow> nat \<Rightarrow> ('a palloc_scheme \<times> nat) res" where
  "page_alloc_order_in st ord =
     rbind (global_alloc_order st ord) (\<lambda>(st, raw_page).
       rbind (unwrap raw_page) (\<lambda>p. Inr (st, p)))"

definition page_alloc_at_least_in :: "'a palloc_scheme \<Rightarrow> usize \<Rightarrow> ('a palloc_scheme \<times> nat) res" where
  "page_alloc_at_least_in st count =
     rbind (global_alloc_at_least st count) (\<lambda>(st, raw_page).
       rbind (unwrap raw_page) (\<lambda>p. Inr (st, p)))"

definition page_from_raw_in :: "'a palloc_scheme \<Rightarrow> nat \<Rightarrow> nat res" where
  "page_from_raw_in st pfn = rassert (has_management_over st pfn) (Inr pfn)"

definition page_is_exclusive :: "'a phys_scheme \<Rightarrow> nat \<Rightarrow> bool" where
  "page_is_exclusive st p \<longleftrightarrow> page_refcount st p = 1"

definition page_len :: "'a phys_scheme \<Rightarrow> nat \<Rightarrow> usize" where
  "page_len st p = push_bit (page_order st p + PAGE_SIZE_BITS) 1"

definition page_range :: "'a phys_scheme \<Rightarrow> nat \<Rightarrow> addr_range res" where
  "page_range st p = range_grow (range_from (paddr_of_pfn p)) (page_len st p)"

definition page_clone :: "'a phys_scheme \<Rightarrow> nat \<Rightarrow> 'a phys_scheme" where
  "page_clone st p = set_refcount p (uadd (page_refcount st p) 1) st"

text \<open>\<open>fetch_sub\<close> returns the old value; the panic on 0 comes after the counter has wrapped.\<close>

definition page_drop :: "'a palloc_scheme \<Rightarrow> nat \<Rightarrow> 'a palloc_scheme res" where
  "page_drop st p =
     (let old = page_refcount st p;
          st = set_refcount p (usub old 1) st
      in if old = 0 then Inl Panic
         else if old = 1 then rassert (has_management_over st p) (global_dealloc st p)
         else Inr st)"

section \<open>The invariant\<close>

definition cpu_blocks :: "(node \<Rightarrow> nat list) \<Rightarrow> (nat \<times> nat) set" where
  "cpu_blocks G = {(p, k). k \<le> COSTLY_ORDER \<and> p \<in> set (G (CpuHead k))}"

definition page_inv ::
  "'a palloc_scheme \<Rightarrow> node set \<Rightarrow> (node \<Rightarrow> nat list) \<Rightarrow> (nat \<times> nat) set \<Rightarrow> nat set \<Rightarrow> (nat \<times> nat) set \<Rightarrow> bool"
where
  "page_inv st H G A M U \<longleftrightarrow> zone_inv st H G A M \<and> U \<union> cpu_blocks G \<subseteq> A \<and>
     (\<forall>k\<le>COSTLY_ORDER. CpuHead k \<in> H \<and>
        pc_free_areas st k = \<lparr>il_head = CpuHead k, il_count = length (G (CpuHead k))\<rparr>) \<and>
     (\<forall>p k. (p, k) \<in> cpu_blocks G \<longrightarrow> page_refcount st p = 1) \<and>
     (\<forall>p k. (p, k) \<in> U \<union> cpu_blocks G \<longrightarrow> k \<le> COSTLY_ORDER \<longrightarrow> page_has st p PF_LOCAL) \<and>
     (\<forall>p k. (p, k) \<in> U \<longrightarrow> 0 < page_refcount st p \<and> (\<forall>hn\<in>H. p \<notin> set (G hn)))"


lemma is_area_CpuHead [simp]: "\<not> is_area (CpuHead k)"
  by (simp add: is_area_def)

lemma fblocks_other: "\<not> is_area hn \<Longrightarrow> fblocks (G(hn := xs)) = fblocks G"
  by (auto simp: fblocks_def)

text \<open>Changing a list that is not an area, and reference counts and \<open>LOCAL\<close> flags of allocated
  blocks, keeps the invariant of the zone.\<close>

lemma zone_inv_relink:
  assumes inv: "zone_inv st H G A M" and hn: "hn \<in> H" "\<not> is_area hn" and xs: "set xs \<subseteq> fst ` A"
    and fam: "list_family is_list (ph_links st') H (\<lambda>h. map PageNode ((G(hn := xs)) h))"
    and same: "ph_area_count st' = ph_area_count st"
      "\<And>q. is_free st' q = is_free st q" "\<And>q. is_present st' q = is_present st q"
      "\<And>q. is_buddy st' q = is_buddy st q" "\<And>q. page_order st' q = page_order st q"
    and refs: "\<And>q. (\<And>k. (q, k) \<notin> A) \<Longrightarrow> page_refcount st' q = page_refcount st q"
  shows "zone_inv st' H (G(hn := xs)) A M"
proof -
  have core: "zone_core st H G A M {}" using inv by (simp add: zone_inv_def)
  note fb = fblocks_other [OF hn(2), of G xs]
  have "zone_core st' H (G(hn := xs)) A M {}"
  proof (rule zone_coreI)
    show "AreaHead k \<in> H \<and> ph_area_count st' k = length ((G(hn := xs)) (AreaHead k))"
      if "k \<le> MAX_ORDER" for k
      using zc_area [OF core that] zc_count [OF core that] hn(2) same(1) that by auto
    show "2 ^ k dvd p" if "(p, k) \<in> fblocks (G(hn := xs)) \<union> A" for p k
      using zc_dvd [OF core] that unfolding fb .
    show "set ((G(hn := xs)) h) \<subseteq> fst ` A" if "h \<in> H" "\<not> is_area h" for h
      using zc_other [OF core that] xs by auto
  qed (use zone_coreD [OF core] fam same refs in \<open>simp_all add: fb\<close>)
  with inv same show ?thesis by (simp add: zone_inv_def)
qed

lemma palloc_upd_frame [simp]:
  "page_has (st\<lparr>pc_free_areas := l\<rparr>) q a = page_has st q a"
  "page_order (st\<lparr>pc_free_areas := l\<rparr>) q = page_order st q"
  "page_refcount (st\<lparr>pc_free_areas := l\<rparr>) q = page_refcount st q"
  "pc_free_areas (page_set_flag p a st) = pc_free_areas st"
  "pc_free_areas (set_refcount p c st) = pc_free_areas st"
  "pc_batch (page_set_flag p a st) = pc_batch st"
  "pc_batch (set_refcount p c st) = pc_batch st"
  by (simp_all add: page_has_def page_order_def page_refcount_def page_set_flag_def
      set_refcount_def upd_page_def)

lemma page_invD:
  assumes "page_inv st H G A M U"
  shows pi_zone: "zone_inv st H G A M" and pi_core: "zone_core st H G A M {}"
    and pi_sub: "(p, k) \<in> U \<Longrightarrow> (p, k) \<in> A" "(p, k) \<in> cpu_blocks G \<Longrightarrow> (p, k) \<in> A"
    and pi_head: "k \<le> COSTLY_ORDER \<Longrightarrow> CpuHead k \<in> H"
    and pi_list: "k \<le> COSTLY_ORDER \<Longrightarrow>
      pc_free_areas st k = \<lparr>il_head = CpuHead k, il_count = length (G (CpuHead k))\<rparr>"
    and pi_cpu_ref: "(p, k) \<in> cpu_blocks G \<Longrightarrow> page_refcount st p = 1"
    and pi_local: "(p, k) \<in> U \<union> cpu_blocks G \<Longrightarrow> k \<le> COSTLY_ORDER \<Longrightarrow> page_has st p PF_LOCAL"
    and pi_ref: "(p, k) \<in> U \<Longrightarrow> 0 < page_refcount st p"
    and pi_free: "(p, k) \<in> U \<Longrightarrow> hn \<in> H \<Longrightarrow> p \<notin> set (G hn)"
  using assms by (auto simp: page_inv_def zone_inv_def)

lemma zone_core_unique_order:
  assumes "zone_core st H G A M X" and "(p, k) \<in> A" and "(p, j) \<in> A"
  shows "k = j"
  using blocks_disjointD [OF zc_disjoint [OF assms(1)], of p k p j p] assms(2,3) by simp

lemma page_inv_cong:
  assumes inv: "page_inv st H G A M U"
    and same: "ph_links st' = ph_links st" "ph_area_count st' = ph_area_count st"
      "pc_free_areas st' = pc_free_areas st" "\<And>q a. page_has st' q a = page_has st q a"
      "\<And>q. page_order st' q = page_order st q" "\<forall>q. page_refcount st' q = page_refcount st q"
  shows "page_inv st' H G A M U"
proof -
  have "zone_core st' H G A M {}"
    by (rule zone_core_cong [OF pi_core [OF inv]]) (simp_all add: same flag_ops)
  then have "zone_inv st' H G A M" using pi_zone [OF inv] by (simp add: zone_inv_def same flag_ops)
  then show ?thesis using inv by (simp add: page_inv_def same)
qed

lemma page_inv_give:
  assumes "page_inv st H G A M (insert b U)"
  shows "page_inv st H G A M U"
  using assms by (auto simp: page_inv_def)

text \<open>Lists of clients that hold pages of their own: neither an area nor a list of the cache.\<close>

definition client_head :: "node \<Rightarrow> bool" where
  "client_head hn \<longleftrightarrow> \<not> is_area hn \<and> (\<forall>k. hn \<noteq> CpuHead k)"

text \<open>What the allocation of pages leaves alone: shared data, the batch size and the fields of
  states that extend \<open>palloc\<close>.\<close>

definition client_rest :: "'a palloc_scheme \<Rightarrow> (nat \<Rightarrow> page_type) \<times> nat \<times> 'a" where
  "client_rest st = ((\<lambda>q. rp_data (ph_page st q)), pc_batch st, palloc.more st)"

lemma client_rest_step [simp]:
  "client_rest (page_set_flag p a st) = client_rest st" "client_rest (set_refcount p c st) = client_rest st"
  "client_rest (st\<lparr>ph_links := h\<rparr>) = client_rest st" "client_rest (st\<lparr>pc_free_areas := l\<rparr>) = client_rest st"
  by (auto simp: client_rest_def page_set_flag_def set_refcount_def upd_page_def)

lemma page_inv_relink:
  assumes inv: "page_inv st H G A M U" and hn: "hn \<in> H" "client_head hn"
    and xs: "\<And>p. p \<in> set xs \<Longrightarrow> \<exists>k. (p, k) \<in> A - U"
    and fam: "list_family is_list (ph_links st') H (\<lambda>h. map PageNode ((G(hn := xs)) h))"
    and same: "ph_page st' = ph_page st" "ph_area_count st' = ph_area_count st"
      "pc_free_areas st' = pc_free_areas st"
  shows "page_inv st' H (G(hn := xs)) A M U"
proof -
  have na: "\<not> is_area hn" "\<And>k. hn \<noteq> CpuHead k" using hn(2) by (auto simp: client_head_def)
  have obs: "page_has st' q a = page_has st q a" "page_order st' q = page_order st q"
    "page_refcount st' q = page_refcount st q" for q a
    using same by (simp_all add: page_has_def page_order_def page_refcount_def)
  have "set xs \<subseteq> fst ` A" using xs by force
  then have z: "zone_inv st' H (G(hn := xs)) A M"
    by (rule zone_inv_relink [OF pi_zone [OF inv] hn(1) na(1)]) (use fam same obs in \<open>simp_all add: flag_ops\<close>)
  have cb: "cpu_blocks (G(hn := xs)) = cpu_blocks G" using na(2) by (auto simp: cpu_blocks_def)
  have out: "q \<notin> set xs" if q: "(q, j) \<in> U" for q j
  proof
    assume "q \<in> set xs"
    then obtain k where k: "(q, k) \<in> A" "(q, k) \<notin> U" using xs by blast
    with zone_core_unique_order [OF pi_core [OF inv] k(1) pi_sub(1) [OF inv q]] q show False by simp
  qed
  show ?thesis unfolding page_inv_def
  proof (intro conjI)
    show "\<forall>q j. (q, j) \<in> U \<longrightarrow> 0 < page_refcount st' q \<and> (\<forall>h\<in>H. q \<notin> set ((G(hn := xs)) h))"
      using obs pi_ref [OF inv] pi_free [OF inv] out by auto
    show "\<forall>k\<le>COSTLY_ORDER. CpuHead k \<in> H \<and>
        pc_free_areas st' k = \<lparr>il_head = CpuHead k, il_count = length ((G(hn := xs)) (CpuHead k))\<rparr>"
      using pi_head [OF inv] pi_list [OF inv] same(3) na(2) by (metis fun_upd_apply)
  qed (use z inv cb obs in \<open>auto simp: page_inv_def\<close>)
qed

text \<open>\<open>insert_free_pages\<close> caches a block that is on no list and has reference count 1.\<close>

lemma insert_core:
  assumes inv: "page_inv st H G A M U" and k: "k \<le> COSTLY_ORDER" and p: "(p, k) \<in> A" "(p, k) \<notin> U"
    and lists: "\<And>hn. hn \<in> H \<Longrightarrow> p \<notin> set (G hn)"
    and one: "page_refcount st p = 1" and loc: "page_has st p PF_LOCAL"
  obtains st' where "percpu_insert_free_pages st p k = Inr st'"
    "page_inv st' H (G(CpuHead k := p # G (CpuHead k))) A M U" "client_rest st' = client_rest st"
    "\<forall>q. page_refcount st' q = page_refcount st q"
proof -
  let ?G = "G(CpuHead k := p # G (CpuHead k))"
  let ?h = "link_insert (ph_links st) (CpuHead k) (PageNode p)"
  let ?l = "\<lparr>il_head = CpuHead k, il_count = length (p # G (CpuHead k))\<rparr>"
  let ?st = "st\<lparr>ph_links := ?h, pc_free_areas := (pc_free_areas st)(k := ?l)\<rparr>"
  note core = pi_core [OF inv]
  have op: "percpu_insert_free_pages st p k = Inr ?st"
    using k pi_list [OF inv k] by (simp add: percpu_insert_free_pages_def ilist_insert_def get_link_def)
  have "list_family is_list ?h H
      ((\<lambda>hn. map PageNode (G hn))(CpuHead k := PageNode p # map PageNode (G (CpuHead k))))"
    by (rule il.family_insert [OF zc_family [OF core] pi_head [OF inv k] zc_head [OF core]])
      (use lists in auto)
  then have fam: "list_family is_list ?h H (\<lambda>hn. map PageNode (?G hn))"
    using family_map_upd [of G "CpuHead k" "p # G (CpuHead k)"] by simp
  have "set (p # G (CpuHead k)) \<subseteq> fst ` A"
    using p(1) zc_other [OF core pi_head [OF inv k]] by force
  then have z: "zone_inv ?st H ?G A M"
    by (rule zone_inv_relink [OF pi_zone [OF inv] pi_head [OF inv k] is_area_CpuHead])
      (use fam in \<open>simp_all add: flag_ops\<close>)
  have cb: "cpu_blocks ?G = insert (p, k) (cpu_blocks G)" using k by (auto simp: cpu_blocks_def)
  have ne: "q \<noteq> p" if "(q, j) \<in> U" for q j
    using that p zone_core_unique_order [OF core p(1), of j] pi_sub(1) [OF inv that] by auto
  have "page_inv ?st H ?G A M U" unfolding page_inv_def
  proof (intro conjI)
    show "zone_inv ?st H ?G A M" by (rule z)
    show "U \<union> cpu_blocks ?G \<subseteq> A" using cb p(1) inv by (auto simp: page_inv_def)
    show "\<forall>q j. (q, j) \<in> U \<longrightarrow> 0 < page_refcount ?st q \<and> (\<forall>hn\<in>H. q \<notin> set (?G hn))"
      using pi_ref [OF inv] pi_free [OF inv] ne by (simp, metis)
    show "\<forall>j\<le>COSTLY_ORDER. CpuHead j \<in> H \<and>
        pc_free_areas ?st j = \<lparr>il_head = CpuHead j, il_count = length (?G (CpuHead j))\<rparr>"
      using pi_head [OF inv] pi_list [OF inv] by auto
  qed (use cb one loc pi_cpu_ref [OF inv] pi_local [OF inv] in auto)
  with op that show ?thesis by simp
qed


lemma get_empty:
  assumes inv: "page_inv st H G A M U" and k: "k \<le> COSTLY_ORDER" and e: "G (CpuHead k) = []"
  shows "percpu_get_free_pages st k = Inr (st, None)"
proof -
  have "link_next (ph_links st) (CpuHead k) = None"
    using il.family_nxt [OF zc_family [OF pi_core [OF inv]] pi_head [OF inv k]] e by simp
  then show ?thesis
    using k pi_list [OF inv k] by (simp add: percpu_get_free_pages_def ilist_pop_def fun_upd_idem)
qed

text \<open>\<open>get_free_pages\<close> hands out the first cached block.\<close>

lemma get_cached:
  assumes inv: "page_inv st H G A M U" and k: "k \<le> COSTLY_ORDER" and g: "G (CpuHead k) = p # ps"
  obtains st' where "percpu_get_free_pages st k = Inr (st', Some p)"
    "page_inv st' H (G(CpuHead k := ps)) A M (insert (p, k) U)" "(p, k) \<notin> U" "page_refcount st' p = 1"
    "client_rest st' = client_rest st" "\<forall>q. page_refcount st' q = page_refcount st q"
proof -
  let ?G = "G(CpuHead k := ps)" and ?h = "link_remove (ph_links st) (PageNode p)"
  let ?l = "\<lparr>il_head = CpuHead k, il_count = length ps\<rparr>"
  let ?st = "st\<lparr>ph_links := ?h, pc_free_areas := (pc_free_areas st)(k := ?l)\<rparr>"
  note core = pi_core [OF inv] and head = pi_head [OF inv k]
  have nx: "link_next (ph_links st) (CpuHead k) = Some (PageNode p)"
    using il.family_nxt [OF zc_family [OF core] head] g by simp
  have op: "percpu_get_free_pages st k = Inr (?st, Some p)"
    using k pi_list [OF inv k] nx g
    by (simp add: percpu_get_free_pages_def ilist_pop_def udec_def)
  have "list_family is_list ?h H ((\<lambda>hn. map PageNode (G hn))(CpuHead k := map PageNode ps))"
    using il.family_remove [OF zc_family [OF core] head, of "PageNode p"] g by simp
  then have fam: "list_family is_list ?h H (\<lambda>hn. map PageNode (?G hn))" by (simp only: family_map_upd)
  have pc: "(p, k) \<in> cpu_blocks G" using k g by (simp add: cpu_blocks_def)
  have "set ps \<subseteq> fst ` A" using zc_other [OF core head] g by simp
  then have z: "zone_inv ?st H ?G A M"
    by (rule zone_inv_relink [OF pi_zone [OF inv] head is_area_CpuHead])
      (use fam in \<open>simp_all add: flag_ops\<close>)
  have d: "p \<notin> set ps" using il.family_distinct [OF zc_family [OF core] head] g by (auto simp: distinct_map)
  have other: "p \<notin> set (?G hn)" if "hn \<in> H" for hn
  proof (cases "hn = CpuHead k")
    case False
    then show ?thesis
      using il.family_disjoint [OF zc_family [OF core] head that, of "PageNode p"] g by auto
  qed (use d in simp)
  have cb: "cpu_blocks ?G \<subseteq> cpu_blocks G" using g by (auto simp: cpu_blocks_def)
  have pU: "(p, k) \<notin> U" using pi_free [OF inv _ head, of p k] g by auto
  have "page_inv ?st H ?G A M (insert (p, k) U)" unfolding page_inv_def
  proof (intro conjI)
    show "zone_inv ?st H ?G A M" by (rule z)
    show "insert (p, k) U \<union> cpu_blocks ?G \<subseteq> A"
      using cb pc inv unfolding page_inv_def by blast
    show "\<forall>q j. (q, j) \<in> insert (p, k) U \<longrightarrow>
        0 < page_refcount ?st q \<and> (\<forall>hn\<in>H. q \<notin> set (?G hn))"
    proof (intro allI impI conjI ballI)
      fix q j hn
      assume q: "(q, j) \<in> insert (p, k) U"
      show "0 < page_refcount ?st q" using q pi_ref [OF inv] pi_cpu_ref [OF inv pc] by auto
      show "q \<notin> set (?G hn)" if "hn \<in> H"
        using q other [OF that] pi_free [OF inv _ that] pi_free [OF inv _ head] g by auto
    qed
    show "\<forall>j\<le>COSTLY_ORDER. CpuHead j \<in> H \<and>
        pc_free_areas ?st j = \<lparr>il_head = CpuHead j, il_count = length (?G (CpuHead j))\<rparr>"
      using pi_head [OF inv] pi_list [OF inv] by auto
    show "\<forall>q j. (q, j) \<in> cpu_blocks ?G \<longrightarrow> page_refcount ?st q = 1"
      using cb pi_cpu_ref [OF inv] by auto
    show "\<forall>q j. (q, j) \<in> insert (p, k) U \<union> cpu_blocks ?G \<longrightarrow> j \<le> COSTLY_ORDER \<longrightarrow> page_has ?st q PF_LOCAL"
      using cb pc pi_local [OF inv] by auto
  qed
  moreover have "page_refcount ?st p = 1" using pi_cpu_ref [OF inv pc] by simp
  ultimately show ?thesis using that op pU by simp
qed

text \<open>A block taken from the buddy allocator, with its new state.\<close>

lemma phys_rest_palloc:
  assumes "phys_rest st' = phys_rest (st :: 'a palloc_scheme)"
  shows "page_has st' q PF_LOCAL = page_has st q PF_LOCAL"
    and "pc_free_areas st' = pc_free_areas st" and "client_rest st' = client_rest st"
  using assms by (cases st; cases st'; auto simp: phys_rest_def client_rest_def fun_eq_iff)+

lemma page_inv_transfer:
  assumes inv: "page_inv st H G A M U" and z: "zone_inv st' H G' A' M" and sub: "U \<union> cpu_blocks G \<subseteq> A'"
    and lists: "\<And>hn. \<not> is_area hn \<Longrightarrow> G' hn = G hn"
    and refs: "\<And>q j. (q, j) \<in> U \<union> cpu_blocks G \<Longrightarrow> page_refcount st' q = page_refcount st q"
    and rest: "phys_rest st' = phys_rest st"
  shows "page_inv st' H G' A' M U"
proof -
  have core: "zone_core st' H G' A' M {}" using z by (simp add: zone_inv_def)
  have cb: "cpu_blocks G' = cpu_blocks G" using lists by (auto simp: cpu_blocks_def)
  have out: "q \<notin> set (G' hn)" if q: "(q, j) \<in> U" and hn: "hn \<in> H" for q j hn
  proof (cases "is_area hn")
    case True
    moreover have "(q, j) \<in> A'" using q sub by blast
    ultimately show ?thesis
      using zone_core_alloc_not_fblock [OF core] by (auto simp: is_area_def fblocks_def)
  next
    case False
    then show ?thesis using lists pi_free [OF inv q hn] by simp
  qed
  show ?thesis unfolding page_inv_def
  proof (intro conjI)
    show "\<forall>q j. (q, j) \<in> U \<longrightarrow> 0 < page_refcount st' q \<and> (\<forall>hn\<in>H. q \<notin> set (G' hn))"
      using refs pi_ref [OF inv] out by (metis UnCI)
    show "\<forall>q j. (q, j) \<in> cpu_blocks G' \<longrightarrow> page_refcount st' q = 1"
      using refs pi_cpu_ref [OF inv] unfolding cb by (metis UnCI)
  qed (use pi_head [OF inv] pi_list [OF inv] pi_local [OF inv] phys_rest_palloc [OF rest] cb lists z sub
      in auto)
qed

lemma page_inv_buddy_alloc:
  assumes inv: "page_inv st H G A M U" and c: "k \<le> c" "c \<le> MAX_ORDER" "G (AreaHead c) \<noteq> []"
  obtains st' G' p where "buddy_alloc_order st k = Inr (st', Some p)"
    "page_inv st' H G' (insert (p, k) A) M U" "(p, k) \<notin> A" "page_refcount st' p = 1"
    "\<And>hn. hn \<in> H \<Longrightarrow> p \<notin> set (G' hn)" "client_rest st' = client_rest st"
    "\<And>hn. \<not> is_area hn \<Longrightarrow> G' hn = G hn" "\<forall>q j. (q, j) \<in> U \<longrightarrow> page_refcount st' q = page_refcount st q"
proof -
  obtain d p ps where d: "k \<le> d" "d \<le> MAX_ORDER" "G (AreaHead d) = p # ps"
    and least: "\<And>j. k \<le> j \<Longrightarrow> j < d \<Longrightarrow> G (AreaHead j) = []"
    using least_nonempty_area [of k c G] c by metis
  obtain st' G' where al: "buddy_alloc_order st k = Inr (st', Some p)"
    and z: "zone_inv st' H G' (insert (p, k) A) M" and new: "(p, k) \<notin> A" and one: "page_refcount st' p = 1"
    and refs: "\<And>q. q \<noteq> p \<Longrightarrow> page_refcount st' q = page_refcount st q"
    and lists: "\<And>hn. \<not> is_area hn \<Longrightarrow> G' hn = G hn"
    using alloc_order_Some [OF pi_zone [OF inv] d least] by metis
  note rest = phys_rest_palloc [OF phys_rest_alloc [OF al]]
  have core: "zone_core st' H G' (insert (p, k) A) M {}" using z by (simp add: zone_inv_def)
  have pA: "(p, j) \<notin> A" for j using zone_core_unique_order [OF core, of p k j] new by auto
  have out: "p \<notin> set (G' hn)" if "hn \<in> H" for hn
  proof (cases "is_area hn")
    case True
    then show ?thesis
      using zone_core_alloc_not_fblock [OF core, of p k] by (auto simp: is_area_def fblocks_def)
  next
    case False
    then show ?thesis using lists [OF False] zc_other [OF pi_core [OF inv] that] pA by force
  qed
  have ne: "q \<noteq> p" if "(q, j) \<in> U \<union> cpu_blocks G" for q j
    using that pi_sub [OF inv, of q j] pA [of j] by auto
  have "page_inv st' H G' (insert (p, k) A) M U"
    by (rule page_inv_transfer [OF inv z _ lists _ phys_rest_alloc [OF al]])
      (use inv refs ne in \<open>auto simp: page_inv_def\<close>)
  moreover have "\<forall>q j. (q, j) \<in> U \<longrightarrow> page_refcount st' q = page_refcount st q" using refs ne by blast
  ultimately show ?thesis by (intro that [OF al _ new one out rest(3) lists])
qed


section \<open>Allocation\<close>

lemma page_inv_set_local:
  assumes "page_inv st H G A M U"
  shows "page_inv (page_set_flag p PF_LOCAL st) H G A M U"
proof -
  have "zone_core (page_set_flag p PF_LOCAL st) H G A M {}"
    by (rule zone_core_cong [OF pi_core [OF assms]]) (simp_all add: flag_ops)
  then have "zone_inv (page_set_flag p PF_LOCAL st) H G A M"
    using pi_zone [OF assms] by (simp add: zone_inv_def flag_ops)
  then show ?thesis using assms by (auto simp: page_inv_def)
qed

lemma refill_core:
  assumes "page_inv st H G A M U" and "k \<le> COSTLY_ORDER"
  shows "\<exists>st' G' A'. percpu_refill st k n = Inr st' \<and> page_inv st' H G' A' M U \<and> A \<subseteq> A' \<and>
    length (G (CpuHead k)) \<le> length (G' (CpuHead k)) \<and>
    (0 < n \<and> (\<exists>c. k \<le> c \<and> c \<le> MAX_ORDER \<and> G (AreaHead c) \<noteq> []) \<longrightarrow> G' (CpuHead k) \<noteq> []) \<and>
    ((\<forall>c. k \<le> c \<and> c \<le> MAX_ORDER \<longrightarrow> G (AreaHead c) = []) \<longrightarrow> st' = st \<and> G' = G \<and> A' = A) \<and>
    client_rest st' = client_rest st \<and> (\<forall>hn. client_head hn \<longrightarrow> G' hn = G hn) \<and>
    (\<forall>q j. (q, j) \<in> U \<longrightarrow> page_refcount st' q = page_refcount st q)"
  using assms
proof (induction n arbitrary: st G A)
  case 0
  then show ?case by auto
next
  case (Suc n)
  note k = Suc.prems(2)
  show ?case
  proof (cases "\<exists>c. k \<le> c \<and> c \<le> MAX_ORDER \<and> G (AreaHead c) \<noteq> []")
    case False
    then have "buddy_alloc_order st k = Inr (st, None)"
      by (intro alloc_order_None [OF pi_zone [OF Suc.prems(1)]]) auto
    with False Suc.prems show ?thesis by auto
  next
    case True
    then obtain st1 G1 p where al: "buddy_alloc_order st k = Inr (st1, Some p)"
      and i1: "page_inv st1 H G1 (insert (p, k) A) M U" and new: "(p, k) \<notin> A" and one: "page_refcount st1 p = 1"
      and out: "\<And>hn. hn \<in> H \<Longrightarrow> p \<notin> set (G1 hn)" and same: "\<And>hn. \<not> is_area hn \<Longrightarrow> G1 hn = G hn"
      and r1: "client_rest st1 = client_rest st" and c1: "\<forall>q j. (q, j) \<in> U \<longrightarrow> page_refcount st1 q = page_refcount st q"
      using page_inv_buddy_alloc [OF Suc.prems(1)] by metis
    let ?st2 = "page_set_flag p PF_LOCAL st1" and ?G2 = "G1(CpuHead k := p # G1 (CpuHead k))"
    have pU: "(p, k) \<notin> U" using pi_sub(1) [OF Suc.prems(1)] new by blast
    obtain st3 where ins: "percpu_insert_free_pages ?st2 p k = Inr st3"
      and i3: "page_inv st3 H ?G2 (insert (p, k) A) M U" and r3: "client_rest st3 = client_rest st1"
      and c3: "\<forall>q. page_refcount st3 q = page_refcount st1 q"
      using insert_core [OF page_inv_set_local [OF i1] k _ pU out] one by force
    obtain st' G' A' where go: "percpu_refill st3 k n = Inr st'" "page_inv st' H G' A' M U"
      "insert (p, k) A \<subseteq> A'" and len: "length (?G2 (CpuHead k)) \<le> length (G' (CpuHead k))"
      and rest: "client_rest st' = client_rest st3 \<and> (\<forall>hn. client_head hn \<longrightarrow> G' hn = ?G2 hn) \<and>
        (\<forall>q j. (q, j) \<in> U \<longrightarrow> page_refcount st' q = page_refcount st3 q)"
      using Suc.IH [OF i3 k] by (elim exE conjE) (rule that, assumption+, (intro conjI, assumption+))
    note r' = conjunct1 [OF rest] and l' = rest [THEN conjunct2, THEN conjunct1, rule_format]
      and c' = rest [THEN conjunct2, THEN conjunct2, rule_format]
    note go
    moreover have "percpu_refill st k (Suc n) = percpu_refill st3 k n" using al ins by simp
    moreover have "G' (CpuHead k) \<noteq> []" "length (G (CpuHead k)) \<le> length (G' (CpuHead k))"
      using len same by auto
    moreover have "G' hn = G hn" if "client_head hn" for hn
      using l' [OF that] same [of hn] that by (auto simp: client_head_def)
    moreover have "client_rest st' = client_rest st" using r1 r3 r' by simp
    moreover have "page_refcount st' q = page_refcount st q" if "(q, j) \<in> U" for q j
      using c' [OF that] c3 c1 that by metis
    moreover have "A \<subseteq> A'" using calculation(3) by blast
    ultimately show ?thesis using True
      by (intro exI [of _ st'] exI [of _ G'] exI [of _ A']) (simp, blast)
  qed
qed

lemma batch_pos: "k \<le> COSTLY_ORDER \<Longrightarrow> 0 < drop_bit k BATCH_SIZE"
proof -
  assume "k \<le> COSTLY_ORDER"
  then have "k = 0 \<or> k = 1 \<or> k = 2 \<or> k = 3" by (auto simp: COSTLY_ORDER_def)
  then show ?thesis by (auto simp: BATCH_SIZE_def drop_bit_eq_div)
qed

text \<open>Whether a block of order at least \<open>k\<close> is left for \<open>alloc_order\<close>.\<close>

definition can_alloc :: "(node \<Rightarrow> nat list) \<Rightarrow> nat \<Rightarrow> bool" where
  "can_alloc G k \<longleftrightarrow> (\<exists>c\<in>{k..MAX_ORDER}. G (AreaHead c) \<noteq> []) \<or> (k \<le> COSTLY_ORDER \<and> G (CpuHead k) \<noteq> [])"

lemma percpu_alloc_core:
  assumes inv: "page_inv st H G A M U" and batch: "pc_batch st = BATCH_SIZE" and k: "k \<le> COSTLY_ORDER"
  shows "if can_alloc G k
    then \<exists>st' p G' A'. percpu_alloc_order st k = Inr (st', Some p) \<and> page_inv st' H G' A' M (insert (p, k) U) \<and>
      A \<subseteq> A' \<and> (p, k) \<notin> U \<and> page_refcount st' p = 1 \<and>
      client_rest st' = client_rest st \<and> (\<forall>hn. client_head hn \<longrightarrow> G' hn = G hn) \<and>
      (\<forall>q j. (q, j) \<in> U \<longrightarrow> page_refcount st' q = page_refcount st q)
    else percpu_alloc_order st k = Inr (st, None)"
proof (cases "G (CpuHead k)")
  case (Cons p ps)
  obtain st' where "percpu_get_free_pages st k = Inr (st', Some p)"
    "page_inv st' H (G(CpuHead k := ps)) A M (insert (p, k) U)" "(p, k) \<notin> U" "page_refcount st' p = 1"
    "client_rest st' = client_rest st" "\<forall>q. page_refcount st' q = page_refcount st q"
    by (rule get_cached [OF inv k Cons]) blast
  moreover have can: "can_alloc G k" using Cons k by (simp add: can_alloc_def)
  moreover have "(G(CpuHead k := ps)) hn = G hn" if "client_head hn" for hn
    using that by (auto simp: client_head_def)
  moreover have "percpu_alloc_order st k = Inr (st', Some p)"
    using k calculation(1) by (simp add: percpu_alloc_order_def)
  ultimately show ?thesis unfolding if_P [OF can] by blast
next
  case Nil
  let ?n = "drop_bit k (pc_batch st)"
  obtain st1 G1 A1 where re: "percpu_refill st k ?n = Inr st1" and i1: "page_inv st1 H G1 A1 M U"
    and sub: "A \<subseteq> A1"
    and some: "0 < ?n \<and> (\<exists>c. k \<le> c \<and> c \<le> MAX_ORDER \<and> G (AreaHead c) \<noteq> []) \<longrightarrow> G1 (CpuHead k) \<noteq> []"
    and none: "(\<forall>c. k \<le> c \<and> c \<le> MAX_ORDER \<longrightarrow> G (AreaHead c) = []) \<longrightarrow> st1 = st \<and> G1 = G"
    and r1: "client_rest st1 = client_rest st" and l1: "\<And>hn. client_head hn \<Longrightarrow> G1 hn = G hn"
    and c1: "\<forall>q j. (q, j) \<in> U \<longrightarrow> page_refcount st1 q = page_refcount st q"
    using refill_core [OF inv k, of ?n] by blast
  have op: "percpu_alloc_order st k = percpu_get_free_pages st1 k"
    using k get_empty [OF inv k Nil] re by (simp add: percpu_alloc_order_def Let_def)
  show ?thesis
  proof (cases "can_alloc G k")
    case True
    then have "G1 (CpuHead k) \<noteq> []" using some Nil batch_pos [OF k] batch by (auto simp: can_alloc_def)
    then obtain p ps where g1: "G1 (CpuHead k) = p # ps" by (meson neq_Nil_conv)
    obtain st' where g: "percpu_get_free_pages st1 k = Inr (st', Some p)"
      "page_inv st' H (G1(CpuHead k := ps)) A1 M (insert (p, k) U)" "(p, k) \<notin> U" "page_refcount st' p = 1"
      "client_rest st' = client_rest st1" and c: "\<forall>q. page_refcount st' q = page_refcount st1 q"
      by (rule get_cached [OF i1 k g1]) blast
    have "(G1(CpuHead k := ps)) hn = G hn" if "client_head hn" for hn
      using that l1 [OF that] by (auto simp: client_head_def)
    moreover have "page_refcount st' q = page_refcount st q" if "(q, j) \<in> U" for q j
      using c c1 that by metis
    moreover have "client_rest st' = client_rest st" using g(5) r1 by simp
    ultimately show ?thesis unfolding if_P [OF True] using op g sub by metis
  next
    case False
    then have "st1 = st" "G1 = G" using none by (auto simp: can_alloc_def)
    with False op get_empty [OF inv k Nil] show ?thesis by simp
  qed
qed


lemma global_alloc_core:
  assumes inv: "page_inv st H G A M U" and batch: "pc_batch st = BATCH_SIZE"
  shows "if can_alloc G k
    then \<exists>st' p G' A'. global_alloc_order st k = Inr (st', Some p) \<and> page_inv st' H G' A' M (insert (p, k) U) \<and>
      A \<subseteq> A' \<and> (p, k) \<notin> U \<and> page_refcount st' p = 1 \<and>
      client_rest st' = client_rest st \<and> (\<forall>hn. client_head hn \<longrightarrow> G' hn = G hn) \<and>
      (\<forall>q j. (q, j) \<in> U \<longrightarrow> page_refcount st' q = page_refcount st q)
    else global_alloc_order st k = Inr (st, None)"
proof (cases "k \<le> COSTLY_ORDER")
  case True
  then have "global_alloc_order st k = percpu_alloc_order st k" by (simp add: global_alloc_order_def)
  then show ?thesis using percpu_alloc_core [OF inv batch True] by (simp only:)
next
  case k: False
  show ?thesis
  proof (cases "can_alloc G k")
    case True
    then obtain c where c: "k \<le> c" "c \<le> MAX_ORDER" "G (AreaHead c) \<noteq> []" using k by (auto simp: can_alloc_def)
    obtain st' G' p where al: "buddy_alloc_order st k = Inr (st', Some p)"
      and i: "page_inv st' H G' (insert (p, k) A) M U" and new: "(p, k) \<notin> A" "page_refcount st' p = 1"
      and out: "\<And>hn. hn \<in> H \<Longrightarrow> p \<notin> set (G' hn)"
      and r': "client_rest st' = client_rest st" and l': "\<And>hn. \<not> is_area hn \<Longrightarrow> G' hn = G hn"
      and c': "\<forall>q j. (q, j) \<in> U \<longrightarrow> page_refcount st' q = page_refcount st q"
      using page_inv_buddy_alloc [OF inv c] by metis
    have "page_inv st' H G' (insert (p, k) A) M (insert (p, k) U)"
      using i k out new(2) by (auto simp: page_inv_def)
    moreover have "(p, k) \<notin> U" using pi_sub(1) [OF inv] new(1) by blast
    moreover have "global_alloc_order st k = Inr (st', Some p)" using al k by (simp add: global_alloc_order_def)
    moreover have "\<forall>hn. client_head hn \<longrightarrow> G' hn = G hn" using l' by (simp add: client_head_def)
    ultimately show ?thesis unfolding if_P [OF True] using new(2) r' c' by blast
  next
    case False
    then have "buddy_alloc_order st k = Inr (st, None)"
      by (intro alloc_order_None [OF pi_zone [OF inv]]) (auto simp: can_alloc_def)
    with False k show ?thesis by (simp add: global_alloc_order_def)
  qed
qed

section \<open>Deallocation\<close>

text \<open>Changing the reference count of a held block, and giving up holding it.\<close>

lemma zone_inv_set_refcount:
  assumes "zone_inv st H G A M" and "(p, k) \<in> A"
  shows "zone_inv (set_refcount p c st) H G A M"
proof -
  have core: "zone_core st H G A M {}" using assms(1) by (simp add: zone_inv_def)
  have "zone_core (set_refcount p c st) H G A M {}"
    by (rule zone_core_cong [OF core]) (use assms(2) in auto)
  then show ?thesis using assms(1) by (simp add: zone_inv_def)
qed

lemma page_inv_set_refcount:
  assumes inv: "page_inv st H G A M U" and p: "(p, k) \<in> U"
  shows "page_inv (set_refcount p c st) H G A M (U - {(p, k)})"
    and "0 < c \<Longrightarrow> page_inv (set_refcount p c st) H G A M U"
proof -
  have z: "zone_inv (set_refcount p c st) H G A M"
    by (rule zone_inv_set_refcount [OF pi_zone [OF inv] pi_sub(1) [OF inv p]])
  have ne: "q \<noteq> p" if "(q, j) \<in> cpu_blocks G" for q j
    using that pi_free [OF inv p pi_head [OF inv]] by (auto simp: cpu_blocks_def)
  have neU: "q \<noteq> p" if "(q, j) \<in> U - {(p, k)}" for q j
    using that p zone_core_unique_order [OF pi_core [OF inv], of p j k] pi_sub(1) [OF inv] by auto
  show "page_inv (set_refcount p c st) H G A M (U - {(p, k)})" unfolding page_inv_def
  proof (intro conjI)
    show "\<forall>q j. (q, j) \<in> U - {(p, k)} \<longrightarrow>
        0 < page_refcount (set_refcount p c st) q \<and> (\<forall>hn\<in>H. q \<notin> set (G hn))"
      using neU pi_ref [OF inv] pi_free [OF inv] by fastforce
    show "\<forall>q j. (q, j) \<in> cpu_blocks G \<longrightarrow> page_refcount (set_refcount p c st) q = 1"
      using ne pi_cpu_ref [OF inv] by (metis page_refcount_simps(4))
  qed (use z inv in \<open>auto simp: page_inv_def\<close>)
  show "page_inv (set_refcount p c st) H G A M U" if "0 < c" unfolding page_inv_def
  proof (intro conjI)
    show "\<forall>q j. (q, j) \<in> U \<longrightarrow>
        0 < page_refcount (set_refcount p c st) q \<and> (\<forall>hn\<in>H. q \<notin> set (G hn))"
      using that pi_ref [OF inv] pi_free [OF inv] by fastforce
    show "\<forall>q j. (q, j) \<in> cpu_blocks G \<longrightarrow> page_refcount (set_refcount p c st) q = 1"
      using ne pi_cpu_ref [OF inv] by (metis page_refcount_simps(4))
  qed (use z inv in \<open>auto simp: page_inv_def\<close>)
qed

lemma held_managed:
  assumes inv: "page_inv st H G A M U" and p: "(p, k) \<in> U"
  shows "has_management_over (set_refcount p c st) p" and "page_order st p = k" and "k \<le> MAX_ORDER"
proof -
  note pA = pi_sub(1) [OF inv p]
  have "\<not> is_free st p"
    using zc_is_free [OF pi_core [OF inv], of p] zone_core_alloc_not_fblock [OF pi_core [OF inv] pA] by auto
  moreover show "page_order st p = k" "k \<le> MAX_ORDER" using pi_zone [OF inv] pA by (auto simp: zone_inv_def)
  moreover have "is_buddy st p" using pi_zone [OF inv] pA by (auto simp: zone_inv_def)
  ultimately show "has_management_over (set_refcount p c st) p"
    using pi_local [OF inv, of p k] p
    by (cases "k \<le> COSTLY_ORDER") (auto simp: has_management_over_def buddy_has_management_over_def)
qed


text \<open>Dropping the last reference: a small block is cached, a large one goes back to the zone.\<close>

lemma drop_last:
  assumes inv: "page_inv st H G A M U" and p: "(p, k) \<in> U" and one: "page_refcount st p = 1"
  shows "\<exists>st' G' A'. page_drop st p = Inr st' \<and> page_inv st' H G' A' M (U - {(p, k)}) \<and>
    A' = (if k \<le> COSTLY_ORDER then A else A - {(p, k)}) \<and>
    (k \<le> COSTLY_ORDER \<longrightarrow> G' (CpuHead k) = p # G (CpuHead k))"
proof -
  let ?st = "set_refcount p 0 st" and ?U = "U - {(p, k)}"
  note held = held_managed [OF inv p] and i0 = page_inv_set_refcount(1) [OF inv p, of 0]
  have drop: "page_drop st p = global_dealloc ?st p"
    using one held(1) by (simp add: page_drop_def Let_def usub_def usize_mod_def)
  show ?thesis
  proof (cases "k \<le> COSTLY_ORDER")
    case k: True
    have i1: "page_inv (set_refcount p 1 ?st) H G A M ?U"
      using page_inv_set_refcount(1) [OF inv p, of 1] by (simp add: set_refcount_def upd_page_def)
    have "p \<notin> set (G hn)" if "hn \<in> H" for hn by (rule pi_free [OF inv p that])
    moreover have "page_has (set_refcount p 1 ?st) p PF_LOCAL" using pi_local [OF inv, of p k] p k by simp
    moreover have "(p, k) \<in> A" by (rule pi_sub(1) [OF inv p])
    ultimately obtain st' where "percpu_insert_free_pages (set_refcount p 1 ?st) p k = Inr st'"
      and "page_inv st' H (G(CpuHead k := p # G (CpuHead k))) A M ?U"
      using insert_core [OF i1 k, of p] by force
    moreover have "global_dealloc ?st p = percpu_insert_free_pages (set_refcount p 1 ?st) p k"
      using k held(2) by (simp add: global_dealloc_def percpu_free_pages_def)
    ultimately show ?thesis using drop k by auto
  next
    case k: False
    have A: "insert (p, k) (A - {(p, k)}) = A" using pi_sub(1) [OF inv p] by blast
    have z0: "zone_inv ?st H G (insert (p, k) (A - {(p, k)})) M" unfolding A by (rule pi_zone [OF i0])
    obtain st' G' where de: "buddy_dealloc ?st p = Inr st'" and z: "zone_inv st' H G' (A - {(p, k)}) M"
      and refs: "\<And>q. page_refcount st' q = page_refcount ?st q" and lists: "\<And>hn. \<not> is_area hn \<Longrightarrow> G' hn = G hn"
      by (rule dealloc_core [OF z0]) (use pi_free [OF inv p] in auto)
    have "?U \<union> cpu_blocks G \<subseteq> A - {(p, k)}"
      using pi_sub [OF inv] k by (auto simp: cpu_blocks_def)
    from page_inv_transfer [OF i0 z this lists _ phys_rest_dealloc [OF de]] refs
    have "page_inv st' H G' (A - {(p, k)}) M ?U" by blast
    then show ?thesis using drop de k held(2) by (auto simp: global_dealloc_def)
  qed
qed

section \<open>Properties of \<open>Page\<close>\<close>

text \<open>Two concrete states: a zone with one free block, and one whose block is held.\<close>

abbreviation sample_palloc :: palloc where "sample_palloc \<equiv> percpu_new (zone_new sample_pages)"

abbreviation palloc_heads :: "node set" where
  "palloc_heads \<equiv> AreaHead ` {..MAX_ORDER} \<union> CpuHead ` {..COSTLY_ORDER}"

lemma sample_palloc_inv: "zone_inv sample_palloc palloc_heads (\<lambda>_. []) {} {}"
  by (rule zone_new_inv)
    (auto simp: percpu_new_def phys.defs zone_new_def sample_pages_def pf_defs is_free_def page_has_def flags_has_def)

lemma sample_palloc_fresh [simp]: "fresh_page sample_palloc q"
  by (simp add: fresh_page_def is_present_def page_has_def flags_has_def pf_defs page_refcount_def
      page_order_def zone_new_def sample_pages_def percpu_new_def phys.defs)

definition sample_free :: palloc where
  "sample_free = area_add_pages (set_buddy 4 sample_palloc) 2 4"

definition sample_held :: palloc where
  "sample_held = set_refcount 4 1 (page_set_flag 4 PF_LOCAL (set_buddy 4 (set_order 4 2 sample_palloc)))"

lemma sample_pc [simp]:
  "pc_free_areas sample_free j = ilist_new (CpuHead j)" "pc_batch sample_free = BATCH_SIZE"
  "pc_free_areas sample_held j = ilist_new (CpuHead j)"
  by (simp_all add: sample_free_def sample_held_def area_add_pages_def Let_def set_free_def set_buddy_def
      set_order_def set_refcount_def page_set_flag_def upd_page_def percpu_new_def phys.defs)

lemma sample_free_page_inv:
  "page_inv sample_free palloc_heads ((\<lambda>_. [])(AreaHead 2 := [4])) {} (blk (4, 2)) {}"
proof -
  have "zone_inv sample_free palloc_heads ((\<lambda>_. [])(AreaHead 2 := [4])) {} (blk (4, 2))"
    using create_step [OF sample_palloc_inv, of 2 4] by (simp add: MAX_ORDER_def sample_free_def)
  then show ?thesis by (auto simp: page_inv_def cpu_blocks_def ilist_new_def)
qed

lemma sample_held_page_inv:
  "page_inv sample_held palloc_heads (\<lambda>_. []) {(4, 2)} (blk (4, 2)) {(4, 2)}"
proof -
  have core: "zone_core sample_palloc palloc_heads (\<lambda>_. []) {} {} {}"
    using sample_palloc_inv by (simp add: zone_inv_def)
  have "zone_core sample_palloc palloc_heads (\<lambda>_. []) {(4, 2)} (blk (4, 2)) {}"
    using grow_core(1) [OF core, of 2 4] by simp
  then have "zone_core sample_held palloc_heads (\<lambda>_. []) {(4, 2)} (blk (4, 2)) {}"
    by (rule zone_core_cong) (auto simp: sample_held_def fblocks_def, simp_all add: flag_ops)
  moreover have "page_order sample_held 4 = 2" "is_buddy sample_held 4" "page_has sample_held 4 PF_LOCAL"
    "page_refcount sample_held 4 = 1"
    by (simp_all add: sample_held_def flag_ops)
  ultimately show ?thesis
    by (auto simp: page_inv_def zone_inv_def cpu_blocks_def ilist_new_def MAX_ORDER_def)
qed

text \<open>C1: allocating a \<open>Page\<close> of order \<open>k\<close> succeeds exactly when a cached block of that order or a
  free block of at least that order is left (otherwise it panics with ``Out of memory''). The
  page has reference count 1 and its block differs from, and does not meet, every block that
  is held already; refilling the cache in batches keeps the invariant.\<close>

theorem page_alloc_correct:
  assumes "page_inv st H G A M U" and "pc_batch st = BATCH_SIZE"
  shows "if can_alloc G k
    then \<exists>st' p G' A'. page_alloc_order_in st k = Inr (st', p) \<and>
      page_inv st' H G' A' M (insert (p, k) U) \<and> A \<subseteq> A' \<and> (p, k) \<notin> U \<and> page_is_exclusive st' p \<and>
      (\<forall>b\<in>U. blk b \<inter> blk (p, k) = {})
    else page_alloc_order_in st k = Inl Panic"
proof (cases "can_alloc G k")
  case True
  then obtain st' p G' A' where al: "global_alloc_order st k = Inr (st', Some p)"
    and i: "page_inv st' H G' A' M (insert (p, k) U)" and new: "A \<subseteq> A'" "(p, k) \<notin> U" "page_refcount st' p = 1"
    using global_alloc_core [OF assms, of k] by auto
  have "blk b \<inter> blk (p, k) = {}" if b: "b \<in> U" for b
  proof -
    have "b \<noteq> (p, k)" "b \<in> A'" "(p, k) \<in> A'" using b new i by (auto simp: page_inv_def)
    then show ?thesis using zc_disjoint [OF pi_core [OF i]] unfolding blocks_disjoint_def by blast
  qed
  moreover have "page_alloc_order_in st k = Inr (st', p)"
    using al by (simp add: page_alloc_order_in_def unwrap_def)
  ultimately show ?thesis using True i new by (auto simp: page_is_exclusive_def)
next
  case False
  then show ?thesis
    using global_alloc_core [OF assms, of k] by (simp add: page_alloc_order_in_def unwrap_def)
qed

theorem page_alloc_correct_witness:
  "page_inv sample_free palloc_heads ((\<lambda>_. [])(AreaHead 2 := [4])) {} (blk (4, 2)) {} \<and>
   pc_batch sample_free = BATCH_SIZE \<and>
   (\<exists>st' p G' A'. page_alloc_order_in sample_free 0 = Inr (st', p) \<and>
      page_inv st' palloc_heads G' A' (blk (4, 2)) {(p, 0)} \<and> page_is_exclusive st' p)"
proof -
  have "can_alloc ((\<lambda>_. [])(AreaHead 2 := [4])) 0" by (auto simp: can_alloc_def MAX_ORDER_def)
  then show ?thesis
    using page_alloc_correct [OF sample_free_page_inv, of 0] sample_free_page_inv by auto
qed

text \<open>C2: \<open>Drop\<close> of a held \<open>Page\<close> never panics. While other references exist it only decrements
  the counter; the last drop gives the block back, after which it is no longer held.\<close>

theorem page_drop_correct:
  assumes "page_inv st H G A M U" and "(p, k) \<in> U" and "page_refcount st p < usize_mod"
  shows "\<exists>st' G' A'. page_drop st p = Inr st' \<and>
    (if page_refcount st p = 1
     then page_inv st' H G' A' M (U - {(p, k)}) \<and> A' = (if k \<le> COSTLY_ORDER then A else A - {(p, k)}) \<and>
       (k \<le> COSTLY_ORDER \<longrightarrow> G' (CpuHead k) = p # G (CpuHead k))
     else page_inv st' H G A M U \<and> page_refcount st' p = page_refcount st p - 1)"
proof (cases "page_refcount st p = 1")
  case True
  then show ?thesis using drop_last [OF assms(1,2) True] by (simp only: simp_thms if_True)
next
  case False
  let ?c = "page_refcount st p - 1"
  have pos: "0 < page_refcount st p" by (rule pi_ref [OF assms(1,2)])
  with False have c: "0 < ?c" by simp
  have "page_drop st p = Inr (set_refcount p ?c st)"
    using False pos assms(3) by (simp add: page_drop_def Let_def usub_eq)
  with False page_inv_set_refcount(2) [OF assms(1,2) c] show ?thesis by simp
qed


theorem page_drop_correct_witness:
  "page_inv sample_held palloc_heads (\<lambda>_. []) {(4, 2)} (blk (4, 2)) {(4, 2)} \<and>
   page_refcount sample_held 4 = 1 \<and>
   (\<exists>st' G'. page_drop sample_held 4 = Inr st' \<and> page_inv st' palloc_heads G' {(4, 2)} (blk (4, 2)) {} \<and>
      G' (CpuHead 2) = [4])"
proof -
  have one: "page_refcount sample_held 4 = 1" by (simp add: sample_held_def)
  then have "page_refcount sample_held 4 < usize_mod" by (simp add: usize_mod_def)
  then show ?thesis
    using page_drop_correct [OF sample_held_page_inv, of 4 2] one sample_held_page_inv
    by (auto simp: COSTLY_ORDER_def)
qed

lemma bit_length_gt: "n < 2 ^ bit_length n"
proof (induction n rule: bit_length.induct)
  case (1 n)
  then show ?case
  proof (cases "n = 0")
    case False
    with 1 have "n div 2 < 2 ^ bit_length (n div 2)" by simp
    with False show ?thesis by (simp add: bit_length.simps [of n] div_less_iff_less_mult mult.commute)
  qed (simp add: bit_length.simps)
qed

lemma bit_length_le: "0 < n \<Longrightarrow> 2 ^ (bit_length n - 1) \<le> n"
proof (induction n rule: bit_length.induct)
  case (1 n)
  show ?case
  proof (cases "n div 2 = 0")
    case True
    with 1(2) have "n = 1" by auto
    then show ?thesis by (simp add: bit_length.simps)
  next
    case False
    then have "2 ^ (bit_length (n div 2) - 1) \<le> n div 2" using 1 by simp
    moreover have "bit_length (n div 2) = Suc (bit_length (n div 2) - 1)"
      using False by (subst (1 2) bit_length.simps) simp
    ultimately show ?thesis
      using 1(2) by (subst bit_length.simps) (simp add: less_eq_div_iff_mult_less_eq,
        metis power_Suc2 mult.commute times_div_less_eq_dividend order_trans mult_le_mono1)
  qed
qed

lemma trailing_zeros_power: "k < w \<Longrightarrow> trailing_zeros_upto w (2 ^ k) = k"
  by (induction k arbitrary: w) (case_tac w; simp)+

lemma next_power_of_two_order:
  assumes "0 < n" and "n \<le> 2 ^ 63"
  obtains k where "next_power_of_two n = 2 ^ k" "trailing_zeros (next_power_of_two n) = k" "n \<le> 2 ^ k"
    "\<And>j. n \<le> 2 ^ j \<Longrightarrow> k \<le> j"
proof -
  define k where "k = (if n = 1 then 0 else bit_length (n - 1))"
  have le: "n \<le> 2 ^ k" using bit_length_gt [of "n - 1"] assms(1) by (auto simp: k_def)
  have least: "k \<le> j" if j: "n \<le> 2 ^ j" for j
  proof (rule ccontr)
    assume "\<not> k \<le> j"
    then have "k \<noteq> 0" "j \<le> k - 1" by auto
    then have ne: "n \<noteq> 1" by (auto simp: k_def)
    then have "2 ^ (k - 1) \<le> n - 1" using bit_length_le [of "n - 1"] assms(1) by (simp add: k_def)
    moreover have "(2 :: nat) ^ j \<le> 2 ^ (k - 1)" using \<open>j \<le> k - 1\<close> by (simp add: power_increasing)
    ultimately have "2 ^ j \<le> n - 1" by (rule order_trans [rotated])
    then show False using j assms(1) by linarith
  qed
  have k63: "k \<le> 63" by (rule least [OF assms(2)])
  then have "(2 :: nat) ^ k < 2 ^ 64" by (intro power_strict_increasing) simp_all
  then have "(2 :: nat) ^ k < usize_mod" by (simp add: usize_mod_def)
  then have "next_power_of_two n = 2 ^ k" using assms(1) by (auto simp: next_power_of_two_def k_def)
  then show ?thesis
    using k63 le least by (intro that [of k]) (simp_all add: trailing_zeros_def trailing_zeros_power)
qed

text \<open>C7: \<open>alloc_at_least\<close> asks the allocator for the least order whose block holds \<open>count\<close>
  pages.\<close>

theorem alloc_at_least_least_order:
  assumes "0 < count" and "count \<le> 2 ^ 63"
  shows "\<exists>k. global_alloc_at_least st count = global_alloc_order st k \<and> count \<le> 2 ^ k \<and>
    (\<forall>j. count \<le> 2 ^ j \<longrightarrow> k \<le> j)"
  using next_power_of_two_order [OF assms] by (metis global_alloc_at_least_def)

theorem alloc_at_least_least_order_witness:
  "\<exists>k. global_alloc_at_least sample_free 5 = global_alloc_order sample_free k \<and> 5 \<le> (2 :: nat) ^ k \<and>
    (\<forall>j. 5 \<le> (2 :: nat) ^ j \<longrightarrow> k \<le> j)"
  using alloc_at_least_least_order [of 5 sample_free] by simp

end
