(* ===== verification/Slab.thy ===== *)
theory Slab
  imports Page_Alloc
begin

unbundle bit_operations_syntax

text \<open>
  The slab allocator (\<open>crates/slab_allocator\<close>) and the global allocator built on it
  (\<open>src/kernel/mem/allocator.rs\<close>). A slab page is cut into slots of one size; the free slots form a
  chain through the first word of each slot. A cache keeps its pages on three intrusive lists:
  empty, partial and full ones.

  The state adds the memory words of slab pages and the nine caches to the page allocator.
  Addresses are kernel addresses of the direct map.
\<close>

section \<open>Operations\<close>

definition PHYS_OFFSET :: usize where "PHYS_OFFSET = 0xffffff0000000000"
definition KIMAGE_OFFSET :: usize where "KIMAGE_OFFSET = 0xffffffff00000000"

definition phys_as_ptr :: "usize \<Rightarrow> usize" where
  "phys_as_ptr paddr = uadd PHYS_OFFSET paddr"

definition phys_from_ptr :: "usize \<Rightarrow> usize res" where
  "phys_from_ptr addr =
     (if addr \<ge> KIMAGE_OFFSET then Inr (addr - KIMAGE_OFFSET)
      else rassert (addr \<ge> PHYS_OFFSET) (Inr (addr - PHYS_OFFSET)))"

definition real_page_ptr :: "nat \<Rightarrow> usize" where
  "real_page_ptr p = phys_as_ptr (paddr_of_pfn p)"

definition in_which :: "usize \<Rightarrow> nat res" where
  "in_which ptr = rmap pfn_of_paddr (phys_from_ptr ptr)"

text \<open>\<open>NonNull::new\<close>.\<close>

definition nonnull :: "usize \<Rightarrow> usize option" where
  "nonnull a = (if a = 0 then None else Some a)"

datatype slab_list = EmptyList | PartialList | FullList

record slab_cache =
  sc_empty_list :: "node ilist"
  sc_partial_list :: "node ilist"
  sc_full_list :: "node ilist"
  sc_object_size :: nat

record slab = palloc +
  sl_mem :: "usize \<Rightarrow> usize"
  sl_slabs :: "nat \<Rightarrow> slab_cache"

definition SLAB_CACHE_COUNT :: nat where "SLAB_CACHE_COUNT = 9"

fun slab_head :: "slab_list \<Rightarrow> nat \<Rightarrow> node" where
  "slab_head EmptyList i = SlabEmpty i"
| "slab_head PartialList i = SlabPartial i"
| "slab_head FullList i = SlabFull i"

fun cache_list :: "slab_cache \<Rightarrow> slab_list \<Rightarrow> node ilist" where
  "cache_list c EmptyList = sc_empty_list c"
| "cache_list c PartialList = sc_partial_list c"
| "cache_list c FullList = sc_full_list c"

fun cache_list_upd :: "slab_list \<Rightarrow> node ilist \<Rightarrow> slab_cache \<Rightarrow> slab_cache" where
  "cache_list_upd EmptyList l c = c\<lparr>sc_empty_list := l\<rparr>"
| "cache_list_upd PartialList l c = c\<lparr>sc_partial_list := l\<rparr>"
| "cache_list_upd FullList l c = c\<lparr>sc_full_list := l\<rparr>"

definition cache_new_in :: "nat \<Rightarrow> nat \<Rightarrow> slab_cache" where
  "cache_new_in i object_size =
     \<lparr>sc_empty_list = ilist_new (SlabEmpty i), sc_partial_list = ilist_new (SlabPartial i),
      sc_full_list = ilist_new (SlabFull i), sc_object_size = object_size\<rparr>"

text \<open>\<open>SlabAllocator::new_in\<close>; the memory is whatever it was. The assertion is that of
  \<open>SlabCache::new_in\<close>, for each cache.\<close>

definition slab_new_in :: "(usize \<Rightarrow> usize) \<Rightarrow> palloc \<Rightarrow> slab res" where
  "slab_new_in mem st =
     rassert (\<forall>i\<in>set [0..<SLAB_CACHE_COUNT]. push_bit (i + 3) 1 \<le> PAGE_SIZE div 2)
       (Inr (palloc.extend st \<lparr>sl_mem = mem, sl_slabs = (\<lambda>i. cache_new_in i (push_bit (i + 3) 1))\<rparr>))"

text \<open>\<open>shared_data.slab_data()\<close> panics on a page of another type.\<close>

fun slab_data :: "page_type \<Rightarrow> (nat \<times> usize option) res" where
  "slab_data (Slab c f) = Inr (c, f)"
| "slab_data _ = Inl Panic"

definition slab_set :: "nat \<Rightarrow> nat \<Rightarrow> usize option \<Rightarrow> 'a slab_scheme \<Rightarrow> 'a slab_scheme" where
  "slab_set p c f = upd_page p (\<lambda>r. r\<lparr>rp_data := Slab c f\<rparr>)"

definition alloc_slot :: "'a slab_scheme \<Rightarrow> nat \<Rightarrow> ('a slab_scheme \<times> usize) res" where
  "alloc_slot st p =
     rbind (slab_data (rp_data (ph_page st p))) (\<lambda>(c, next_free).
       case next_free of
         None \<Rightarrow> Inl Panic
       | Some ptr \<Rightarrow> Inr (slab_set p ((c + 1) mod 2 ^ 32) (nonnull (sl_mem st ptr)) st, ptr))"

definition dealloc_slot :: "'a slab_scheme \<Rightarrow> nat \<Rightarrow> usize \<Rightarrow> 'a slab_scheme res" where
  "dealloc_slot st p slot_ptr =
     rbind (slab_data (rp_data (ph_page st p))) (\<lambda>(c, next_free).
       let w = (case next_free of Some last_free \<Rightarrow> last_free | None \<Rightarrow> 0);
           st = st\<lparr>sl_mem := (sl_mem st)(slot_ptr := w)\<rparr>
       in Inr (slab_set p ((c + 2 ^ 32 - 1) mod 2 ^ 32) (nonnull slot_ptr) st))"

text \<open>The loop of \<open>slab_page_init\<close>; the counter is the number of slots that follow.\<close>

fun slab_page_init_loop :: "(usize \<Rightarrow> usize) \<Rightarrow> usize \<Rightarrow> nat \<Rightarrow> nat \<Rightarrow> (usize \<Rightarrow> usize)" where
  "slab_page_init_loop mem slot_ptr object_size 0 = mem(slot_ptr := 0)"
| "slab_page_init_loop mem slot_ptr object_size (Suc n) =
     (let next_ptr = slot_ptr + object_size
      in slab_page_init_loop (mem(slot_ptr := next_ptr)) next_ptr object_size n)"

definition slab_page_init :: "'a slab_scheme \<Rightarrow> nat \<Rightarrow> nat \<Rightarrow> ('a slab_scheme \<times> usize option) res" where
  "slab_page_init st p object_size =
     rassert (object_size \<ge> 8) (
       let first_free = real_page_ptr p;
           slot_count = PAGE_SIZE div object_size
       in Inr (st\<lparr>sl_mem := slab_page_init_loop (sl_mem st) first_free object_size (slot_count - 1)\<rparr>,
               nonnull first_free))"

definition slab_init :: "nat \<Rightarrow> usize option \<Rightarrow> 'a slab_scheme \<Rightarrow> 'a slab_scheme" where
  "slab_init p first_free = slab_set p 0 first_free"

definition page_is_empty :: "'a slab_scheme \<Rightarrow> nat \<Rightarrow> bool res" where
  "page_is_empty st p = rmap (\<lambda>(c, f). c = 0) (slab_data (rp_data (ph_page st p)))"

definition page_is_full :: "'a slab_scheme \<Rightarrow> nat \<Rightarrow> bool res" where
  "page_is_full st p = rmap (\<lambda>(c, f). f = None) (slab_data (rp_data (ph_page st p)))"

text \<open>\<open>List::insert\<close> and \<open>List::remove\<close> on one of the lists of the cache \<open>i\<close>.\<close>

definition list_insert :: "nat \<Rightarrow> slab_list \<Rightarrow> nat \<Rightarrow> 'a slab_scheme \<Rightarrow> 'a slab_scheme" where
  "list_insert i sel p st =
     (let c = sl_slabs st i; (h, l) = ilist_insert (ph_links st) (cache_list c sel) (get_link p)
      in st\<lparr>ph_links := h, sl_slabs := (sl_slabs st)(i := cache_list_upd sel l c)\<rparr>)"

definition list_remove :: "nat \<Rightarrow> slab_list \<Rightarrow> nat \<Rightarrow> 'a slab_scheme \<Rightarrow> 'a slab_scheme" where
  "list_remove i sel p st =
     (let c = sl_slabs st i; (h, l) = ilist_remove (ph_links st) (cache_list c sel) (get_link p)
      in st\<lparr>ph_links := h, sl_slabs := (sl_slabs st)(i := cache_list_upd sel l c)\<rparr>)"

definition list_head :: "'a slab_scheme \<Rightarrow> nat \<Rightarrow> slab_list \<Rightarrow> nat res" where
  "list_head st i sel =
     rbind (unwrap (ilist_first (ph_links st) (cache_list (sl_slabs st i) sel))) from_link"

definition cache_alloc :: "'a slab_scheme \<Rightarrow> nat \<Rightarrow> ('a slab_scheme \<times> usize) res" where
  "cache_alloc st i =
     (if \<not> ilist_is_empty (cache_list (sl_slabs st i) PartialList) then
        rbind (list_head st i PartialList) (\<lambda>page_ptr.
        rbind (alloc_slot st page_ptr) (\<lambda>(st, ptr).
        rbind (page_is_full st page_ptr) (\<lambda>full.
          Inr (if full then list_insert i FullList page_ptr (list_remove i PartialList page_ptr st) else st,
               ptr))))
      else if \<not> ilist_is_empty (cache_list (sl_slabs st i) EmptyList) then
        rbind (list_head st i EmptyList) (\<lambda>page_ptr.
        rbind (alloc_slot st page_ptr) (\<lambda>(st, ptr).
          Inr (list_insert i PartialList page_ptr (list_remove i EmptyList page_ptr st), ptr)))
      else
        rbind (global_alloc_order st 0) (\<lambda>(st, page).
        rbind (unwrap page) (\<lambda>new_page_ptr.
        rbind (slab_page_init st new_page_ptr (sc_object_size (sl_slabs st i))) (\<lambda>(st, first_free).
        rbind (alloc_slot (slab_init new_page_ptr first_free st) new_page_ptr) (\<lambda>(st, ptr).
          Inr (list_insert i PartialList new_page_ptr st, ptr))))))"

definition cache_dealloc :: "'a slab_scheme \<Rightarrow> nat \<Rightarrow> usize \<Rightarrow> 'a slab_scheme res" where
  "cache_dealloc st i ptr =
     rbind (in_which ptr) (\<lambda>page_ptr.
     rbind (page_is_full st page_ptr) (\<lambda>full.
       let st = (if full then list_insert i PartialList page_ptr (list_remove i FullList page_ptr st) else st)
       in rbind (dealloc_slot st page_ptr ptr) (\<lambda>st.
          rbind (page_is_empty st page_ptr) (\<lambda>empty.
            Inr (if empty then list_insert i EmptyList page_ptr (list_remove i PartialList page_ptr st)
                 else st)))))"

text \<open>\<open>SlabAllocator\<close>: the index of the cache for a size; indexing panics from 9 on.\<close>

definition slab_index :: "usize \<Rightarrow> nat" where
  "slab_index sz = trailing_zeros (next_power_of_two (max 8 sz)) - 3"

definition slab_alloc :: "'a slab_scheme \<Rightarrow> usize \<Rightarrow> ('a slab_scheme \<times> usize) res" where
  "slab_alloc st sz = rassert (slab_index sz < SLAB_CACHE_COUNT) (cache_alloc st (slab_index sz))"

definition slab_dealloc :: "'a slab_scheme \<Rightarrow> usize \<Rightarrow> usize \<Rightarrow> 'a slab_scheme res" where
  "slab_dealloc st ptr sz = rassert (slab_index sz < SLAB_CACHE_COUNT) (cache_dealloc st (slab_index sz) ptr)"

text \<open>The kernel's \<open>GlobalAlloc\<close>; \<open>Page::from_raw\<close> in \<open>dealloc\<close> is dropped at once.\<close>

definition kernel_alloc :: "'a slab_scheme \<Rightarrow> usize \<Rightarrow> ('a slab_scheme \<times> usize) res" where
  "kernel_alloc st layout_size =
     (let sz = next_power_of_two layout_size
      in if sz \<le> 2048 then slab_alloc st sz
         else rbind (page_alloc_at_least_in st (drop_bit PAGE_SIZE_BITS sz)) (\<lambda>(st, page).
                Inr (st, real_page_ptr page)))"

definition kernel_dealloc :: "'a slab_scheme \<Rightarrow> usize \<Rightarrow> usize \<Rightarrow> 'a slab_scheme res" where
  "kernel_dealloc st ptr layout_size =
     (let sz = next_power_of_two layout_size
      in if sz \<le> 2048 then slab_dealloc st ptr sz
         else rbind (in_which ptr) (\<lambda>pfn.
              rbind (page_from_raw_in st pfn) (\<lambda>page. page_drop st page)))"

section \<open>The invariant\<close>

definition osize :: "nat \<Rightarrow> nat" where "osize i = 2 ^ (i + 3)"

definition nslots :: "nat \<Rightarrow> nat" where "nslots i = 4096 div osize i"

text \<open>The addresses of the slots of a page of the cache \<open>i\<close>.\<close>

definition slot_addrs :: "nat \<Rightarrow> nat \<Rightarrow> usize set" where
  "slot_addrs i p = (\<lambda>j. real_page_ptr p + j * osize i) ` {..<nslots i}"

text \<open>The chain of free slots that starts at \<open>f\<close>.\<close>

fun chain :: "(usize \<Rightarrow> usize) \<Rightarrow> usize option \<Rightarrow> usize list \<Rightarrow> bool" where
  "chain mem f [] \<longleftrightarrow> f = None"
| "chain mem f (a # as) \<longleftrightarrow> f = Some a \<and> a \<noteq> 0 \<and> chain mem (nonnull (mem a)) as"

definition slab_page_ok :: "'a slab_scheme \<Rightarrow> nat \<Rightarrow> nat \<Rightarrow> usize list \<Rightarrow> bool" where
  "slab_page_ok st i p fs \<longleftrightarrow> distinct fs \<and> set fs \<subseteq> slot_addrs i p \<and>
     (\<exists>c f. rp_data (ph_page st p) = Slab c f \<and> chain (sl_mem st) f fs \<and> c + length fs = nslots i)"

fun list_kind_ok :: "slab_list \<Rightarrow> nat \<Rightarrow> nat \<Rightarrow> bool" where
  "list_kind_ok EmptyList i n \<longleftrightarrow> n = nslots i"
| "list_kind_ok PartialList i n \<longleftrightarrow> 0 < n \<and> n < nslots i"
| "list_kind_ok FullList i n \<longleftrightarrow> n = 0"

text \<open>The lists of the caches, and then what the pages on them look like: \<open>F p\<close> are the free slots
  of the page \<open>p\<close> in the order of its chain. Memory ends at 128 GiB, as the linear map does.\<close>

definition slab_lists ::
  "'a slab_scheme \<Rightarrow> node set \<Rightarrow> (node \<Rightarrow> nat list) \<Rightarrow> (nat \<times> nat) set \<Rightarrow> nat set \<Rightarrow> (nat \<times> nat) set \<Rightarrow> bool"
where
  "slab_lists st H G A M U \<longleftrightarrow> page_inv st H G A M U \<and> pc_batch st = BATCH_SIZE \<and>
     (\<forall>p\<in>M. p < 2 ^ 25) \<and>
     (\<forall>i<SLAB_CACHE_COUNT. sc_object_size (sl_slabs st i) = osize i \<and>
        (\<forall>sel. slab_head sel i \<in> H \<and>
           cache_list (sl_slabs st i) sel
             = \<lparr>il_head = slab_head sel i, il_count = length (G (slab_head sel i))\<rparr> \<and>
           (\<forall>p\<in>set (G (slab_head sel i)). (p, 0) \<in> A - U)))"

definition slab_pages_ok :: "'a slab_scheme \<Rightarrow> (node \<Rightarrow> nat list) \<Rightarrow> (nat \<Rightarrow> usize list) \<Rightarrow> bool" where
  "slab_pages_ok st G F \<longleftrightarrow>
     (\<forall>i<SLAB_CACHE_COUNT. \<forall>sel. \<forall>p\<in>set (G (slab_head sel i)).
        slab_page_ok st i p (F p) \<and> list_kind_ok sel i (length (F p)))"

lemma slab_pages_okD:
  assumes "slab_pages_ok st G F" and "i < SLAB_CACHE_COUNT" and "p \<in> set (G (slab_head sel i))"
  shows "slab_page_ok st i p (F p)" and "list_kind_ok sel i (length (F p))"
  using assms unfolding slab_pages_ok_def by blast+

definition slab_inv ::
  "'a slab_scheme \<Rightarrow> node set \<Rightarrow> (node \<Rightarrow> nat list) \<Rightarrow> (nat \<times> nat) set \<Rightarrow> nat set \<Rightarrow> (nat \<times> nat) set \<Rightarrow>
   (nat \<Rightarrow> usize list) \<Rightarrow> bool"
where
  "slab_inv st H G A M U F \<longleftrightarrow> slab_lists st H G A M U \<and> slab_pages_ok st G F"

text \<open>The objects that are allocated from the cache \<open>i\<close>.\<close>

definition live :: "(node \<Rightarrow> nat list) \<Rightarrow> (nat \<Rightarrow> usize list) \<Rightarrow> nat \<Rightarrow> usize set" where
  "live G F i = {a. \<exists>sel. \<exists>p\<in>set (G (slab_head sel i)). a \<in> slot_addrs i p \<and> a \<notin> set (F p)}"

subsection \<open>Addresses\<close>

lemma real_page_ptr_eq:
  assumes "p < 2 ^ 25"
  shows "real_page_ptr p = PHYS_OFFSET + p * 4096"
proof -
  have "p * 4096 < 2 ^ 25 * 4096" using assms by simp
  then have "p * 4096 < usize_mod" "PHYS_OFFSET + p * 4096 < usize_mod"
    by (simp_all add: usize_mod_def PHYS_OFFSET_def)
  then show ?thesis
    by (simp add: real_page_ptr_def phys_as_ptr_def paddr_of_pfn_def push_bit_eq_mult uadd_eq)
qed

lemma nslots_bounds:
  assumes "i < SLAB_CACHE_COUNT"
  shows "2 \<le> nslots i" and "nslots i * osize i = 4096" and "8 \<le> osize i" and "nslots i \<le> 512"
proof -
  have "i = 0 \<or> i = 1 \<or> i = 2 \<or> i = 3 \<or> i = 4 \<or> i = 5 \<or> i = 6 \<or> i = 7 \<or> i = 8"
    using assms by (auto simp: SLAB_CACHE_COUNT_def)
  then show "2 \<le> nslots i" "nslots i * osize i = 4096" "8 \<le> osize i" "nslots i \<le> 512"
    by (auto simp: nslots_def osize_def)
qed

lemma slot_addrs_bounds:
  assumes "a \<in> slot_addrs i p" and "i < SLAB_CACHE_COUNT"
  shows "real_page_ptr p \<le> a" and "a + osize i \<le> real_page_ptr p + 4096"
    and "osize i dvd (a - real_page_ptr p)"
proof -
  obtain j where j: "j < nslots i" "a = real_page_ptr p + j * osize i" using assms(1) by (auto simp: slot_addrs_def)
  have "(j + 1) * osize i \<le> nslots i * osize i" using j(1) by (intro mult_le_mono1) simp
  then show "real_page_ptr p \<le> a" "a + osize i \<le> real_page_ptr p + 4096" "osize i dvd (a - real_page_ptr p)"
    using j nslots_bounds(2) [OF assms(2)] by simp_all
qed

lemma in_which_slot:
  assumes "a \<in> slot_addrs i p" and "i < SLAB_CACHE_COUNT" and "p < 2 ^ 25"
  shows "in_which a = Inr p"
proof -
  note b = slot_addrs_bounds [OF assms(1,2)] nslots_bounds(3) [OF assms(2)]
  have r: "real_page_ptr p = PHYS_OFFSET + p * 4096" by (rule real_page_ptr_eq [OF assms(3)])
  define d where "d = a - real_page_ptr p"
  have d: "a = PHYS_OFFSET + p * 4096 + d" "d < 4096" using b r by (auto simp: d_def)
  have "p * 4096 + 4096 \<le> 2 ^ 25 * 4096" using assms(3) by simp
  then have "a < KIMAGE_OFFSET" using d by (simp add: KIMAGE_OFFSET_def PHYS_OFFSET_def)
  moreover have "drop_bit 12 (p * 4096 + d) = p" using d(2) by (simp add: drop_bit_eq_div)
  ultimately show ?thesis
    using d(1) by (simp add: in_which_def phys_from_ptr_def pfn_of_paddr_def PAGE_SIZE_BITS_def rmap_def)
qed

lemma slot_addrs_disjoint:
  assumes "a \<in> slot_addrs i p" "b \<in> slot_addrs j q" and "i < SLAB_CACHE_COUNT" "j < SLAB_CACHE_COUNT"
    and "p < 2 ^ 25" "q < 2 ^ 25" and "p \<noteq> q"
  shows "{a..<a + osize i} \<inter> {b..<b + osize j} = {}"
proof -
  have A: "{a..<a + osize i} \<subseteq> {PHYS_OFFSET + p * 4096..<PHYS_OFFSET + p * 4096 + 4096}"
    using slot_addrs_bounds [OF assms(1,3)] real_page_ptr_eq [OF assms(5)] by auto
  have B: "{b..<b + osize j} \<subseteq> {PHYS_OFFSET + q * 4096..<PHYS_OFFSET + q * 4096 + 4096}"
    using slot_addrs_bounds [OF assms(2,4)] real_page_ptr_eq [OF assms(6)] by auto
  have "p + 1 \<le> q \<or> q + 1 \<le> p" using assms(7) by linarith
  then have "p * 4096 + 4096 \<le> q * 4096 \<or> q * 4096 + 4096 \<le> p * 4096" by linarith
  then have "{PHYS_OFFSET + p * 4096..<PHYS_OFFSET + p * 4096 + 4096} \<inter>
      {PHYS_OFFSET + q * 4096..<PHYS_OFFSET + q * 4096 + 4096} = {}"
    by auto
  with A B show ?thesis by blast
qed

subsection \<open>The lists\<close>

lemma slab_head_inject [simp]: "slab_head s i = slab_head t j \<longleftrightarrow> s = t \<and> i = j"
  by (cases s; cases t) auto

lemma client_slab_head [simp]: "client_head (slab_head sel i)"
  by (cases sel) (auto simp: client_head_def is_area_def)

lemma slab_head_not_area [simp]: "\<not> is_area (slab_head sel i)" "slab_head sel i \<noteq> CpuHead k"
  "slab_head sel i \<noteq> AreaHead k"
  by (cases sel; simp add: is_area_def)+

lemma cache_list_upd_simps [simp]:
  "cache_list (cache_list_upd s l c) t = (if s = t then l else cache_list c t)"
  "sc_object_size (cache_list_upd s l c) = sc_object_size c"
  by (cases s; cases t; simp)+

lemma slab_listsD:
  assumes "slab_lists st H G A M U" and "i < SLAB_CACHE_COUNT"
  shows sl_head: "slab_head sel i \<in> H"
    and sl_list: "cache_list (sl_slabs st i) sel = \<lparr>il_head = slab_head sel i, il_count = length (G (slab_head sel i))\<rparr>"
    and sl_owned: "p \<in> set (G (slab_head sel i)) \<Longrightarrow> (p, 0) \<in> A \<and> (p, 0) \<notin> U"
    and sl_osize: "sc_object_size (sl_slabs st i) = osize i"
  using assms by (auto simp: slab_lists_def)

lemma sl_page: "slab_lists st H G A M U \<Longrightarrow> page_inv st H G A M U"
  by (simp add: slab_lists_def)

lemma sl_frame:
  assumes "slab_lists st H G A M U" and "i < SLAB_CACHE_COUNT" and "p \<in> set (G (slab_head sel i))"
  shows "p < 2 ^ 25"
proof -
  have "(p, 0) \<in> A" using sl_owned [OF assms] by simp
  then have "p \<in> M" using zone_core_in_M [OF pi_core [OF sl_page [OF assms(1)]], of "(p, 0)"] blk_mem by blast
  then show ?thesis using assms(1) by (simp add: slab_lists_def)
qed

lemma slab_upd_frame [simp]:
  "ph_page (st\<lparr>sl_slabs := c\<rparr>) = ph_page st" "ph_links (st\<lparr>sl_slabs := c\<rparr>) = ph_links st"
  "ph_area_count (st\<lparr>sl_slabs := c\<rparr>) = ph_area_count st"
  "pc_free_areas (st\<lparr>sl_slabs := c\<rparr>) = pc_free_areas st"
  by simp_all

lemma list_remove_core:
  assumes inv: "slab_lists st H G A M U" and i: "i < SLAB_CACHE_COUNT" and p: "p \<in> set (G (slab_head sel i))"
  shows "slab_lists (list_remove i sel p st) H (G(slab_head sel i := remove1 p (G (slab_head sel i)))) A M U"
proof -
  let ?hn = "slab_head sel i"
  let ?G = "G(?hn := remove1 p (G ?hn))" and ?h = "link_remove (ph_links st) (PageNode p)"
  let ?c = "cache_list_upd sel \<lparr>il_head = ?hn, il_count = length (G ?hn) - 1\<rparr> (sl_slabs st i)"
  have ne: "length (G ?hn) \<noteq> 0" using p by auto
  have st: "list_remove i sel p st = st\<lparr>ph_links := ?h, sl_slabs := (sl_slabs st)(i := ?c)\<rparr>"
    using sl_list [OF inv i, of sel] ne by (simp add: list_remove_def ilist_remove_def get_link_def udec_def)
  note pinv = sl_page [OF inv]
  have inj: "remove1 (PageNode p) (map PageNode xs) = map PageNode (remove1 p xs)" for xs
    by (induction xs) auto
  have "list_family is_list ?h H ((\<lambda>hn. map PageNode (G hn))(?hn := map PageNode (remove1 p (G ?hn))))"
    using il.family_remove [OF zc_family [OF pi_core [OF pinv]] sl_head [OF inv i], of "PageNode p" sel] p
    by (simp add: inj)
  then have fam: "list_family is_list ?h H (\<lambda>hn. map PageNode (?G hn))" by (simp only: family_map_upd)
  have sub: "set (remove1 p (G ?hn)) \<subseteq> set (G ?hn)" by (rule set_remove1_subset)
  have pi: "page_inv (list_remove i sel p st) H ?G A M U"
    by (rule page_inv_relink [OF pinv sl_head [OF inv i] client_slab_head])
      (use fam sub sl_owned [OF inv i] in \<open>auto simp: st\<close>)
  have "sc_object_size (sl_slabs (list_remove i sel p st) j) = osize j \<and>
      (\<forall>t. slab_head t j \<in> H \<and> cache_list (sl_slabs (list_remove i sel p st) j) t
         = \<lparr>il_head = slab_head t j, il_count = length (?G (slab_head t j))\<rparr> \<and>
       (\<forall>q\<in>set (?G (slab_head t j)). (q, 0) \<in> A - U))" if j: "j < SLAB_CACHE_COUNT" for j
    using sl_osize [OF inv j] sl_head [OF inv j] sl_list [OF inv j] sl_owned [OF inv j] sub p
    by (auto simp: st length_remove1)
  with pi inv show ?thesis by (simp add: slab_lists_def st)
qed

lemma list_insert_core:
  assumes inv: "slab_lists st H G A M U" and i: "i < SLAB_CACHE_COUNT" and p: "(p, 0) \<in> A" "(p, 0) \<notin> U"
    and out: "\<And>hn. hn \<in> H \<Longrightarrow> p \<notin> set (G hn)"
  shows "slab_lists (list_insert i sel p st) H (G(slab_head sel i := p # G (slab_head sel i))) A M U"
proof -
  let ?hn = "slab_head sel i"
  let ?G = "G(?hn := p # G ?hn)" and ?h = "link_insert (ph_links st) ?hn (PageNode p)"
  let ?c = "cache_list_upd sel \<lparr>il_head = ?hn, il_count = length (G ?hn) + 1\<rparr> (sl_slabs st i)"
  have st: "list_insert i sel p st = st\<lparr>ph_links := ?h, sl_slabs := (sl_slabs st)(i := ?c)\<rparr>"
    using sl_list [OF inv i, of sel] by (simp add: list_insert_def ilist_insert_def get_link_def)
  note pinv = sl_page [OF inv]
  have "list_family is_list ?h H ((\<lambda>hn. map PageNode (G hn))(?hn := PageNode p # map PageNode (G ?hn)))"
    by (rule il.family_insert [OF zc_family [OF pi_core [OF pinv]] sl_head [OF inv i]
          zc_head [OF pi_core [OF pinv]]]) (use out in auto)
  then have fam: "list_family is_list ?h H (\<lambda>hn. map PageNode (?G hn))"
    using family_map_upd [of G ?hn "p # G ?hn"] by simp
  have pi: "page_inv (list_insert i sel p st) H ?G A M U"
    by (rule page_inv_relink [OF pinv sl_head [OF inv i] client_slab_head])
      (use fam p sl_owned [OF inv i] in \<open>auto simp: st\<close>)
  have "sc_object_size (sl_slabs (list_insert i sel p st) j) = osize j \<and>
      (\<forall>t. slab_head t j \<in> H \<and> cache_list (sl_slabs (list_insert i sel p st) j) t
         = \<lparr>il_head = slab_head t j, il_count = length (?G (slab_head t j))\<rparr> \<and>
       (\<forall>q\<in>set (?G (slab_head t j)). (q, 0) \<in> A - U))" if j: "j < SLAB_CACHE_COUNT" for j
    using sl_osize [OF inv j] sl_head [OF inv j] sl_list [OF inv j] sl_owned [OF inv j] p
    by (auto simp: st)
  with pi inv show ?thesis by (simp add: slab_lists_def st)
qed

text \<open>A page on a list of a cache is on no other list, and once on that one.\<close>

lemma slab_page_unique:
  assumes inv: "slab_lists st H G A M U" and i: "i < SLAB_CACHE_COUNT" and p: "p \<in> set (G (slab_head sel i))"
  shows "hn \<in> H \<Longrightarrow> p \<notin> set ((G(slab_head sel i := remove1 p (G (slab_head sel i)))) hn)"
    and "j < SLAB_CACHE_COUNT \<Longrightarrow> p \<in> set (G (slab_head t j)) \<Longrightarrow> t = sel \<and> j = i"
proof -
  note fam = zc_family [OF pi_core [OF sl_page [OF inv]]]
  have d: "distinct (G (slab_head sel i))"
    using il.family_distinct [OF fam sl_head [OF inv i]] by (simp add: distinct_map)
  have other: "p \<notin> set (G hn)" if "hn \<in> H" "hn \<noteq> slab_head sel i" for hn
    using il.family_disjoint [OF fam sl_head [OF inv i] that(1), of sel "PageNode p"] that(2) p by auto
  show "p \<notin> set ((G(slab_head sel i := remove1 p (G (slab_head sel i)))) hn)" if "hn \<in> H"
    using d other [OF that] by simp
  show "t = sel \<and> j = i" if "j < SLAB_CACHE_COUNT" "p \<in> set (G (slab_head t j))"
    using other [OF sl_head [OF inv that(1)], of t] that(2) by auto
qed

text \<open>Moving a page from one list of its cache to another.\<close>

lemma move_core:
  assumes inv: "slab_lists st H G A M U" and i: "i < SLAB_CACHE_COUNT"
    and p: "p \<in> set (G (slab_head s i))" and ne: "s \<noteq> t"
  defines "G' \<equiv> G(slab_head s i := remove1 p (G (slab_head s i)), slab_head t i := p # G (slab_head t i))"
  shows "slab_lists (list_insert i t p (list_remove i s p st)) H G' A M U"
    and "j < SLAB_CACHE_COUNT \<Longrightarrow> q \<in> set (G' (slab_head r j)) \<longleftrightarrow>
      (if q = p \<and> j = i then r = t else q \<in> set (G (slab_head r j)))"
proof -
  let ?G1 = "G(slab_head s i := remove1 p (G (slab_head s i)))"
  have c1: "slab_lists (list_remove i s p st) H ?G1 A M U" by (rule list_remove_core [OF inv i p])
  have own: "(p, 0) \<in> A" "(p, 0) \<notin> U" using sl_owned [OF inv i p] by auto
  have G': "G' = ?G1(slab_head t i := p # ?G1 (slab_head t i))" using ne by (simp add: G'_def)
  show "slab_lists (list_insert i t p (list_remove i s p st)) H G' A M U"
    unfolding G'
  proof (rule list_insert_core [OF c1 i own])
    show "p \<notin> set (?G1 hn)" if "hn \<in> H" for hn by (rule slab_page_unique(1) [OF inv i p that])
  qed
  have d: "distinct (G (slab_head s i))"
    using il.family_distinct [OF zc_family [OF pi_core [OF sl_page [OF inv]]] sl_head [OF inv i]]
    by (simp add: distinct_map)
  show "q \<in> set (G' (slab_head r j)) \<longleftrightarrow>
      (if q = p \<and> j = i then r = t else q \<in> set (G (slab_head r j)))" if j: "j < SLAB_CACHE_COUNT"
  proof -
    have g: "set (G' (slab_head r j)) =
        (if r = t \<and> j = i then insert p (set (G (slab_head t i)))
         else if r = s \<and> j = i then set (G (slab_head s i)) - {p} else set (G (slab_head r j)))"
      using d by (simp add: G'_def)
    have u: "r = s \<and> j = i" if "p \<in> set (G (slab_head r j))" by (rule slab_page_unique(2) [OF inv i p j that])
    then have "p \<notin> set (G (slab_head r j))" if "r \<noteq> s \<or> j \<noteq> i" using that by metis
    then show ?thesis unfolding g using ne by (cases "j = i"; cases "r = t"; cases "r = s") auto
  qed
qed

lemma list_ops_frame [simp]:
  "ph_page (list_insert i s p st) = ph_page st" "ph_page (list_remove i s p st) = ph_page st"
  "sl_mem (list_insert i s p st) = sl_mem st" "sl_mem (list_remove i s p st) = sl_mem st"
  by (simp_all add: list_insert_def list_remove_def Let_def split: prod.splits)

subsection \<open>Slots\<close>

lemma slab_set_obs [simp]:
  "page_has (slab_set p c f st) q a = page_has st q a" "page_order (slab_set p c f st) q = page_order st q"
  "page_refcount (slab_set p c f st) q = page_refcount st q" "ph_links (slab_set p c f st) = ph_links st"
  "ph_area_count (slab_set p c f st) = ph_area_count st" "pc_free_areas (slab_set p c f st) = pc_free_areas st"
  "pc_batch (slab_set p c f st) = pc_batch st" "sl_slabs (slab_set p c f st) = sl_slabs st"
  "sl_mem (slab_set p c f st) = sl_mem st"
  "rp_data (ph_page (slab_set p c f st) q) = (if q = p then Slab c f else rp_data (ph_page st q))"
  by (simp_all add: slab_set_def upd_page_def page_has_def page_order_def page_refcount_def)

lemma slab_lists_set:
  assumes "slab_lists st H G A M U"
  shows "slab_lists (slab_set p c f st) H G A M U"
proof -
  have "page_inv (slab_set p c f st) H G A M U"
    by (rule page_inv_cong [OF sl_page [OF assms]]) simp_all
  then show ?thesis using assms by (simp add: slab_lists_def)
qed

lemma slab_lists_mem:
  assumes "slab_lists st H G A M U"
  shows "slab_lists (st\<lparr>sl_mem := m\<rparr>) H G A M U"
proof -
  have "page_inv (st\<lparr>sl_mem := m\<rparr>) H G A M U"
    by (rule page_inv_cong [OF sl_page [OF assms]]) (simp_all add: page_has_def page_order_def page_refcount_def)
  then show ?thesis using assms by (simp add: slab_lists_def)
qed

lemma chain_cong: "(\<And>a. a \<in> set fs \<Longrightarrow> m' a = m a) \<Longrightarrow> chain m' f fs = chain m f fs"
  by (induction fs arbitrary: f) simp_all

lemma slab_page_ok_cong:
  assumes "slab_page_ok st i p fs" and "rp_data (ph_page st' p) = rp_data (ph_page st p)"
    and "\<And>a. a \<in> set fs \<Longrightarrow> sl_mem st' a = sl_mem st a"
  shows "slab_page_ok st' i p fs"
  using assms chain_cong [OF assms(3)] by (simp add: slab_page_ok_def)

lemma card_slot_addrs: "i < SLAB_CACHE_COUNT \<Longrightarrow> card (slot_addrs i p) = nslots i"
  using nslots_bounds(3) [of i] by (simp add: slot_addrs_def card_image inj_on_def)

lemma slab_page_ok_length:
  assumes "slab_page_ok st i p fs" and "i < SLAB_CACHE_COUNT" and "a \<in> slot_addrs i p" and "a \<notin> set fs"
  shows "length fs < nslots i"
proof -
  have "set fs \<subset> slot_addrs i p" using assms(1,3,4) by (auto simp: slab_page_ok_def)
  then have "card (set fs) < card (slot_addrs i p)" by (intro psubset_card_mono) (simp_all add: slot_addrs_def)
  then show ?thesis
    using assms(1) by (simp add: distinct_card slab_page_ok_def card_slot_addrs [OF assms(2)])
qed

lemma alloc_slot_core:
  assumes ok: "slab_page_ok st i p (a # fs)" and i: "i < SLAB_CACHE_COUNT"
  obtains c f where "alloc_slot st p = Inr (slab_set p c f st, a)"
    "slab_page_ok (slab_set p c f st) i p fs" "f = None \<longleftrightarrow> fs = []"
proof -
  obtain c f where d: "rp_data (ph_page st p) = Slab c f" and ch: "chain (sl_mem st) f (a # fs)"
    and n: "c + length (a # fs) = nslots i"
    using ok by (auto simp: slab_page_ok_def)
  have "c + 1 < 2 ^ 32" using n nslots_bounds(4) [OF i] by simp
  then have op: "alloc_slot st p = Inr (slab_set p (c + 1) (nonnull (sl_mem st a)) st, a)"
    using d ch by (simp add: alloc_slot_def)
  have "slab_page_ok (slab_set p (c + 1) (nonnull (sl_mem st a)) st) i p fs"
    using ok ch n by (auto simp: slab_page_ok_def)
  then show ?thesis by (rule that [OF op]) (use ch in \<open>cases fs; auto\<close>)
qed

lemma dealloc_slot_core:
  assumes ok: "slab_page_ok st i p fs" and i: "i < SLAB_CACHE_COUNT"
    and a: "a \<in> slot_addrs i p" "a \<notin> set fs" "a \<noteq> 0"
  obtains c w where "dealloc_slot st p a = Inr (slab_set p c (Some a) (st\<lparr>sl_mem := (sl_mem st)(a := w)\<rparr>))"
    "slab_page_ok (slab_set p c (Some a) (st\<lparr>sl_mem := (sl_mem st)(a := w)\<rparr>)) i p (a # fs)"
    "c = 0 \<longleftrightarrow> Suc (length fs) = nslots i"
proof -
  obtain c f where d: "rp_data (ph_page st p) = Slab c f" and ch: "chain (sl_mem st) f fs"
    and n: "c + length fs = nslots i"
    using ok by (auto simp: slab_page_ok_def)
  define w where "w = (case f of Some x \<Rightarrow> x | None \<Rightarrow> 0)"
  let ?st = "slab_set p (c - 1) (Some a) (st\<lparr>sl_mem := (sl_mem st)(a := w)\<rparr>)"
  have c: "0 < c" "c < 2 ^ 32"
    using n slab_page_ok_length [OF ok i a(1,2)] nslots_bounds(4) [OF i] by simp_all
  then have "(c + 2 ^ 32 - 1) mod 2 ^ 32 = c - 1" by (cases c) auto
  then have op: "dealloc_slot st p a = Inr ?st"
    using d a(3) by (simp add: dealloc_slot_def w_def nonnull_def)
  have "nonnull w = f" using ch by (cases fs) (auto simp: w_def nonnull_def)
  moreover have "chain ((sl_mem st)(a := w)) f fs = chain (sl_mem st) f fs"
    by (rule chain_cong) (use a(2) in auto)
  ultimately have "slab_page_ok ?st i p (a # fs)"
    using ok ch n a c by (auto simp: slab_page_ok_def)
  then show ?thesis by (rule that [OF op]) (use n c in auto)
qed

text \<open>A new page: all of its slots are on the chain.\<close>

lemma init_loop_frame:
  "(\<And>j. j \<le> n \<Longrightarrow> a \<noteq> s + j * k) \<Longrightarrow> slab_page_init_loop m s k n a = m a"
proof (induction n arbitrary: m s)
  case 0
  then show ?case by simp
next
  case (Suc n)
  have "a \<noteq> s + k + j * k" if "j \<le> n" for j using Suc.prems [of "Suc j"] that by (simp add: algebra_simps)
  with Suc.IH [of "s + k"] Suc.prems [of 0] show ?case by (simp add: Let_def)
qed

lemma init_loop_chain:
  assumes "0 < s" and "0 < k"
  shows "chain (slab_page_init_loop m s k n) (Some s) (map (\<lambda>j. s + j * k) [0..<Suc n])"
  using assms(1)
proof (induction n arbitrary: m s)
  case 0
  then show ?case by (simp add: nonnull_def)
next
  case (Suc n)
  let ?m = "slab_page_init_loop (m(s := s + k)) (s + k) k n"
  have "map (\<lambda>j. s + j * k) [0..<Suc (Suc n)] = s # map (\<lambda>j. s + k + j * k) [0..<Suc n]"
    by (subst map_upt_Suc) (simp add: algebra_simps del: upt_Suc)
  moreover have "?m s = s + k" using init_loop_frame [of n s "s + k" k] assms(2) by simp
  moreover have "chain ?m (Some (s + k)) (map (\<lambda>j. s + k + j * k) [0..<Suc n])"
    by (rule Suc.IH) (use Suc.prems in simp)
  ultimately show ?case using Suc.prems by (simp add: nonnull_def Let_def del: upt_Suc)
qed

section \<open>Allocation and deallocation\<close>

text \<open>After a step on the page \<open>p\<close> of the cache \<open>i\<close> the page is on the list \<open>t\<close> and nothing else has
  moved.\<close>

definition moved :: "(node \<Rightarrow> nat list) \<Rightarrow> (node \<Rightarrow> nat list) \<Rightarrow> nat \<Rightarrow> nat \<Rightarrow> slab_list \<Rightarrow> bool" where
  "moved G G' i p t \<longleftrightarrow> (\<forall>j<SLAB_CACHE_COUNT. \<forall>r q. q \<in> set (G' (slab_head r j)) \<longleftrightarrow>
     (if q = p then j = i \<and> r = t else q \<in> set (G (slab_head r j))))"

lemma moved_move:
  assumes inv: "slab_lists st H G A M U" and i: "i < SLAB_CACHE_COUNT"
    and p: "p \<in> set (G (slab_head s i))" and ne: "s \<noteq> t"
  shows "moved G (G(slab_head s i := remove1 p (G (slab_head s i)), slab_head t i := p # G (slab_head t i))) i p t"
  using move_core(2) [OF inv i p ne] slab_page_unique(2) [OF inv i p] unfolding moved_def by metis

lemma moved_same:
  assumes "slab_lists st H G A M U" and "i < SLAB_CACHE_COUNT" and "p \<in> set (G (slab_head s i))"
  shows "moved G G i p s"
  using slab_page_unique(2) [OF assms] assms(3) unfolding moved_def by metis

lemma slab_inv_step:
  assumes pages: "slab_pages_ok st G F" and lists: "slab_lists st' H G' A' M U'"
    and mv: "moved G G' i p t" and ok: "slab_page_ok st' i p fs" "list_kind_ok t i (length fs)"
    and data: "\<And>q. q \<noteq> p \<Longrightarrow> rp_data (ph_page st' q) = rp_data (ph_page st q)"
    and mem: "\<And>j r q a. j < SLAB_CACHE_COUNT \<Longrightarrow> q \<in> set (G (slab_head r j)) \<Longrightarrow> q \<noteq> p \<Longrightarrow> a \<in> set (F q) \<Longrightarrow>
      sl_mem st' a = sl_mem st a"
  shows "slab_inv st' H G' A' M U' (F(p := fs))"
proof -
  have "slab_page_ok st' j q ((F(p := fs)) q) \<and> list_kind_ok r j (length ((F(p := fs)) q))"
    if j: "j < SLAB_CACHE_COUNT" and q: "q \<in> set (G' (slab_head r j))" for j r q
  proof (cases "q = p")
    case True
    then have "j = i" "r = t" using mv j q by (auto simp: moved_def)
    with True ok show ?thesis by simp
  next
    case False
    then have q': "q \<in> set (G (slab_head r j))" using mv j q by (auto simp: moved_def)
    then have "slab_page_ok st j q (F q)" "list_kind_ok r j (length (F q))"
      using pages j by (auto simp: slab_pages_ok_def)
    with slab_page_ok_cong [OF this(1) data [OF False] mem [OF j q' False]] False show ?thesis by simp
  qed
  then show ?thesis using lists by (auto simp: slab_inv_def slab_pages_ok_def)
qed

lemma live_moved:
  assumes "moved G G' i p t" and "j < SLAB_CACHE_COUNT"
  shows "live G' (F(p := fs)) j =
    {a. j = i \<and> a \<in> slot_addrs i p \<and> a \<notin> set fs} \<union>
    {a. \<exists>r q. q \<noteq> p \<and> q \<in> set (G (slab_head r j)) \<and> a \<in> slot_addrs j q \<and> a \<notin> set (F q)}"
  using assms unfolding live_def moved_def by (auto split: if_splits) metis+

text \<open>What a client of the cache \<open>i\<close> sees of an allocation.\<close>

definition alloc_effect ::
  "'a slab_scheme \<Rightarrow> 'a slab_scheme \<Rightarrow> (node \<Rightarrow> nat list) \<Rightarrow> (node \<Rightarrow> nat list) \<Rightarrow> (nat \<Rightarrow> usize list) \<Rightarrow>
   (nat \<Rightarrow> usize list) \<Rightarrow> nat \<Rightarrow> usize \<Rightarrow> bool"
where
  "alloc_effect st st' G G' F F' i a \<longleftrightarrow>
     a \<notin> live G F i \<and> live G' F' i = insert a (live G F i) \<and> osize i dvd a \<and>
     (\<forall>j<SLAB_CACHE_COUNT. j \<noteq> i \<longrightarrow> live G' F' j = live G F j) \<and>
     (\<forall>j<SLAB_CACHE_COUNT. \<forall>b\<in>live G F j. \<forall>w\<in>{b..<b + osize j}. sl_mem st' w = sl_mem st w)"

lemma slot_aligned:
  assumes "a \<in> slot_addrs i p" and "i < SLAB_CACHE_COUNT" and "p < 2 ^ 25"
  shows "osize i dvd a"
proof -
  have d: "osize i dvd 4096" using nslots_bounds(2) [OF assms(2)] by (metis dvd_triv_right)
  have "(4096 :: nat) dvd PHYS_OFFSET" by (simp add: PHYS_OFFSET_def)
  then have "osize i dvd PHYS_OFFSET + p * 4096" using d by (meson dvd_add dvd_mult dvd_trans)
  moreover have "osize i dvd a - real_page_ptr p" "real_page_ptr p \<le> a"
    using slot_addrs_bounds [OF assms(1,2)] by blast+
  ultimately have "osize i dvd (a - real_page_ptr p) + real_page_ptr p"
    using dvd_add [of "osize i" "a - real_page_ptr p"] real_page_ptr_eq [OF assms(3)] by metis
  with \<open>real_page_ptr p \<le> a\<close> show ?thesis by (simp only: le_add_diff_inverse2)
qed

lemma slot_page_unique:
  assumes lists: "slab_lists st H G A M U" and i: "i < SLAB_CACHE_COUNT" and p: "p < 2 ^ 25"
    and q: "q \<in> set (G (slab_head r i))" "q \<noteq> p" and a: "a \<in> slot_addrs i p"
  shows "a \<notin> slot_addrs i q"
proof
  assume "a \<in> slot_addrs i q"
  then have "{a..<a + osize i} \<inter> {a..<a + osize i} = {}"
    using slot_addrs_disjoint [OF a _ i i p sl_frame [OF lists i q(1)]] q(2) by metis
  then show False using nslots_bounds(3) [OF i] by simp
qed

lemma alloc_existing:
  assumes inv: "slab_inv st H G A M U F" and i: "i < SLAB_CACHE_COUNT"
    and p: "p \<in> set (G (slab_head s i))" and F: "F p = a # fs"
    and st': "slab_lists st' H G' A M U" "moved G G' i p t"
    and ok: "slab_page_ok st' i p fs" "list_kind_ok t i (length fs)"
    and frame: "\<And>q. q \<noteq> p \<Longrightarrow> rp_data (ph_page st' q) = rp_data (ph_page st q)" "sl_mem st' = sl_mem st"
  shows "slab_inv st' H G' A M U (F(p := fs)) \<and> alloc_effect st st' G G' F (F(p := fs)) i a"
proof -
  have lists: "slab_lists st H G A M U" and pages: "slab_pages_ok st G F" using inv by (auto simp: slab_inv_def)
  have "slab_page_ok st i p (a # fs)" using slab_pages_okD(1) [OF pages i p] F by simp
  then have a: "a \<in> slot_addrs i p" "a \<notin> set fs" by (auto simp: slab_page_ok_def)
  note p25 = sl_frame [OF lists i p]
  have si: "slab_inv st' H G' A M U (F(p := fs))"
    by (rule slab_inv_step [OF pages st' ok]) (use frame in auto)
  have F': "F = F(p := a # fs)" using F by (simp add: fun_upd_idem)
  have L: "live G F j = {b. j = i \<and> b \<in> slot_addrs i p \<and> b \<notin> set (a # fs)} \<union>
      {b. \<exists>r q. q \<noteq> p \<and> q \<in> set (G (slab_head r j)) \<and> b \<in> slot_addrs j q \<and> b \<notin> set (F q)}"
    if "j < SLAB_CACHE_COUNT" for j
    using live_moved [OF moved_same [OF lists i p] that, of F "a # fs"] unfolding F' [symmetric] .
  have rest: "a \<notin> slot_addrs i q" if "q \<in> set (G (slab_head r i))" "q \<noteq> p" for r q
    by (rule slot_page_unique [OF lists i p25 that a(1)])
  have "a \<notin> live G F i" using rest by (auto simp: L [OF i])
  moreover have "live G' (F(p := fs)) i = insert a (live G F i)"
    using a by (auto simp: L [OF i] live_moved [OF st'(2) i])
  moreover have "live G' (F(p := fs)) j = live G F j" if "j < SLAB_CACHE_COUNT" "j \<noteq> i" for j
    using that(2) by (simp add: L [OF that(1)] live_moved [OF st'(2) that(1)])
  ultimately show ?thesis using si slot_aligned [OF a(1) i p25] frame(2) by (simp add: alloc_effect_def)
qed

lemma list_head_first:
  assumes lists: "slab_lists st H G A M U" and i: "i < SLAB_CACHE_COUNT"
  shows "ilist_is_empty (cache_list (sl_slabs st i) sel) \<longleftrightarrow> G (slab_head sel i) = []"
    and "G (slab_head sel i) = p # ps \<Longrightarrow> list_head st i sel = Inr p"
proof -
  show "ilist_is_empty (cache_list (sl_slabs st i) sel) \<longleftrightarrow> G (slab_head sel i) = []"
    using sl_list [OF lists i, of sel] by (simp add: ilist_is_empty_def)
  show "list_head st i sel = Inr p" if "G (slab_head sel i) = p # ps"
    using il.family_nxt [OF zc_family [OF pi_core [OF sl_page [OF lists]]] sl_head [OF lists i], of sel]
      sl_list [OF lists i, of sel] that
    by (simp add: list_head_def ilist_first_def unwrap_def)
qed

lemma alloc_partial:
  assumes inv: "slab_inv st H G A M U F" and i: "i < SLAB_CACHE_COUNT" and g: "G (SlabPartial i) = p # ps"
  shows "\<exists>st' a G' F'. cache_alloc st i = Inr (st', a) \<and> slab_inv st' H G' A M U F' \<and>
    alloc_effect st st' G G' F F' i a"
proof -
  have lists: "slab_lists st H G A M U" and pages: "slab_pages_ok st G F" using inv by (auto simp: slab_inv_def)
  have p: "p \<in> set (G (slab_head PartialList i))" using g by simp
  note ok = slab_pages_okD [OF pages i p]
  obtain a fs where F: "F p = a # fs" using ok(2) by (cases "F p") auto
  obtain c f where op: "alloc_slot st p = Inr (slab_set p c f st, a)"
    and ok1: "slab_page_ok (slab_set p c f st) i p fs" and full: "f = None \<longleftrightarrow> fs = []"
    using alloc_slot_core [OF ok(1) [unfolded F] i] by blast
  let ?st = "slab_set p c f st"
  note l1 = slab_lists_set [OF lists, of p c f]
  have run: "cache_alloc st i =
      Inr (if f = None then list_insert i FullList p (list_remove i PartialList p ?st) else ?st, a)"
    using list_head_first(1) [OF lists i, of PartialList] list_head_first(2) [OF lists i, of PartialList] g op
    by (simp add: cache_alloc_def page_is_full_def rmap_def)
  show ?thesis
  proof (cases "f = None")
    case True
    let ?st' = "list_insert i FullList p (list_remove i PartialList p ?st)"
    let ?G = "G(slab_head PartialList i := remove1 p (G (slab_head PartialList i)),
      slab_head FullList i := p # G (slab_head FullList i))"
    have "slab_inv ?st' H ?G A M U (F(p := fs)) \<and> alloc_effect st ?st' G ?G F (F(p := fs)) i a"
    proof (rule alloc_existing [OF inv i p F])
      show "slab_lists ?st' H ?G A M U" by (rule move_core(1) [OF l1 i p]) simp
      show "moved G ?G i p FullList" by (rule moved_move [OF lists i p]) simp
      show "slab_page_ok ?st' i p fs" by (rule slab_page_ok_cong [OF ok1]) simp_all
    qed (use True full in simp_all)
    with run True show ?thesis by auto
  next
    case False
    have "slab_inv ?st H G A M U (F(p := fs)) \<and> alloc_effect st ?st G G F (F(p := fs)) i a"
      by (rule alloc_existing [OF inv i p F l1 moved_same [OF lists i p] ok1])
        (use False full F ok(2) in auto)
    with run False show ?thesis by auto
  qed
qed

lemma alloc_empty:
  assumes inv: "slab_inv st H G A M U F" and i: "i < SLAB_CACHE_COUNT"
    and g: "G (SlabPartial i) = []" "G (SlabEmpty i) = p # ps"
  shows "\<exists>st' a G' F'. cache_alloc st i = Inr (st', a) \<and> slab_inv st' H G' A M U F' \<and>
    alloc_effect st st' G G' F F' i a"
proof -
  have lists: "slab_lists st H G A M U" and pages: "slab_pages_ok st G F" using inv by (auto simp: slab_inv_def)
  have p: "p \<in> set (G (slab_head EmptyList i))" using g by simp
  then have ok: "slab_page_ok st i p (F p)" "length (F p) = nslots i"
    using slab_pages_okD [OF pages i p] by simp_all
  then obtain a fs where F: "F p = a # fs" using nslots_bounds(1) [OF i] by (cases "F p") auto
  obtain c f where op: "alloc_slot st p = Inr (slab_set p c f st, a)"
    and ok1: "slab_page_ok (slab_set p c f st) i p fs"
    using alloc_slot_core [OF ok(1) [unfolded F] i] by blast
  note l1 = slab_lists_set [OF lists, of p c f]
  let ?st' = "list_insert i PartialList p (list_remove i EmptyList p (slab_set p c f st))"
  let ?G = "G(slab_head EmptyList i := remove1 p (G (slab_head EmptyList i)),
    slab_head PartialList i := p # G (slab_head PartialList i))"
  have "cache_alloc st i = Inr (?st', a)"
    using list_head_first(1) [OF lists i, of PartialList] list_head_first(1) [OF lists i, of EmptyList]
      list_head_first(2) [OF lists i, of EmptyList] g op
    by (simp add: cache_alloc_def)
  moreover have "slab_inv ?st' H ?G A M U (F(p := fs)) \<and> alloc_effect st ?st' G ?G F (F(p := fs)) i a"
  proof (rule alloc_existing [OF inv i p F])
    show "slab_lists ?st' H ?G A M U" by (rule move_core(1) [OF l1 i p]) simp
    show "moved G ?G i p PartialList" by (rule moved_move [OF lists i p]) simp
    show "slab_page_ok ?st' i p fs" by (rule slab_page_ok_cong [OF ok1]) simp_all
  qed (use F ok(2) nslots_bounds(1) [OF i] in auto)
  ultimately show ?thesis by blast
qed

text \<open>A page fresh from the page allocator.\<close>

lemma fresh_slab_page:
  assumes lists: "slab_lists st H G A M U" and can: "can_alloc G 0"
  obtains st' p G' A' where "global_alloc_order st 0 = Inr (st', Some p)" "slab_lists st' H G' A' M U"
    "(p, 0) \<in> A'" "(p, 0) \<notin> U" "\<And>hn. hn \<in> H \<Longrightarrow> p \<notin> set (G' hn)" "p < 2 ^ 25"
    "\<And>sel i. G' (slab_head sel i) = G (slab_head sel i)" "sl_mem st' = sl_mem st" "sl_slabs st' = sl_slabs st"
    "\<And>q. rp_data (ph_page st' q) = rp_data (ph_page st q)"
proof -
  have batch: "pc_batch st = BATCH_SIZE" using lists by (simp add: slab_lists_def)
  obtain st' p G' A' where al: "global_alloc_order st 0 = Inr (st', Some p)"
    and pi: "page_inv st' H G' A' M (insert (p, 0) U)" and sub: "A \<subseteq> A'" and new: "(p, 0) \<notin> U"
    and rest: "client_rest st' = client_rest st" and same: "\<And>hn. client_head hn \<Longrightarrow> G' hn = G hn"
    using global_alloc_core [OF sl_page [OF lists] batch, of 0] can by auto
  have eq: "sl_mem st' = sl_mem st" "sl_slabs st' = sl_slabs st" "pc_batch st' = pc_batch st"
    "rp_data (ph_page st' q) = rp_data (ph_page st q)" for q
    using rest by (cases st; cases st'; auto simp: client_rest_def fun_eq_iff)+
  have pA: "(p, 0) \<in> A'" using pi_sub(1) [OF pi] by simp
  then have "p \<in> M" using zone_core_in_M [OF pi_core [OF pi], of "(p, 0)"] blk_mem by blast
  then have p25: "p < 2 ^ 25" using lists by (simp add: slab_lists_def)
  have "slab_lists st' H G' A' M U"
    using lists page_inv_give [OF pi] sub eq(1-3) same [OF client_slab_head]
    unfolding slab_lists_def by auto
  then show ?thesis
    by (rule that [OF al]) (use pA new pi_free [OF pi] p25 same eq in auto)
qed

lemma init_page_ok:
  assumes i: "i < SLAB_CACHE_COUNT" and p: "p < 2 ^ 25"
  defines "slots \<equiv> map (\<lambda>j. real_page_ptr p + j * osize i) [0..<nslots i]"
  obtains st' where "slab_page_init st p (osize i) = Inr (st', Some (real_page_ptr p))"
    "slab_page_ok (slab_init p (Some (real_page_ptr p)) st') i p slots"
    "st' = st\<lparr>sl_mem := slab_page_init_loop (sl_mem st) (real_page_ptr p) (osize i) (nslots i - 1)\<rparr>"
    "set slots = slot_addrs i p" "slots = real_page_ptr p # tl slots" "length slots = nslots i"
proof -
  let ?m = "slab_page_init_loop (sl_mem st) (real_page_ptr p) (osize i) (nslots i - 1)"
  note b = nslots_bounds [OF i]
  have pos: "0 < real_page_ptr p" by (simp add: real_page_ptr_eq [OF p] PHYS_OFFSET_def)
  have n: "Suc (nslots i - 1) = nslots i" using b by simp
  have ch: "chain ?m (Some (real_page_ptr p)) slots"
    using init_loop_chain [OF pos, of "osize i" "sl_mem st" "nslots i - 1"] b
    unfolding slots_def n by (simp del: upt_Suc)
  have set: "set slots = slot_addrs i p" by (auto simp: slots_def slot_addrs_def)
  have "distinct slots" using b by (simp add: slots_def distinct_map inj_on_def)
  then have "slab_page_ok (slab_init p (Some (real_page_ptr p)) (st\<lparr>sl_mem := ?m\<rparr>)) i p slots"
    using ch set by (simp add: slab_page_ok_def slab_init_def slots_def)
  moreover have "slab_page_init st p (osize i) = Inr (st\<lparr>sl_mem := ?m\<rparr>, Some (real_page_ptr p))"
    using b pos by (simp add: slab_page_init_def nslots_def nonnull_def Let_def)
  moreover have "slots = map (\<lambda>j. real_page_ptr p + j * osize i) [0..<Suc (nslots i - 1)]"
    unfolding slots_def n ..
  then have "slots = real_page_ptr p # tl slots" by (simp add: map_upt_Suc del: upt_Suc)
  ultimately show ?thesis using that set by (simp add: slots_def)
qed

lemma live_without:
  assumes "\<And>r j. j < SLAB_CACHE_COUNT \<Longrightarrow> p \<notin> set (G (slab_head r j))" and "j < SLAB_CACHE_COUNT"
  shows "live G F j =
    {b. \<exists>r q. q \<noteq> p \<and> q \<in> set (G (slab_head r j)) \<and> b \<in> slot_addrs j q \<and> b \<notin> set (F q)}"
  unfolding live_def by (rule Collect_cong) (metis assms)

text \<open>Initialising the page \<open>p\<close> writes to none of the words of slots of other pages.\<close>

lemma init_frame:
  assumes lists: "slab_lists st H G A M U" and i: "i < SLAB_CACHE_COUNT" and p: "p < 2 ^ 25"
    and q: "j < SLAB_CACHE_COUNT" "q \<in> set (G (slab_head r j))" "q \<noteq> p"
    and b: "b \<in> slot_addrs j q" "w \<in> {b..<b + osize j}"
  shows "slab_page_init_loop m (real_page_ptr p) (osize i) (nslots i - 1) w = m w"
proof (rule init_loop_frame)
  fix n
  assume n: "n \<le> nslots i - 1"
  let ?s = "real_page_ptr p + n * osize i"
  have "?s \<in> slot_addrs i p" using n nslots_bounds(1) [OF i] by (auto simp: slot_addrs_def)
  then have "{?s..<?s + osize i} \<inter> {b..<b + osize j} = {}"
    using slot_addrs_disjoint [OF _ b(1) i q(1) p sl_frame [OF lists q(1,2)]] q(3) by metis
  then show "w \<noteq> ?s" using b(2) nslots_bounds(3) [OF i] by auto
qed

lemma alloc_new:
  assumes inv: "slab_inv st H G A M U F" and i: "i < SLAB_CACHE_COUNT"
    and g: "G (SlabPartial i) = []" "G (SlabEmpty i) = []" and can: "can_alloc G 0"
  shows "\<exists>st' a G' A' F'. cache_alloc st i = Inr (st', a) \<and> slab_inv st' H G' A' M U F' \<and>
    alloc_effect st st' G G' F F' i a"
proof -
  have lists: "slab_lists st H G A M U" and pages: "slab_pages_ok st G F" using inv by (auto simp: slab_inv_def)
  obtain st1 p G1 A1 where al: "global_alloc_order st 0 = Inr (st1, Some p)"
    and l1: "slab_lists st1 H G1 A1 M U" and p: "(p, 0) \<in> A1" "(p, 0) \<notin> U"
    and out: "\<And>hn. hn \<in> H \<Longrightarrow> p \<notin> set (G1 hn)" and p25: "p < 2 ^ 25"
    and same: "\<And>sel i. G1 (slab_head sel i) = G (slab_head sel i)"
    and fr: "sl_mem st1 = sl_mem st" "sl_slabs st1 = sl_slabs st" "\<And>q. rp_data (ph_page st1 q) = rp_data (ph_page st q)"
    using fresh_slab_page [OF lists can] by metis
  let ?a = "real_page_ptr p"
  obtain st2 slots where init: "slab_page_init st1 p (osize i) = Inr (st2, Some ?a)"
    and ok2: "slab_page_ok (slab_init p (Some ?a) st2) i p slots"
    and st2: "st2 = st1\<lparr>sl_mem := slab_page_init_loop (sl_mem st1) ?a (osize i) (nslots i - 1)\<rparr>"
    and sl: "set slots = slot_addrs i p" "slots = ?a # tl slots" "length slots = nslots i"
    using init_page_ok [OF i p25] by metis
  define fs where "fs = tl slots"
  obtain c f where slot: "alloc_slot (slab_init p (Some ?a) st2) p = Inr (slab_set p c f (slab_init p (Some ?a) st2), ?a)"
    and ok3: "slab_page_ok (slab_set p c f (slab_init p (Some ?a) st2)) i p fs"
    using alloc_slot_core [of "slab_init p (Some ?a) st2" i p ?a fs] ok2 i unfolding fs_def sl(2) [symmetric] by metis
  let ?st3 = "slab_set p c f (slab_init p (Some ?a) st2)"
  let ?st' = "list_insert i PartialList p ?st3" and ?G = "G1(slab_head PartialList i := p # G1 (slab_head PartialList i))"
  have run: "cache_alloc st i = Inr (?st', ?a)"
    using list_head_first(1) [OF lists i, of PartialList] list_head_first(1) [OF lists i, of EmptyList] g al
      sl_osize [OF lists i] init slot fr(2)
    by (simp add: cache_alloc_def unwrap_def)
  have l3: "slab_lists ?st3 H G1 A1 M U"
    unfolding slab_init_def st2 by (intro slab_lists_set slab_lists_mem l1)
  have l': "slab_lists ?st' H ?G A1 M U" by (rule list_insert_core [OF l3 i p out])
  have np: "p \<notin> set (G (slab_head r j))" if "j < SLAB_CACHE_COUNT" for r j
    using out [OF sl_head [OF lists that]] same by simp
  have mv: "moved G ?G i p PartialList" 
    using np unfolding moved_def by (auto simp: same simp del: slab_head.simps)
  have mem: "sl_mem ?st' w = sl_mem st w"
    if "j < SLAB_CACHE_COUNT" "q \<in> set (G (slab_head r j))" "b \<in> slot_addrs j q" "w \<in> {b..<b + osize j}" for j r q b w
    using init_frame [OF lists i p25 that(1,2) _ that(3,4)] np [OF that(1)] that(2) fr(1)
    by (auto simp: slab_init_def st2)
  have "length fs = nslots i - 1" using sl(3) by (simp add: fs_def)
  then have kind: "list_kind_ok PartialList i (length fs)" using nslots_bounds(1) [OF i] by simp
  have si: "slab_inv ?st' H ?G A1 M U (F(p := fs))"
  proof (rule slab_inv_step [OF pages l' mv _ kind])
    show "slab_page_ok ?st' i p fs" by (rule slab_page_ok_cong [OF ok3]) simp_all
    show "rp_data (ph_page ?st' q) = rp_data (ph_page st q)" if "q \<noteq> p" for q
      using that fr(3) by (simp add: slab_init_def st2)
    show "sl_mem ?st' b = sl_mem st b"
      if "j < SLAB_CACHE_COUNT" "q \<in> set (G (slab_head r j))" "q \<noteq> p" "b \<in> set (F q)" for j r q b
    proof (rule mem [OF that(1,2)])
      show "b \<in> slot_addrs j q" using slab_pages_okD(1) [OF pages that(1,2)] that(4) by (auto simp: slab_page_ok_def)
      show "b \<in> {b..<b + osize j}" using nslots_bounds(3) [OF that(1)] by simp
    qed
  qed
  have "slots = ?a # fs" using sl(2) by (simp only: fs_def)
  moreover have "distinct slots" using ok2 by (simp add: slab_page_ok_def)
  ultimately have d: "?a \<notin> set fs" "insert ?a (set fs) = slot_addrs i p" using sl(1) by auto
  have a: "?a \<in> slot_addrs i p" using d(2) by blast
  have lw: "live G F j = {b. \<exists>r q. q \<noteq> p \<and> q \<in> set (G (slab_head r j)) \<and> b \<in> slot_addrs j q \<and> b \<notin> set (F q)}"
    if "j < SLAB_CACHE_COUNT" for j
    by (rule live_without) (use np that in auto)
  have "{b. i = i \<and> b \<in> slot_addrs i p \<and> b \<notin> set fs} = {?a}" using d by auto
  then have "live ?G (F(p := fs)) i = insert ?a (live G F i)"
    unfolding lw [OF i] live_moved [OF mv i] by simp
  moreover have "?a \<notin> live G F i"
    unfolding lw [OF i] using slot_page_unique [OF lists i p25 _ _ a] by blast
  moreover have "live ?G (F(p := fs)) j = live G F j" if "j < SLAB_CACHE_COUNT" "j \<noteq> i" for j
    unfolding lw [OF that(1)] live_moved [OF mv that(1)] using that(2) by simp
  moreover have "osize i dvd ?a" by (rule slot_aligned [OF a i p25])
  moreover have "sl_mem ?st' w = sl_mem st w" if "j < SLAB_CACHE_COUNT" "b \<in> live G F j" "w \<in> {b..<b + osize j}" for j b w
    using mem [OF that(1) _ _ that(3)] that(2) unfolding live_def by blast
  ultimately have "alloc_effect st ?st' G ?G F (F(p := fs)) i ?a" by (simp add: alloc_effect_def)
  with run si show ?thesis by blast
qed

text \<open>Freeing an object: the page leaves the full list before and enters the empty list after
  the slot goes back to its chain, where needed.\<close>

lemma leave_full:
  assumes inv: "slab_inv st H G A M U F" and i: "i < SLAB_CACHE_COUNT"
    and p: "p \<in> set (G (slab_head s i))" and len: "length (F p) < nslots i"
  obtains full st1 G1 where "page_is_full st p = Inr full"
    "st1 = (if full then list_insert i PartialList p (list_remove i FullList p st) else st)"
    "slab_lists st1 H G1 A M U" "moved G G1 i p PartialList"
proof -
  have lists: "slab_lists st H G A M U" and pages: "slab_pages_ok st G F" using inv by (auto simp: slab_inv_def)
  note ok = slab_pages_okD [OF pages i p]
  obtain c f where d: "rp_data (ph_page st p) = Slab c f" and ch: "chain (sl_mem st) f (F p)"
    using ok(1) by (auto simp: slab_page_ok_def)
  have op: "page_is_full st p = Inr (f = None)" using d by (simp add: page_is_full_def rmap_def)
  show ?thesis
  proof (cases "f = None")
    case True
    then have pf: "p \<in> set (G (slab_head FullList i))"
      using ch ok(2) len p by (cases s; cases "F p"; auto)
    then show ?thesis
      using move_core(1) [OF lists i pf, of PartialList] moved_move [OF lists i pf, of PartialList] True op
      by (intro that [of True]) simp_all
  next
    case False
    then have "s = PartialList" using ch ok(2) len by (cases s; cases "F p"; auto)
    then show ?thesis using moved_same [OF lists i p] False op lists by (intro that [of False]) simp_all
  qed
qed

lemma enter_empty:
  assumes lists: "slab_lists st H G1 A M U" and i: "i < SLAB_CACHE_COUNT" and mv: "moved G G1 i p PartialList"
    and d: "rp_data (ph_page st p) = Slab c f"
  obtains st' G' where "page_is_empty st p = Inr (c = 0)"
    "st' = (if c = 0 then list_insert i EmptyList p (list_remove i PartialList p st) else st)"
    "slab_lists st' H G' A M U" "moved G G' i p (if c = 0 then EmptyList else PartialList)"
proof -
  have p: "p \<in> set (G1 (slab_head PartialList i))" using mv i unfolding moved_def by metis
  have op: "page_is_empty st p = Inr (c = 0)" using d by (simp add: page_is_empty_def rmap_def)
  have trans: "moved G G2 i p EmptyList" if "moved G1 G2 i p EmptyList" for G2
    using mv that unfolding moved_def by metis
  show ?thesis
  proof (cases "c = 0")
    case True
    then show ?thesis
      using move_core(1) [OF lists i p, of EmptyList] trans [OF moved_move [OF lists i p, of EmptyList]] op
      by (intro that) simp_all
  next
    case False
    then show ?thesis using lists mv op by (intro that) simp_all
  qed
qed

lemma free_slot_elsewhere:
  assumes lists: "slab_lists st H G A M U" and pages: "slab_pages_ok st G F" and i: "i < SLAB_CACHE_COUNT"
    and a: "a \<in> slot_addrs i p" "p < 2 ^ 25"
    and q: "j < SLAB_CACHE_COUNT" "q \<in> set (G (slab_head r j))" "q \<noteq> p" "b \<in> set (F q)"
  shows "b \<noteq> a"
proof -
  have "b \<in> slot_addrs j q" using slab_pages_okD(1) [OF pages q(1,2)] q(4) by (auto simp: slab_page_ok_def)
  then have "{a..<a + osize i} \<inter> {b..<b + osize j} = {}"
    using slot_addrs_disjoint [OF a(1) _ i q(1) a(2) sl_frame [OF lists q(1,2)]] q(3) by metis
  then show ?thesis using nslots_bounds(3) [OF i] nslots_bounds(3) [OF q(1)] by auto
qed

definition dealloc_effect ::
  "'a slab_scheme \<Rightarrow> 'a slab_scheme \<Rightarrow> (node \<Rightarrow> nat list) \<Rightarrow> (node \<Rightarrow> nat list) \<Rightarrow> (nat \<Rightarrow> usize list) \<Rightarrow>
   (nat \<Rightarrow> usize list) \<Rightarrow> nat \<Rightarrow> usize \<Rightarrow> bool"
where
  "dealloc_effect st st' G G' F F' i a \<longleftrightarrow>
     live G' F' i = live G F i - {a} \<and> (\<forall>j<SLAB_CACHE_COUNT. j \<noteq> i \<longrightarrow> live G' F' j = live G F j) \<and>
     (\<forall>w. w \<noteq> a \<longrightarrow> sl_mem st' w = sl_mem st w)"

lemma dealloc_core_slab:
  assumes inv: "slab_inv st H G A M U F" and i: "i < SLAB_CACHE_COUNT" and a: "a \<in> live G F i"
  shows "\<exists>st' G' F'. cache_dealloc st i a = Inr st' \<and> slab_inv st' H G' A M U F' \<and>
    dealloc_effect st st' G G' F F' i a"
proof -
  have lists: "slab_lists st H G A M U" and pages: "slab_pages_ok st G F" using inv by (auto simp: slab_inv_def)
  obtain s p where p: "p \<in> set (G (slab_head s i))" and ap: "a \<in> slot_addrs i p" "a \<notin> set (F p)"
    using a by (auto simp: live_def)
  note p25 = sl_frame [OF lists i p] and ok = slab_pages_okD [OF pages i p]
  have a0: "a \<noteq> 0" using slot_addrs_bounds(1) [OF ap(1) i] by (simp add: real_page_ptr_eq [OF p25] PHYS_OFFSET_def)
  have len: "length (F p) < nslots i" by (rule slab_page_ok_length [OF ok(1) i ap])
  obtain full st1 G1 where full: "page_is_full st p = Inr full"
    and st1: "st1 = (if full then list_insert i PartialList p (list_remove i FullList p st) else st)"
    and l1: "slab_lists st1 H G1 A M U" and m1: "moved G G1 i p PartialList"
    using leave_full [OF inv i p len] by metis
  have fr1: "ph_page st1 = ph_page st" "sl_mem st1 = sl_mem st" by (simp_all add: st1)
  have ok1: "slab_page_ok st1 i p (F p)" by (rule slab_page_ok_cong [OF ok(1)]) (simp_all add: fr1)
  obtain c w where op: "dealloc_slot st1 p a = Inr (slab_set p c (Some a) (st1\<lparr>sl_mem := (sl_mem st1)(a := w)\<rparr>))"
    and ok2: "slab_page_ok (slab_set p c (Some a) (st1\<lparr>sl_mem := (sl_mem st1)(a := w)\<rparr>)) i p (a # F p)"
    and emp: "c = 0 \<longleftrightarrow> Suc (length (F p)) = nslots i"
    using dealloc_slot_core [OF ok1 i ap a0] by blast
  let ?st2 = "slab_set p c (Some a) (st1\<lparr>sl_mem := (sl_mem st1)(a := w)\<rparr>)"
  let ?t = "if c = 0 then EmptyList else PartialList"
  have l2: "slab_lists ?st2 H G1 A M U" by (intro slab_lists_set slab_lists_mem l1)
  obtain st3 G3 where empty: "page_is_empty ?st2 p = Inr (c = 0)"
    and st3: "st3 = (if c = 0 then list_insert i EmptyList p (list_remove i PartialList p ?st2) else ?st2)"
    and l3: "slab_lists st3 H G3 A M U" and m3: "moved G G3 i p ?t"
    using enter_empty [OF l2 i m1, of c "Some a"] by auto
  have fr3: "sl_mem st3 = (sl_mem st)(a := w)" "\<And>q. q \<noteq> p \<Longrightarrow> rp_data (ph_page st3 q) = rp_data (ph_page st q)"
    "rp_data (ph_page st3 p) = Slab c (Some a)"
    by (simp_all add: st3 fr1)
  have si: "slab_inv st3 H G3 A M U (F(p := a # F p))"
  proof (rule slab_inv_step [OF pages l3 m3])
    show "slab_page_ok st3 i p (a # F p)" by (rule slab_page_ok_cong [OF ok2]) (simp_all add: fr3 fr1)
    show "list_kind_ok ?t i (length (a # F p))" using emp len by auto
    show "sl_mem st3 b = sl_mem st b"
      if "j < SLAB_CACHE_COUNT" "q \<in> set (G (slab_head r j))" "q \<noteq> p" "b \<in> set (F q)" for j r q b
      using free_slot_elsewhere [OF lists pages i ap(1) p25 that] by (simp add: fr3)
  qed (rule fr3(2))
  have run: "cache_dealloc st i a = Inr st3"
    using in_which_slot [OF ap(1) i p25] full empty op
    by (simp add: cache_dealloc_def Let_def st1 [symmetric] st3)
  have L: "live G F j = {b. j = i \<and> b \<in> slot_addrs i p \<and> b \<notin> set (F p)} \<union>
      {b. \<exists>r q. q \<noteq> p \<and> q \<in> set (G (slab_head r j)) \<and> b \<in> slot_addrs j q \<and> b \<notin> set (F q)}"
    if "j < SLAB_CACHE_COUNT" for j
    using live_moved [OF moved_same [OF lists i p] that, of F "F p"] by (simp add: fun_upd_idem)
  have "live G3 (F(p := a # F p)) i = live G F i - {a}"
    unfolding L [OF i] live_moved [OF m3 i] using slot_page_unique [OF lists i p25 _ _ ap(1)] by auto
  moreover have "live G3 (F(p := a # F p)) j = live G F j" if "j < SLAB_CACHE_COUNT" "j \<noteq> i" for j
    unfolding L [OF that(1)] live_moved [OF m3 that(1)] using that(2) by simp
  ultimately show ?thesis using run si fr3(1) by (auto simp: dealloc_effect_def)
qed

section \<open>Properties of the slab allocator\<close>

text \<open>Whether the cache \<open>i\<close> can serve an allocation: it has a page with a free slot, or the page
  allocator has a page left.\<close>

definition can_serve :: "(node \<Rightarrow> nat list) \<Rightarrow> nat \<Rightarrow> bool" where
  "can_serve G i \<longleftrightarrow> G (SlabPartial i) \<noteq> [] \<or> G (SlabEmpty i) \<noteq> [] \<or> can_alloc G 0"

lemma slab_index_bounds:
  assumes "sz \<le> 2048"
  shows "slab_index sz < SLAB_CACHE_COUNT" and "sz \<le> osize (slab_index sz)"
proof -
  have m: "0 < max 8 sz" "max 8 sz \<le> 2 ^ 63" "max 8 sz \<le> 2 ^ 11" using assms by auto
  obtain k where k: "trailing_zeros (next_power_of_two (max 8 sz)) = k" "max 8 sz \<le> 2 ^ k"
    and least: "\<And>j. max 8 sz \<le> 2 ^ j \<Longrightarrow> k \<le> j"
    using next_power_of_two_order [OF m(1,2)] by metis
  have "3 \<le> k"
  proof (rule ccontr)
    assume "\<not> 3 \<le> k"
    then have "(2 :: nat) ^ k \<le> 2 ^ 2" by (intro power_increasing) auto
    with k(2) show False by simp
  qed
  moreover have "k \<le> 11" by (rule least [OF m(3)])
  ultimately show "slab_index sz < SLAB_CACHE_COUNT" "sz \<le> osize (slab_index sz)"
    using k by (auto simp: slab_index_def SLAB_CACHE_COUNT_def osize_def)
qed

text \<open>C10: \<open>SlabAllocator::alloc\<close> for a size up to 2048 returns, whenever its cache can serve it, a slot
  that is large enough, aligned to its size and not in use; the slot is in use afterwards,
  every other object of every cache stays in use with its contents unchanged, and the
  invariant of the allocators is kept. Otherwise it panics.\<close>

theorem slab_alloc_correct:
  assumes inv: "slab_inv st H G A M U F" and sz: "sz \<le> 2048"
  defines "i \<equiv> slab_index sz"
  shows "sz \<le> osize i \<and>
    (if can_serve G i
     then \<exists>st' a G' A' F'. slab_alloc st sz = Inr (st', a) \<and> slab_inv st' H G' A' M U F' \<and>
       alloc_effect st st' G G' F F' i a
     else slab_alloc st sz = Inl Panic)"
proof -
  note i = slab_index_bounds [OF sz, folded i_def]
  have lists: "slab_lists st H G A M U" using inv by (simp add: slab_inv_def)
  have run: "slab_alloc st sz = cache_alloc st i" using i(1) by (simp add: slab_alloc_def i_def)
  have serve: "\<exists>st' a G' A' F'. cache_alloc st i = Inr (st', a) \<and> slab_inv st' H G' A' M U F' \<and>
       alloc_effect st st' G G' F F' i a" if "can_serve G i"
  proof (cases "G (SlabPartial i)")
    case (Cons p ps)
    then show ?thesis using alloc_partial [OF inv i(1)] by blast
  next
    case pn: Nil
    show ?thesis
    proof (cases "G (SlabEmpty i)")
      case (Cons p ps)
      then show ?thesis using alloc_empty [OF inv i(1) pn] by blast
    next
      case Nil
      then show ?thesis using alloc_new [OF inv i(1) pn Nil] that pn by (auto simp: can_serve_def)
    qed
  qed
  have "cache_alloc st i = Inl Panic" if no: "\<not> can_serve G i"
  proof -
    have "pc_batch st = BATCH_SIZE" using lists by (simp add: slab_lists_def)
    then have "global_alloc_order st 0 = Inr (st, None)"
      using global_alloc_core [OF sl_page [OF lists], of 0] no by (simp add: can_serve_def)
    then show ?thesis
      using no list_head_first(1) [OF lists i(1), of PartialList] list_head_first(1) [OF lists i(1), of EmptyList]
      by (simp add: cache_alloc_def can_serve_def unwrap_def)
  qed
  with run serve i(2) show ?thesis by simp
qed

text \<open>C11: \<open>SlabAllocator::dealloc\<close> of an object in use never panics; that object and no other is out of
  use afterwards, and only its first word is written.\<close>

theorem slab_dealloc_correct:
  assumes "slab_inv st H G A M U F" and "sz \<le> 2048" and "a \<in> live G F (slab_index sz)"
  shows "\<exists>st' G' F'. slab_dealloc st a sz = Inr st' \<and> slab_inv st' H G' A M U F' \<and>
    dealloc_effect st st' G G' F F' (slab_index sz) a"
  using dealloc_core_slab [OF assms(1) slab_index_bounds(1) [OF assms(2)] assms(3)] slab_index_bounds(1) [OF assms(2)]
  by (simp add: slab_dealloc_def)

text \<open>A state to start from: one free block of four pages and empty caches.\<close>

definition slab_heads :: "node set" where
  "slab_heads = palloc_heads \<union> {slab_head sel i |sel i. i < SLAB_CACHE_COUNT}"

definition sample_slab :: slab where
  "sample_slab = area_add_pages (set_buddy 4
     (palloc.extend sample_palloc \<lparr>sl_mem = (\<lambda>_. 0), sl_slabs = (\<lambda>i. cache_new_in i (push_bit (i + 3) 1))\<rparr>)) 2 4"

lemma slab_new_ok: "\<exists>st. slab_new_in mem ps = Inr st"
  by (auto simp: slab_new_in_def SLAB_CACHE_COUNT_def rassert_def upt_rec push_bit_eq_mult)

lemma sample_slab_inv:
  "slab_inv sample_slab slab_heads ((\<lambda>_. [])(AreaHead 2 := [4])) {} (blk (4, 2)) {} (\<lambda>_. [])"
proof -
  let ?base = "palloc.extend sample_palloc \<lparr>sl_mem = (\<lambda>_. 0 :: nat), sl_slabs = (\<lambda>i. cache_new_in i (push_bit (i + 3) 1))\<rparr>"
  have base: "zone_inv ?base slab_heads (\<lambda>_. []) {} {}"
  proof (rule zone_new_inv)
    show "PageNode q \<notin> slab_heads" for q
      using slab_head_not_area by (auto simp: slab_heads_def) (metis node.distinct slab_head.elims)+
  qed (auto simp: slab_heads_def palloc.defs percpu_new_def phys.defs zone_new_def sample_pages_def pf_defs is_free_def
      page_has_def flags_has_def)
  have fresh: "fresh_page ?base q" for q
    by (simp add: fresh_page_def is_present_def page_has_def flags_has_def pf_defs page_refcount_def
        page_order_def zone_new_def sample_pages_def percpu_new_def phys.defs palloc.defs)
  have z: "zone_inv sample_slab slab_heads ((\<lambda>_. [])(AreaHead 2 := [4])) {} (blk (4, 2))"
    using create_step [OF base, of 2 4] fresh by (simp add: MAX_ORDER_def sample_slab_def)
  have f: "pc_free_areas sample_slab k = ilist_new (CpuHead k)" "pc_batch sample_slab = BATCH_SIZE"
    "sl_slabs sample_slab i = cache_new_in i (push_bit (i + 3) 1)" for k i
    by (simp_all add: sample_slab_def area_add_pages_def Let_def set_free_def set_buddy_def page_set_flag_def
        upd_page_def percpu_new_def phys.defs palloc.defs)
  have pi: "page_inv sample_slab slab_heads ((\<lambda>_. [])(AreaHead 2 := [4])) {} (blk (4, 2)) {}"
    using z f by (auto simp: page_inv_def cpu_blocks_def ilist_new_def slab_heads_def)
  have "cache_list (cache_new_in i n) sel = \<lparr>il_head = slab_head sel i, il_count = 0\<rparr>" for i n sel
    by (cases sel) (simp_all add: cache_new_in_def ilist_new_def)
  then have "slab_lists sample_slab slab_heads ((\<lambda>_. [])(AreaHead 2 := [4])) {} (blk (4, 2)) {}"
    using pi f by (auto simp: slab_lists_def slab_heads_def blk_def cache_new_in_def osize_def push_bit_eq_mult)
  then show ?thesis by (simp add: slab_inv_def slab_pages_ok_def)
qed


lemma sample_can_alloc: "can_alloc ((\<lambda>_. [])(AreaHead 2 := [4])) 0"
  by (auto simp: can_alloc_def MAX_ORDER_def)

theorem slab_alloc_correct_witness:
  "slab_inv sample_slab slab_heads ((\<lambda>_. [])(AreaHead 2 := [4])) {} (blk (4, 2)) {} (\<lambda>_. []) \<and>
   (\<exists>st' a G' A' F'. slab_alloc sample_slab 100 = Inr (st', a) \<and> osize 4 dvd a \<and>
      slab_inv st' slab_heads G' A' (blk (4, 2)) {} F' \<and> live G' F' 4 = {a})"
proof -
  have "bit_length 99 = 7" by (simp add: bit_length.simps)
  then have i: "slab_index 100 = 4"
    using trailing_zeros_power [of 7 64]
    by (simp add: slab_index_def next_power_of_two_def trailing_zeros_def usize_mod_def)
  have "can_serve ((\<lambda>_. [])(AreaHead 2 := [4])) 4" using sample_can_alloc by (simp add: can_serve_def)
  moreover have "live ((\<lambda>_. [])(AreaHead 2 := [4])) (\<lambda>_. []) 4 = {}" by (simp add: live_def)
  ultimately obtain st' a G' A' F' where "slab_alloc sample_slab 100 = Inr (st', a)" "osize 4 dvd a"
      "slab_inv st' slab_heads G' A' (blk (4, 2)) {} F'" "live G' F' 4 = {a}"
    using slab_alloc_correct [OF sample_slab_inv, of 100] unfolding i alloc_effect_def by auto
  then show ?thesis using sample_slab_inv by blast
qed

theorem slab_dealloc_correct_witness:
  "\<exists>st a G A F. slab_alloc sample_slab 8 = Inr (st, a) \<and> a \<in> live G F 0 \<and>
     slab_inv st slab_heads G A (blk (4, 2)) {} F \<and>
     (\<exists>st' G' F'. slab_dealloc st a 8 = Inr st' \<and> slab_inv st' slab_heads G' A (blk (4, 2)) {} F' \<and>
        live G' F' 0 = {})"
proof -
  have "bit_length 7 = 3" by (simp add: bit_length.simps)
  then have i: "slab_index 8 = 0"
    using trailing_zeros_power [of 3 64]
    by (simp add: slab_index_def next_power_of_two_def trailing_zeros_def usize_mod_def)
  have c: "0 < SLAB_CACHE_COUNT" by (simp add: SLAB_CACHE_COUNT_def)
  have e: "live ((\<lambda>_. [])(AreaHead 2 := [4])) (\<lambda>_. []) 0 = {}" by (simp add: live_def)
  obtain st a G A F where al: "cache_alloc sample_slab 0 = Inr (st, a)"
    and inv: "slab_inv st slab_heads G A (blk (4, 2)) {} F" and l: "live G F 0 = {a}"
    using alloc_new [OF sample_slab_inv c _ _ sample_can_alloc] e by (auto simp: alloc_effect_def)
  have "slab_alloc sample_slab 8 = Inr (st, a)" using al c i by (simp add: slab_alloc_def)
  moreover have "\<exists>st' G' F'. slab_dealloc st a 8 = Inr st' \<and> slab_inv st' slab_heads G' A (blk (4, 2)) {} F' \<and>
        live G' F' 0 = {}"
    using slab_dealloc_correct [OF inv, of 8 a] l unfolding i dealloc_effect_def by auto
  ultimately show ?thesis using inv l by blast
qed

end
