(* ===== verification/Io.thy ===== *)
theory Io
  imports Prelude
begin

text \<open>
  Buffers and streams (\<open>src/io.rs\<close>) and the page buffer (\<open>src/kernel/mem/paging.rs\<close>).

  The traits \<open>Buffer\<close> and \<open>Stream\<close> are the locales \<open>buffer\<close> and \<open>stream\<close>: what an implementation
  promises, over the bytes it holds (\<open>contents\<close>) or still has to give (\<open>rest\<close>). An operation may
  fail with \<open>EFAULT\<close>; \<open>total_buffer\<close> and \<open>total_stream\<close> are the implementations that never do.
  Code that takes a \<open>dyn Buffer\<close> or a \<open>dyn Stream\<close> takes the operation as an argument.
\<close>

type_synonym bytes = "u8 list"

section \<open>Operations\<close>

datatype fill_result = Done usize | Partial usize | Full

fun fill_ok_or :: "fill_result \<Rightarrow> nat \<Rightarrow> unit res" where
  "fill_ok_or (Done _) err = Inr ()"
| "fill_ok_or _ err = Inl (Errno err)"

fun should_stop :: "fill_result \<Rightarrow> bool" where
  "should_stop (Done _) = False"
| "should_stop _ = True"

fun allow_partial :: "fill_result \<Rightarrow> usize" where
  "allow_partial (Done n) = n"
| "allow_partial (Partial n) = n"
| "allow_partial Full = 0"

subsection \<open>\<open>ByteBuffer\<close>\<close>

record byte_buffer =
  bb_buf :: bytes
  bb_cur :: usize

definition bb_new :: "bytes \<Rightarrow> byte_buffer" where
  "bb_new buf = \<lparr>bb_buf = buf, bb_cur = 0\<rparr>"

definition bb_total :: "byte_buffer \<Rightarrow> usize" where
  "bb_total b = length (bb_buf b)"

definition bb_available :: "byte_buffer \<Rightarrow> usize" where
  "bb_available b = length (bb_buf b) - bb_cur b"

definition bb_data :: "byte_buffer \<Rightarrow> bytes" where
  "bb_data b = take (bb_cur b) (bb_buf b)"

definition bb_fill :: "byte_buffer \<Rightarrow> bytes \<Rightarrow> (byte_buffer \<times> fill_result) res" where
  "bb_fill b data =
     (let n = bb_available b
      in if n = 0 then Inr (b, Full)
         else if n < length data then
           Inr (b\<lparr>bb_buf := splice (bb_buf b) (bb_cur b) (take n data), bb_cur := bb_cur b + n\<rparr>, Partial n)
         else
           Inr (b\<lparr>bb_buf := splice (bb_buf b) (bb_cur b) data, bb_cur := bb_cur b + length data\<rparr>,
                Done (length data)))"

text \<open>\<open>BufferFill::copy\<close> of an object whose representation is \<open>object\<close>.\<close>

definition buffer_copy :: "('b \<Rightarrow> bytes \<Rightarrow> ('b \<times> fill_result) res) \<Rightarrow> 'b \<Rightarrow> bytes \<Rightarrow> ('b \<times> fill_result) res" where
  "buffer_copy fill b object = fill b object"

text \<open>\<open>BufferWrite::write_str\<close>: \<open>fmt::Error\<close> carries no value.\<close>

definition buffer_write_str :: "('b \<Rightarrow> bytes \<Rightarrow> ('b \<times> fill_result) res) \<Rightarrow> 'b \<Rightarrow> bytes \<Rightarrow> 'b option" where
  "buffer_write_str fill b s = (case fill b s of Inr (b, Done _) \<Rightarrow> Some b | _ \<Rightarrow> None)"

text \<open>\<open>UninitBuffer<T>\<close>: a byte buffer over the representation of the object.\<close>

definition ub_new :: "bytes \<Rightarrow> byte_buffer" where
  "ub_new uninit = bb_new uninit"

definition ub_assume_init :: "byte_buffer \<Rightarrow> bytes res" where
  "ub_assume_init b = (if bb_available b \<noteq> 0 then Inl (Errno EFAULT) else Inr (bb_buf b))"

subsection \<open>\<open>PageBuffer\<close>\<close>

record page_buffer =
  pb_page :: bytes
  pb_offset :: usize

definition pb_total :: "page_buffer \<Rightarrow> usize" where
  "pb_total b = length (pb_page b)"

definition pb_data :: "page_buffer \<Rightarrow> bytes" where
  "pb_data b = take (pb_offset b) (pb_page b)"

definition pb_fill :: "page_buffer \<Rightarrow> bytes \<Rightarrow> (page_buffer \<times> fill_result) res" where
  "pb_fill b data =
     (let available = length (pb_page b) - pb_offset b
      in if available = 0 then Inr (b, Full)
         else
           let len = min (length data) available;
               b = b\<lparr>pb_page := splice (pb_page b) (pb_offset b) (take len data),
                     pb_offset := pb_offset b + len\<rparr>
           in Inr (b, if len < length data then Partial len else Done len))"

subsection \<open>\<open>ByteStream\<close>\<close>

record byte_stream =
  bs_data :: bytes
  bs_cur :: usize

definition bs_new :: "bytes \<Rightarrow> byte_stream" where
  "bs_new data = \<lparr>bs_data = data, bs_cur = 0\<rparr>"

text \<open>A poll gets the length of the buffer it may fill and returns the bytes it has put there.\<close>

definition bs_poll_data :: "byte_stream \<Rightarrow> usize \<Rightarrow> (byte_stream \<times> bytes option) res" where
  "bs_poll_data s buf_len =
     (if bs_cur s \<ge> length (bs_data s) then Inr (s, None)
      else
        let fin = min (length (bs_data s)) (bs_cur s + buf_len);
            data = drop (bs_cur s) (take fin (bs_data s))
        in Inr (s\<lparr>bs_cur := bs_cur s + length data\<rparr>, Some data))"

definition bs_ignore :: "byte_stream \<Rightarrow> usize \<Rightarrow> (byte_stream \<times> usize option) res" where
  "bs_ignore s len =
     (if bs_cur s \<ge> length (bs_data s) then Inr (s, None)
      else
        let remaining = length (bs_data s) - bs_cur s;
            ignored = min remaining len
        in Inr (s\<lparr>bs_cur := bs_cur s + ignored\<rparr>, Some ignored))"

subsection \<open>\<open>StreamRead\<close>\<close>

text \<open>The loops end only when the stream does, so they are partial: \<open>None\<close> is a loop that never
  returns. \<open>func\<close> acts on a state of its own.\<close>

partial_function (option) read_till_end ::
  "('s \<Rightarrow> usize \<Rightarrow> ('s \<times> bytes option) res) \<Rightarrow> ('a \<Rightarrow> bytes \<Rightarrow> 'a res) \<Rightarrow> usize \<Rightarrow> 's \<Rightarrow> 'a \<Rightarrow> usize \<Rightarrow>
   ('s \<times> 'a \<times> usize) res option"
where
  "read_till_end poll_data func buf_len s a nread =
     (case poll_data s buf_len of
        Inl e \<Rightarrow> Some (Inl e)
      | Inr (s, r) \<Rightarrow>
          (case r of
             None \<Rightarrow> Some (Inr (s, a, nread))
           | Some data \<Rightarrow>
               (case func a data of
                  Inl e \<Rightarrow> Some (Inl e)
                | Inr a \<Rightarrow> read_till_end poll_data func buf_len s a (nread + length data))))"

partial_function (option) ignore_all ::
  "('s \<Rightarrow> usize \<Rightarrow> ('s \<times> usize option) res) \<Rightarrow> 's \<Rightarrow> usize \<Rightarrow> ('s \<times> usize) res option"
where
  "ignore_all ignore s n =
     (case ignore s (usize_mod - 1) of
        Inl e \<Rightarrow> Some (Inl e)
      | Inr (s, r) \<Rightarrow>
          (case r of
             None \<Rightarrow> Some (Inr (s, n))
           | Some len \<Rightarrow> ignore_all ignore s (n + len)))"

subsection \<open>\<open>Chunks\<close>\<close>

record chunks =
  ck_end :: usize
  ck_cur :: usize
  ck_chunk_len :: usize

definition chunks_new :: "usize \<Rightarrow> usize \<Rightarrow> usize \<Rightarrow> chunks" where
  "chunks_new start total_len chunk_len =
     \<lparr>ck_end = uadd start total_len, ck_cur = start, ck_chunk_len = chunk_len\<rparr>"

definition chunks_next :: "chunks \<Rightarrow> chunks \<times> (usize \<times> usize) option" where
  "chunks_next c =
     (if ck_cur c \<ge> ck_end c then (c, None)
      else
        let start = ck_cur c;
            len = min (ck_chunk_len c) (ck_end c - start)
        in (c\<lparr>ck_cur := uadd (ck_cur c) (ck_chunk_len c)\<rparr>, Some (start, len)))"

text \<open>What a \<open>for\<close> loop over the iterator sees.\<close>

partial_function (option) chunks_all :: "chunks \<Rightarrow> (usize \<times> usize) list option" where
  "chunks_all c =
     (case chunks_next c of
        (c, r) \<Rightarrow>
          (case r of None \<Rightarrow> Some [] | Some x \<Rightarrow> Option.bind (chunks_all c) (\<lambda>xs. Some (x # xs))))"

section \<open>The contracts of \<open>Buffer\<close> and \<open>Stream\<close>\<close>

locale buffer =
  fixes inv :: "'b \<Rightarrow> bool" and capacity :: "'b \<Rightarrow> usize" and contents :: "'b \<Rightarrow> bytes"
    and fill :: "'b \<Rightarrow> bytes \<Rightarrow> ('b \<times> fill_result) res"
  assumes contents_le: "inv b \<Longrightarrow> length (contents b) \<le> capacity b"
    and fill_ok: "inv b \<Longrightarrow> fill b data = Inr (b', r) \<Longrightarrow>
      inv b' \<and> capacity b' = capacity b \<and> contents b' = contents b @ take (capacity b - length (contents b)) data \<and>
      allow_partial r = min (length data) (capacity b - length (contents b)) \<and>
      (data \<noteq> [] \<longrightarrow> (should_stop r \<longleftrightarrow> capacity b - length (contents b) < length data))"
    and fill_err: "inv b \<Longrightarrow> fill b data = Inl f \<Longrightarrow> f = Errno EFAULT"
begin

lemma fill_two:
  assumes inv: "inv b" and f1: "fill b d1 = Inr (b1, r1)" and f2: "fill b1 d2 = Inr (b2, r2)"
  shows "inv b2 \<and> capacity b2 = capacity b \<and>
    contents b2 = contents b @ take (capacity b - length (contents b)) (d1 @ d2) \<and>
    allow_partial r1 + allow_partial r2 = min (length (d1 @ d2)) (capacity b - length (contents b))"
  using fill_ok [OF inv f1] fill_ok [OF _ f2] contents_le [OF inv] by auto

end

locale total_buffer = buffer +
  assumes fill_total: "inv b \<Longrightarrow> \<exists>b' r. fill b data = Inr (b', r)"

locale stream =
  fixes inv :: "'s \<Rightarrow> bool" and rest :: "'s \<Rightarrow> bytes"
    and poll_data :: "'s \<Rightarrow> usize \<Rightarrow> ('s \<times> bytes option) res"
    and ignore :: "'s \<Rightarrow> usize \<Rightarrow> ('s \<times> usize option) res"
  assumes poll_ok: "inv s \<Longrightarrow> poll_data s n = Inr (s', r) \<Longrightarrow>
      inv s' \<and> r = (if rest s = [] then None else Some (take n (rest s))) \<and> rest s' = drop n (rest s)"
    and poll_err: "inv s \<Longrightarrow> poll_data s n = Inl f \<Longrightarrow> f = Errno EFAULT"
    and ignore_ok: "inv s \<Longrightarrow> \<exists>s'. ignore s n = Inr (s', if rest s = [] then None else Some (min n (length (rest s)))) \<and>
      inv s' \<and> rest s' = drop n (rest s)"

text \<open>The pieces in which a stream arrives through a buffer of length \<open>n\<close>.\<close>

function pieces :: "nat \<Rightarrow> 'a list \<Rightarrow> 'a list list" where
  "pieces n xs = (if xs = [] \<or> n = 0 then [] else take n xs # pieces n (drop n xs))"
  by pat_completeness auto
termination
  by (relation "measure (\<lambda>(n, xs). length xs)") auto

declare pieces.simps [simp del]

lemma concat_pieces: "0 < n \<Longrightarrow> concat (pieces n xs) = xs"
proof (induction n xs rule: pieces.induct)
  case (1 n xs)
  then show ?case by (subst pieces.simps) auto
qed

lemma pieces_length: "d \<in> set (pieces n xs) \<Longrightarrow> length d \<le> n \<and> d \<noteq> []"
proof (induction n xs rule: pieces.induct)
  case (1 n xs)
  then show ?case by (subst (asm) (2) pieces.simps) (auto split: if_splits)
qed

locale total_stream = stream +
  assumes poll_total: "inv s \<Longrightarrow> 0 < n \<Longrightarrow> \<exists>s' r. poll_data s n = Inr (s', r)"
begin

lemma read_till_end_pieces:
  assumes "inv s" and "0 < n" and func: "\<And>a d. func a d = Inr (g a d)"
  shows "\<exists>s'. read_till_end poll_data func n s a t =
      Some (Inr (s', fold (\<lambda>d a. g a d) (pieces n (rest s)) a, t + length (rest s))) \<and> rest s' = [] \<and> inv s'"
  using assms(1)
proof (induction "length (rest s)" arbitrary: s a t rule: less_induct)
  case less
  obtain s1 r where p: "poll_data s n = Inr (s1, r)" using poll_total [OF less.prems assms(2)] by blast
  note ok = poll_ok [OF less.prems p]
  show ?case
  proof (cases "rest s = []")
    case True
    with ok p show ?thesis by (subst read_till_end.simps) (simp add: pieces.simps)
  next
    case False
    have "length (rest s1) < length (rest s)" using ok False assms(2) by simp
    from less.hyps [OF this, of "g a (take n (rest s))" "t + length (take n (rest s))"] ok
    obtain s' where "read_till_end poll_data func n s1 (g a (take n (rest s))) (t + length (take n (rest s))) =
        Some (Inr (s', fold (\<lambda>d a. g a d) (pieces n (rest s1)) (g a (take n (rest s))),
          t + length (take n (rest s)) + length (rest s1)))" "rest s' = []" "inv s'"
      by blast
    moreover have "length (take n (rest s)) + length (rest s1) = length (rest s)" using ok by simp
    ultimately show ?thesis
      using ok p False assms(2) func
      by (subst read_till_end.simps) (simp add: pieces.simps [of n "rest s"] add.assoc)
  qed
qed

end

section \<open>The implementations keep the contracts\<close>

interpretation bb: total_buffer "\<lambda>b. bb_cur b \<le> length (bb_buf b)" bb_total bb_data bb_fill
  by unfold_locales
    (auto simp: bb_total_def bb_data_def bb_fill_def bb_available_def Let_def min_def splice_def
      split: if_splits)

interpretation pb: total_buffer "\<lambda>b. pb_offset b \<le> length (pb_page b)" pb_total pb_data pb_fill
  by unfold_locales
    (auto simp: pb_total_def pb_data_def pb_fill_def Let_def min_def splice_def
      split: if_splits)

interpretation bs: total_stream "\<lambda>s. bs_cur s \<le> length (bs_data s)" "\<lambda>s. drop (bs_cur s) (bs_data s)"
  bs_poll_data bs_ignore
  by unfold_locales (auto simp: bs_poll_data_def bs_ignore_def Let_def min_def drop_take add.commute split: if_splits)

section \<open>Properties\<close>

text \<open>C12: \<open>read_till_end\<close> on a byte stream with a buffer that is not empty ends; it hands the whole
  rest of the stream to the function, in order and in pieces of the length of the buffer, and
  returns the number of bytes.\<close>

theorem read_till_end_complete:
  assumes "0 < n" and "\<And>a d. func a d = Inr (g a d)"
  shows "\<exists>s'. read_till_end bs_poll_data func n (bs_new data) a 0 =
      Some (Inr (s', fold (\<lambda>d a. g a d) (pieces n data) a, length data)) \<and>
    concat (pieces n data) = data \<and> (\<forall>d\<in>set (pieces n data). length d \<le> n \<and> d \<noteq> [])"
proof -
  have s: "bs_cur (bs_new data) \<le> length (bs_data (bs_new data))"
    "drop (bs_cur (bs_new data)) (bs_data (bs_new data)) = data"
    by (simp_all add: bs_new_def)
  from bs.read_till_end_pieces [where n = n and a = a and t = 0 and func = func and g = g, OF s(1) assms]
  show ?thesis unfolding s(2) using concat_pieces [OF assms(1), of data] pieces_length [of _ n data] by auto
qed

theorem read_till_end_complete_witness:
  "\<exists>s'. read_till_end bs_poll_data (\<lambda>a d. Inr (a @ d)) 2 (bs_new [1, 2, 3]) [] 0 =
     Some (Inr (s', [1, 2, 3], 3))"
  using read_till_end_complete [of 2 "\<lambda>a d. Inr (a @ d)" "\<lambda>a d. a @ d" "[1, 2, 3]" "[]"]
  by (auto simp: pieces.simps)

lemma chunks_all_from:
  assumes "0 < k" and "e + k \<le> usize_mod" and "cur < usize_mod"
  shows "\<exists>xs. chunks_all \<lparr>ck_end = e, ck_cur = cur, ck_chunk_len = k\<rparr> = Some xs \<and>
    concat (map (\<lambda>(s, l). [s..<s + l]) xs) = [cur..<e] \<and> (\<forall>(s, l)\<in>set xs. 0 < l \<and> l \<le> k)"
  using assms(3)
proof (induction "e - cur" arbitrary: cur rule: less_induct)
  case less
  show ?case
  proof (cases "cur < e")
    case False
    then show ?thesis by (subst chunks_all.simps) (simp add: chunks_next_def)
  next
    case True
    define l where "l = min k (e - cur)"
    have l: "0 < l" "l \<le> k" "cur + l \<le> e" using True assms(1) by (auto simp: l_def)
    have nowrap: "uadd cur k = cur + k" using True assms(2) by (simp add: uadd_eq)
    have "e - (cur + k) < e - cur" "cur + k < usize_mod" using True assms by auto
    from less.hyps [OF this] obtain xs where
      xs: "chunks_all \<lparr>ck_end = e, ck_cur = cur + k, ck_chunk_len = k\<rparr> = Some xs"
      "concat (map (\<lambda>(s, l). [s..<s + l]) xs) = [cur + k..<e]" "\<forall>(s, l)\<in>set xs. 0 < l \<and> l \<le> k"
      by blast
    have "chunks_all \<lparr>ck_end = e, ck_cur = cur, ck_chunk_len = k\<rparr> = Some ((cur, l) # xs)"
      using True xs(1) nowrap by (subst chunks_all.simps) (simp add: chunks_next_def l_def Let_def)
    moreover have "[cur..<cur + l] @ [cur + k..<e] = [cur..<e]"
    proof (cases "k \<le> e - cur")
      case True
      then have "l = k" by (simp add: l_def)
      with l(3) show ?thesis using upt_add_eq_append [of cur "cur + k" "e - (cur + k)"] by simp
    qed (use \<open>cur < e\<close> in \<open>simp add: l_def\<close>)
    ultimately show ?thesis using xs l by auto
  qed
qed

text \<open>C13: the chunks of \<open>Chunks\<close> end, cover every index from \<open>start\<close> to \<open>start + total_len\<close> once and in
  order, and none is empty or longer than \<open>chunk_len\<close>.\<close>

theorem chunks_partition:
  assumes "0 < chunk_len" and "start + total_len + chunk_len \<le> usize_mod"
  shows "\<exists>xs. chunks_all (chunks_new start total_len chunk_len) = Some xs \<and>
    concat (map (\<lambda>(s, l). [s..<s + l]) xs) = [start..<start + total_len] \<and>
    (\<forall>(s, l)\<in>set xs. 0 < l \<and> l \<le> chunk_len)"
  using chunks_all_from [of chunk_len "start + total_len" start] assms
  by (simp add: chunks_new_def uadd_eq)

theorem chunks_partition_witness:
  "\<exists>xs. chunks_all (chunks_new 10 9 4) = Some xs \<and> concat (map (\<lambda>(s, l). [s..<s + l]) xs) = [10..<19]"
proof -
  have "(0::nat) < 4" "10 + 9 + 4 \<le> usize_mod" by (simp_all add: usize_mod_def)
  from chunks_partition [OF this] show ?thesis by auto
qed

end
