(* ===== verification/Path.thy ===== *)
theory Path
  imports Prelude
begin

text \<open>
  Path names (\<open>src/path.rs\<close>): the checks of \<open>Path::new\<close> and the iterator that cuts a path into
  components. Paths are byte strings; \<open>PathIterator\<close> is its remaining slice \<open>rem\<close>.
\<close>

section \<open>Operations\<close>

definition MAX_NAME_LENGTH :: nat where "MAX_NAME_LENGTH = 255"

definition slash :: u8 where "slash = 47"
definition dot :: u8 where "dot = 46"

datatype path_component = Name "u8 list" | TrailingEmpty | Current | Parent

definition path_new :: "u8 list \<Rightarrow> u8 list res" where
  "path_new all =
     (if all = [] then Inl (Errno ENOENT)
      else if length all > MAX_NAME_LENGTH then Inl (Errno ENAMETOOLONG)
      else Inr all)"

definition path_is_absolute :: "u8 list \<Rightarrow> bool" where
  "path_is_absolute all = (take 1 all = [slash])"

text \<open>The part of \<open>rem\<close> from the first byte that is not a slash.\<close>

definition trim_slashes :: "u8 list \<Rightarrow> u8 list" where
  "trim_slashes rem = (case position (\<lambda>c. c \<noteq> slash) rem of Some pos \<Rightarrow> drop pos rem | None \<Rightarrow> [])"

definition component_of :: "u8 list \<Rightarrow> path_component" where
  "component_of cur =
     (if cur = [] then TrailingEmpty
      else if cur = [dot] then Current
      else if cur = [dot, dot] then Parent
      else Name cur)"

definition path_next :: "u8 list \<Rightarrow> (u8 list \<times> path_component) option" where
  "path_next rem =
     (if rem = [] then None
      else
        let trimmed = trim_slashes rem;
            next_start = (case position (\<lambda>c. c = slash) trimmed of
                            Some pos \<Rightarrow> pos | None \<Rightarrow> length trimmed)
        in Some (drop next_start trimmed, component_of (take next_start trimmed)))"

lemma trim_slashes_eq: "trim_slashes rem = dropWhile (\<lambda>c. c = slash) rem"
  by (auto simp: trim_slashes_def position_def Let_def dropWhile_eq_drop
      split: option.splits if_splits)

lemma path_next_eq:
  "path_next rem = (if rem = [] then None else
     let trimmed = dropWhile (\<lambda>c. c = slash) rem
     in Some (dropWhile (\<lambda>c. c \<noteq> slash) trimmed, component_of (takeWhile (\<lambda>c. c \<noteq> slash) trimmed)))"
proof -
  have "(case position (\<lambda>c. c = slash) xs of Some pos \<Rightarrow> pos | None \<Rightarrow> length xs) =
      length (takeWhile (\<lambda>c. c \<noteq> slash) xs)" for xs
    using length_takeWhile_le [of "\<lambda>c. c \<noteq> slash" xs] by (auto simp: position_def Let_def split: if_splits)
  moreover have "drop (length (takeWhile P xs)) xs = dropWhile P xs" "take (length (takeWhile P xs)) xs = takeWhile P xs"
    for P and xs :: "u8 list"
    by (simp_all add: dropWhile_eq_drop takeWhile_eq_take [symmetric])
  ultimately show ?thesis by (simp add: path_next_def trim_slashes_eq Let_def)
qed

text \<open>Every call of \<open>next\<close> consumes at least one byte, so that the iteration ends.\<close>

lemma path_next_shorter:
  assumes "path_next rem = Some (rem', c)"
  shows "length rem' < length rem"
proof -
  have nonempty: "rem \<noteq> []" and
    rem': "rem' = dropWhile (\<lambda>c. c \<noteq> slash) (dropWhile (\<lambda>c. c = slash) rem)"
    using assms by (auto simp: path_next_eq Let_def split: if_splits)
  have short: "length (dropWhile P xs) \<le> length xs" for P and xs :: "u8 list"
    by (simp add: length_dropWhile_le)
  show ?thesis
  proof (cases rem)
    case (Cons c xs)
    then show ?thesis
      unfolding rem'
      using short [of "\<lambda>c. c \<noteq> slash" "dropWhile (\<lambda>c. c = slash) xs"]
        short [of "\<lambda>c. c = slash" xs] short [of "\<lambda>c. c \<noteq> slash" xs]
      by auto
  qed (use nonempty in simp)
qed

text \<open>The components that a \<open>for\<close> loop over \<open>path.iter()\<close> sees.\<close>

function path_iter :: "u8 list \<Rightarrow> path_component list" where
  "path_iter rem = (case path_next rem of None \<Rightarrow> [] | Some (rem', c) \<Rightarrow> c # path_iter rem')"
  by pat_completeness auto
termination
  by (relation "measure length") (auto dest: path_next_shorter)

declare path_iter.simps [simp del]

section \<open>Printing paths\<close>

text \<open>The textual form of a component, and of a path: an optional leading slash, components separated
  by non-empty runs of slashes, and an optional trailing run.\<close>

definition name_ok :: "u8 list \<Rightarrow> bool" where
  "name_ok n \<longleftrightarrow> n \<noteq> [] \<and> slash \<notin> set n \<and> n \<noteq> [dot] \<and> n \<noteq> [dot, dot]"

fun component_ok :: "path_component \<Rightarrow> bool" where
  "component_ok (Name n) = name_ok n"
| "component_ok TrailingEmpty = False"
| "component_ok _ = True"

fun print_component :: "path_component \<Rightarrow> u8 list" where
  "print_component (Name n) = n"
| "print_component TrailingEmpty = []"
| "print_component Current = [dot]"
| "print_component Parent = [dot, dot]"

text \<open>A component is printed after a run of \<open>k\<close> slashes.\<close>

fun print_path :: "(nat \<times> path_component) list \<Rightarrow> nat \<Rightarrow> u8 list" where
  "print_path [] trailing = replicate trailing slash"
| "print_path ((k, c) # cs) trailing = replicate k slash @ print_component c @ print_path cs trailing"

definition starts_with_slash :: "u8 list \<Rightarrow> bool" where
  "starts_with_slash xs \<longleftrightarrow> xs = [] \<or> (\<exists>ys. xs = slash # ys)"

lemma dot_neq_slash [simp]: "dot \<noteq> slash" "slash \<noteq> dot"
  by (simp_all add: dot_def slash_def)

lemma print_component_ok:
  assumes "component_ok c"
  shows "print_component c \<noteq> []" "slash \<notin> set (print_component c)" "component_of (print_component c) = c"
  using assms by (cases c; simp add: name_ok_def component_of_def)+

lemma dropWhile_slashes: "dropWhile (\<lambda>c. c = slash) (replicate k slash @ xs) = dropWhile (\<lambda>c. c = slash) xs"
  by (induction k) auto

lemma split_component:
  assumes "slash \<notin> set n" and "starts_with_slash xs"
  shows "takeWhile (\<lambda>c. c \<noteq> slash) (n @ xs) = n" "dropWhile (\<lambda>c. c \<noteq> slash) (n @ xs) = xs"
proof -
  have "\<forall>c\<in>set n. c \<noteq> slash" using assms(1) by auto
  then show "takeWhile (\<lambda>c. c \<noteq> slash) (n @ xs) = n" "dropWhile (\<lambda>c. c \<noteq> slash) (n @ xs) = xs"
    using assms(2) by (auto simp: starts_with_slash_def takeWhile_append2 dropWhile_append2)
qed

lemma path_next_print:
  assumes "component_ok c" and "starts_with_slash rest"
  shows "path_next (replicate k slash @ print_component c @ rest) = Some (rest, c)"
proof -
  have n: "print_component c \<noteq> []" "slash \<notin> set (print_component c)" "component_of (print_component c) = c"
    using print_component_ok [OF assms(1)] by auto
  have "dropWhile (\<lambda>c. c = slash) (replicate k slash @ print_component c @ rest) = print_component c @ rest"
    unfolding dropWhile_slashes using n(1,2) by (cases "print_component c") auto
  then show ?thesis using n split_component [OF n(2) assms(2)] by (simp add: path_next_eq)
qed

lemma path_iter_slashes: "path_iter (replicate k slash) = (if k = 0 then [] else [TrailingEmpty])"
proof (cases k)
  case (Suc m)
  have "path_next (replicate k slash) = Some ([], TrailingEmpty)"
    using dropWhile_slashes [of k "[]"] Suc by (simp add: path_next_eq component_of_def)
  moreover have "path_iter [] = []" by (simp add: path_iter.simps path_next_def)
  ultimately show ?thesis using Suc by (simp add: path_iter.simps [of "slash # _"])
qed (simp add: path_iter.simps path_next_def)

lemma print_path_starts:
  assumes "\<forall>(k, c)\<in>set cs. 0 < k"
  shows "starts_with_slash (print_path cs trailing)"
proof (cases cs)
  case Nil
  then show ?thesis by (cases trailing) (auto simp: starts_with_slash_def)
next
  case (Cons kc cs')
  with assms obtain k c where "kc = (Suc k, c)" by (cases kc) (auto simp: gr0_conv_Suc)
  with Cons show ?thesis by (simp add: starts_with_slash_def)
qed

lemma path_iter_print:
  assumes "\<forall>(k, c)\<in>set cs. component_ok c" and "\<forall>(k, c)\<in>set (tl cs). 0 < k"
  shows "path_iter (print_path cs trailing) = map snd cs @ (if trailing = 0 then [] else [TrailingEmpty])"
  using assms
proof (induction cs)
  case Nil
  show ?case by (simp add: path_iter_slashes)
next
  case (Cons kc cs)
  obtain k c where kc: "kc = (k, c)" by fastforce
  have "\<forall>(k, c)\<in>set (tl cs). 0 < k" using Cons.prems(2) by (cases cs) auto
  then have ih: "path_iter (print_path cs trailing) = map snd cs @ (if trailing = 0 then [] else [TrailingEmpty])"
    using Cons by auto
  have "path_next (print_path (kc # cs) trailing) = Some (print_path cs trailing, c)"
    using Cons.prems kc by (simp add: path_next_print print_path_starts)
  then show ?case using ih kc by (subst path_iter.simps) simp
qed

text \<open>C14: printing and parsing a path. A path written from components separated by any number of slashes,
  with any number of slashes in front and behind, iterates to exactly these components, followed by
  \<open>TrailingEmpty\<close> when it ends in a slash.\<close>

theorem path_roundtrip:
  assumes "\<forall>(k, c)\<in>set cs. component_ok c" and "\<forall>(k, c)\<in>set (tl cs). 0 < k"
    and "length (print_path cs trailing) \<le> 255" and "print_path cs trailing \<noteq> []"
  shows "\<exists>p. path_new (print_path cs trailing) = Inr p \<and>
    path_iter p = map snd cs @ (if trailing = 0 then [] else [TrailingEmpty])"
  using path_iter_print [OF assms(1,2)] assms(3,4) by (simp add: path_new_def MAX_NAME_LENGTH_def)

theorem path_roundtrip_witness:
  "\<exists>p. path_new (print_path [(1, Name [97]), (Suc 1, Parent), (1, Name [98, 99])] 1) = Inr p \<and>
    path_iter p = [Name [97], Parent, Name [98, 99], TrailingEmpty]"
  using path_roundtrip [of "[(1, Name [97]), (Suc 1, Parent), (1, Name [98, 99])]" 1]
  by (simp add: name_ok_def slash_def dot_def)

lemma component_of_cases:
  assumes "slash \<notin> set n"
  shows "component_ok (component_of n) \<or> component_of n = TrailingEmpty \<and> n = []"
    "component_of n \<noteq> TrailingEmpty \<Longrightarrow> print_component (component_of n) = n"
  using assms by (auto simp: component_of_def name_ok_def)

lemma takeWhile_trimmed_Nil:
  "takeWhile (\<lambda>c. c \<noteq> s) (dropWhile (\<lambda>c. c = s) xs) = [] \<Longrightarrow> dropWhile (\<lambda>c. c = s) xs = []"
  using hd_dropWhile [of "\<lambda>c. c = s" xs] by (simp only: takeWhile_eq_Nil_iff) blast

lemma dropWhile_starts: "starts_with_slash (dropWhile (\<lambda>c. c \<noteq> slash) xs)"
  by (induction xs) (auto simp: starts_with_slash_def)

lemma path_next_cases:
  assumes "path_next rem = Some (rem', c)"
  shows "c = TrailingEmpty \<and> rem' = [] \<or> component_ok c" "starts_with_slash rem'"
proof -
  define t where "t = dropWhile (\<lambda>c. c = slash) rem"
  define n where "n = takeWhile (\<lambda>c. c \<noteq> slash) t"
  have eq: "rem' = dropWhile (\<lambda>c. c \<noteq> slash) t" "c = component_of n"
    using assms by (auto simp: path_next_eq Let_def t_def n_def split: if_splits)
  have "slash \<notin> set n" by (auto simp: n_def dest: set_takeWhileD)
  moreover have "n = [] \<Longrightarrow> t = []" unfolding n_def t_def by (rule takeWhile_trimmed_Nil)
  ultimately have "component_ok c \<or> c = TrailingEmpty \<and> t = []"
    using component_of_cases(1) unfolding eq(2) by blast
  then show "c = TrailingEmpty \<and> rem' = [] \<or> component_ok c" by (auto simp: eq(1))
  show "starts_with_slash rem'" unfolding eq(1) by (rule dropWhile_starts)
qed

text \<open>C15: for every path, the names the iterator yields are never empty, contain no slash and are
  neither \<open>.\<close> nor \<open>..\<close>, and \<open>TrailingEmpty\<close> only comes last.\<close>

theorem path_iter_wellformed:
  "(\<forall>i < length (path_iter rem). component_ok (path_iter rem ! i) \<or>
      path_iter rem ! i = TrailingEmpty \<and> Suc i = length (path_iter rem))"
proof (induction rem rule: path_iter.induct)
  case (1 rem)
  show ?case
  proof (cases "path_next rem")
    case None
    then show ?thesis by (simp add: path_iter.simps [of rem])
  next
    case (Some p)
    obtain rem' c where p: "p = (rem', c)" by fastforce
    have it: "path_iter rem = c # path_iter rem'" using Some p by (simp add: path_iter.simps [of rem])
    have "path_iter [] = []" by (simp add: path_iter.simps path_next_def)
    then have "component_ok c \<or> c = TrailingEmpty \<and> path_iter rem' = []"
      using path_next_cases(1) [of rem rem' c] Some p by auto
    then show ?thesis using 1 [OF Some p [symmetric]] unfolding it by (auto simp: nth_Cons split: nat.splits)
  qed
qed

theorem path_iter_wellformed_witness:
  "path_iter [47, 97, 47] = [Name [97], TrailingEmpty] \<and>
     (component_ok (path_iter [47, 97, 47] ! 1) \<or>
      path_iter [47, 97, 47] ! 1 = TrailingEmpty \<and> Suc 1 = length (path_iter [47, 97, 47]))"
proof -
  have it: "path_iter [47, 97, 47] = [Name [97], TrailingEmpty]"
    by (simp add: path_iter.simps path_next_def trim_slashes_def component_of_def slash_def dot_def position_def Let_def)
  have "1 < length (path_iter [47, 97, 47])" unfolding it by simp
  with it path_iter_wellformed [of "[47, 97, 47]"] show ?thesis by blast
qed

end
