(* ===== verification/User_Mem.thy ===== *)
theory User_Mem
  imports Io
begin

text \<open>
  Access to user memory (\<open>src/kernel/user/dataflow.rs\<close>): pointers checked against the user range,
  the assembly loops that copy bytes and scan strings, and the buffers, strings and streams built
  on them.

  User memory is a byte for every address and what the current process may load and store there
  after demand paging. A fault that the page fault handler cannot resolve jumps to the end of the loop
  (the \<open>.fix\<close> entries), which leaves the counter register at the number of bytes that are missing.
\<close>

section \<open>Operations\<close>

record umem =
  um_byte :: "usize \<Rightarrow> u8"
  um_readable :: "usize \<Rightarrow> bool"
  um_writable :: "usize \<Rightarrow> bool"
  um_preempt_count :: nat

definition assert_preempt_enabled :: "umem \<Rightarrow> 'a res \<Rightarrow> 'a res" where
  "assert_preempt_enabled m r = rassert (um_preempt_count m = 0) r"

subsection \<open>\<open>User<T>\<close>\<close>

definition user_is_null :: "usize \<Rightarrow> bool" where
  "user_is_null addr = (addr = 0)"

definition user_offset :: "usize \<Rightarrow> int \<Rightarrow> usize res" where
  "user_offset addr off =
     (if 0 \<le> int addr + off \<and> int addr + off < int usize_mod then Inr (nat (int addr + off)) else Inl Panic)"

text \<open>\<open>usize as isize\<close>.\<close>

definition as_isize :: "usize \<Rightarrow> int" where
  "as_isize n = (if n < 2 ^ 63 then int n else int n - 2 ^ 64)"

subsection \<open>\<open>CheckedUserPointer\<close>\<close>

record checked_user_pointer =
  cup_ptr :: usize
  cup_len :: usize

definition USER_MAX_ADDR :: usize where "USER_MAX_ADDR = 0x7fffffffffff"

definition cup_new :: "usize \<Rightarrow> usize \<Rightarrow> checked_user_pointer res" where
  "cup_new ptr len =
     (if user_is_null ptr then Inl (Errno EFAULT)
      else if ptr + len \<ge> usize_mod then Inl (Errno EFAULT)
      else if ptr + len > USER_MAX_ADDR then Inl (Errno EFAULT)
      else Inr \<lparr>cup_ptr = ptr, cup_len = len\<rparr>)"

definition cup_forward :: "checked_user_pointer \<Rightarrow> usize \<Rightarrow> checked_user_pointer res" where
  "cup_forward p offset =
     rassert (offset \<le> cup_len p)
       (rmap (\<lambda>ptr. \<lparr>cup_ptr = ptr, cup_len = cup_len p - offset\<rparr>) (user_offset (cup_ptr p) (as_isize offset)))"

text \<open>The loop of \<open>read\<close>: \<open>a1\<close> runs through user memory, \<open>a0\<close> counts down. The result is the bytes
  stored at the destination and the final counter.\<close>

function copy_in :: "umem \<Rightarrow> usize \<Rightarrow> usize \<Rightarrow> bytes \<times> usize" where
  "copy_in m a1 a0 =
     (if \<not> um_readable m a1 then ([], a0)
      else
        let t0 = um_byte m a1; a0 = usub a0 1
        in if a0 = 0 then ([t0], a0)
           else (case copy_in m (uadd a1 1) a0 of (bs, r) \<Rightarrow> (t0 # bs, r)))"
  by pat_completeness auto

text \<open>The counter wraps below zero, so that zero counts as the full range.\<close>

definition counter :: "usize \<Rightarrow> nat" where
  "counter a0 = (if a0 = 0 then usize_mod else a0)"

lemma counter_decreases:
  assumes "0 < usub a0 (Suc 0)"
  shows "counter (usub a0 (Suc 0)) < counter a0"
proof (cases "0 < a0 \<and> a0 < usize_mod")
  case True
  then show ?thesis using assms by (simp add: counter_def usub_eq)
next
  case False
  then show ?thesis using assms usub_less [of a0 "Suc 0"] by (auto simp: counter_def simp del: usub_less)
qed

termination copy_in
  by (relation "measure (\<lambda>(m, a1, a0). counter a0)")
    (auto simp: counter_decreases)

text \<open>The loop of \<open>write\<close>: \<open>src\<close> is kernel memory from the pointer \<open>data\<close> on, \<open>a1\<close> the offset
  in it.\<close>

function copy_out :: "umem \<Rightarrow> (usize \<Rightarrow> u8) \<Rightarrow> usize \<Rightarrow> usize \<Rightarrow> usize \<Rightarrow> umem \<times> usize" where
  "copy_out m src a1 a2 a0 =
     (if \<not> um_writable m a2 then (m, a0)
      else
        let m = m\<lparr>um_byte := (um_byte m)(a2 := src a1)\<rparr>; a0 = usub a0 1
        in if a0 = 0 then (m, a0) else copy_out m src (uadd a1 1) (uadd a2 1) a0)"
  by pat_completeness auto
termination copy_out
  by (relation "measure (\<lambda>(m, src, a1, a2, a0). counter a0)")
    (auto simp: counter_decreases)

function zero_out :: "umem \<Rightarrow> usize \<Rightarrow> usize \<Rightarrow> umem \<times> usize" where
  "zero_out m a1 a0 =
     (if \<not> um_writable m a1 then (m, a0)
      else
        let m = m\<lparr>um_byte := (um_byte m)(a1 := 0)\<rparr>; a0 = usub a0 1
        in if a0 = 0 then (m, a0) else zero_out m (uadd a1 1) a0)"
  by pat_completeness auto
termination zero_out
  by (relation "measure (\<lambda>(m, a1, a0). counter a0)")
    (auto simp: counter_decreases)

function string_scan :: "umem \<Rightarrow> usize \<Rightarrow> usize \<Rightarrow> usize" where
  "string_scan m a1 a0 =
     (if \<not> um_readable m a1 then a0
      else if um_byte m a1 = 0 then a0
      else let a0 = usub a0 1 in if a0 = 0 then a0 else string_scan m (uadd a1 1) a0)"
  by pat_completeness auto
termination string_scan
  by (relation "measure (\<lambda>(m, a1, a0). counter a0)")
    (auto simp: counter_decreases)

declare copy_in.simps [simp del] copy_out.simps [simp del] zero_out.simps [simp del] string_scan.simps [simp del]

text \<open>\<open>read\<close> returns the bytes it has stored at the kernel buffer beside its result, \<open>write\<close> and \<open>zero\<close>
  the user memory: both are changed up to the fault when they fail.\<close>

definition cup_read :: "umem \<Rightarrow> checked_user_pointer \<Rightarrow> usize \<Rightarrow> bytes \<times> unit res" where
  "cup_read m p total_len =
     (if um_preempt_count m \<noteq> 0 then ([], Inl Panic)
      else if total_len > cup_len p then ([], Inl (Errno EINVAL))
      else case copy_in m (cup_ptr p) total_len of (bs, error_bytes) \<Rightarrow>
        (bs, if error_bytes \<noteq> 0 then Inl (Errno EFAULT) else Inr ()))"

definition cup_write :: "umem \<Rightarrow> checked_user_pointer \<Rightarrow> (usize \<Rightarrow> u8) \<Rightarrow> usize \<Rightarrow> umem \<times> unit res" where
  "cup_write m p data total_len =
     (if um_preempt_count m \<noteq> 0 then (m, Inl Panic)
      else if total_len > cup_len p then (m, Inl (Errno EINVAL))
      else case copy_out m data 0 (cup_ptr p) total_len of (m, error_bytes) \<Rightarrow>
        (m, if error_bytes \<noteq> 0 then Inl (Errno EFAULT) else Inr ()))"

definition cup_zero :: "umem \<Rightarrow> checked_user_pointer \<Rightarrow> umem \<times> unit res" where
  "cup_zero m p =
     (if um_preempt_count m \<noteq> 0 then (m, Inl Panic)
      else if cup_len p = 0 then (m, Inr ())
      else case zero_out m (cup_ptr p) (cup_len p) of (m, error_bytes) \<Rightarrow>
        (m, if error_bytes \<noteq> 0 then Inl (Errno EFAULT) else Inr ()))"

subsection \<open>\<open>UserPointer<T>\<close> and \<open>UserPointerMut<T>\<close>\<close>

text \<open>Values of \<open>T\<close> are their representations, \<open>sz\<close> bytes long.\<close>

definition up_new :: "nat \<Rightarrow> usize \<Rightarrow> checked_user_pointer res" where
  "up_new sz ptr = cup_new ptr sz"

definition up_read :: "umem \<Rightarrow> nat \<Rightarrow> checked_user_pointer \<Rightarrow> bytes res" where
  "up_read m sz p = (case cup_read m p sz of (bs, r) \<Rightarrow> rmap (\<lambda>_. bs) r)"

definition up_offset :: "nat \<Rightarrow> checked_user_pointer \<Rightarrow> int \<Rightarrow> checked_user_pointer res" where
  "up_offset sz p offset = rbind (user_offset (cup_ptr p) (offset * int sz)) (up_new sz)"

definition up_write :: "umem \<Rightarrow> checked_user_pointer \<Rightarrow> bytes \<Rightarrow> umem \<times> unit res" where
  "up_write m p v = cup_write m p (\<lambda>i. v ! i) (length v)"

subsection \<open>\<open>UserBuffer\<close>\<close>

record user_buffer =
  ubuf_ptr :: checked_user_pointer
  ubuf_size :: usize
  ubuf_cur :: usize

definition ubuf_new :: "usize \<Rightarrow> usize \<Rightarrow> user_buffer res" where
  "ubuf_new ptr sz = rmap (\<lambda>p. \<lparr>ubuf_ptr = p, ubuf_size = sz, ubuf_cur = 0\<rparr>) (cup_new ptr sz)"

definition ubuf_remaining :: "user_buffer \<Rightarrow> usize" where
  "ubuf_remaining b = ubuf_size b - ubuf_cur b"

definition ubuf_total :: "umem \<times> user_buffer \<Rightarrow> usize" where
  "ubuf_total s = ubuf_size (snd s)"

text \<open>The memory is part of the state of the buffer. A failed \<open>fill\<close> has stored the bytes that
  \<open>cup_write\<close> says and leaves the buffer's position; its callers see the error only.\<close>

definition ubuf_fill :: "umem \<times> user_buffer \<Rightarrow> bytes \<Rightarrow> ((umem \<times> user_buffer) \<times> fill_result) res" where
  "ubuf_fill s data =
     (case s of (m, b) \<Rightarrow>
        assert_preempt_enabled m (
          let to_write = min (length data) (ubuf_remaining b)
          in if to_write = 0 then Inr ((m, b), Full)
             else case cup_write m (ubuf_ptr b) (\<lambda>i. data ! i) to_write of (m, r) \<Rightarrow>
               rbind r (\<lambda>_.
               rbind (cup_forward (ubuf_ptr b) to_write) (\<lambda>p.
                 Inr ((m, b\<lparr>ubuf_ptr := p, ubuf_cur := ubuf_cur b + to_write\<rparr>),
                      if to_write = length data then Done to_write else Partial to_write)))))"

subsection \<open>\<open>UserString\<close>\<close>

definition MAX_LEN :: usize where "MAX_LEN = 4096"

record user_string =
  us_ptr :: checked_user_pointer
  us_len :: usize

definition us_new :: "umem \<Rightarrow> usize \<Rightarrow> user_string res" where
  "us_new m ptr =
     assert_preempt_enabled m (
       rbind (cup_new ptr MAX_LEN) (\<lambda>p.
         let result = string_scan m (cup_ptr p) MAX_LEN
         in if result = 0 then Inl (Errno EFAULT)
            else Inr \<lparr>us_ptr = p, us_len = MAX_LEN - result\<rparr>))"

text \<open>The bytes of the C string of \<open>as_cstr\<close>, terminator included. They are loaded by ordinary kernel
  code, where an unresolved fault is fatal (\<open>kernel_page_fault_die\<close>).\<close>

definition us_as_cstr :: "umem \<Rightarrow> user_string \<Rightarrow> bytes res" where
  "us_as_cstr m s =
     (let addrs = [cup_ptr (us_ptr s)..<cup_ptr (us_ptr s) + us_len s + 1]
      in rassert (list_all (um_readable m) addrs) (Inr (map (um_byte m) addrs)))"

subsection \<open>\<open>UserStream\<close>\<close>

definition ustream_remaining :: "checked_user_pointer \<Rightarrow> usize" where
  "ustream_remaining p = cup_len p"

definition ustream_is_drained :: "checked_user_pointer \<Rightarrow> bool" where
  "ustream_is_drained p = (cup_len p = 0)"

definition ustream_poll_data ::
  "umem \<Rightarrow> checked_user_pointer \<Rightarrow> usize \<Rightarrow> (checked_user_pointer \<times> bytes option) res" where
  "ustream_poll_data m p buf_len =
     assert_preempt_enabled m (
       if cup_len p = 0 then Inr (p, None)
       else
         let to_read = min buf_len (cup_len p)
         in case cup_read m p to_read of (bs, r) \<Rightarrow>
              rbind r (\<lambda>_.
              rbind (cup_forward p to_read) (\<lambda>p.
                Inr (p, Some (take to_read bs)))))"

definition ustream_ignore :: "checked_user_pointer \<Rightarrow> usize \<Rightarrow> (checked_user_pointer \<times> usize option) res" where
  "ustream_ignore p len =
     (if cup_len p = 0 then Inr (p, None)
      else
        let to_ignore = min len (cup_len p)
        in rmap (\<lambda>p. (p, Some to_ignore)) (cup_forward p to_ignore))"

section \<open>The loops\<close>

text \<open>The number of accessible bytes from \<open>a\<close> on, \<open>n\<close> at most.\<close>

definition prefix_ok :: "(usize \<Rightarrow> bool) \<Rightarrow> usize \<Rightarrow> nat \<Rightarrow> nat" where
  "prefix_ok ok a n = length (takeWhile ok [a..<a + n])"

lemma prefix_ok_0 [simp]: "prefix_ok ok a 0 = 0"
  by (simp add: prefix_ok_def)

lemma prefix_ok_Suc [simp]:
  "prefix_ok ok a (Suc n) = (if ok a then Suc (prefix_ok ok (Suc a) n) else 0)"
  by (simp add: prefix_ok_def upt_conv_Cons del: upt_Suc)

lemma prefix_ok_le: "prefix_ok ok a n \<le> n"
  using length_takeWhile_le [of ok "[a..<a + n]"] by (simp add: prefix_ok_def)

lemma prefix_ok_all: "prefix_ok ok a n = n \<longleftrightarrow> (\<forall>x. a \<le> x \<and> x < a + n \<longrightarrow> ok x)"
proof (induction n arbitrary: a)
  case (Suc n)
  have "(\<forall>x. a \<le> x \<and> x < a + Suc n \<longrightarrow> ok x) \<longleftrightarrow> ok a \<and> (\<forall>x. Suc a \<le> x \<and> x < Suc a + n \<longrightarrow> ok x)"
    by (metis Suc_le_eq add_Suc add_Suc_right le_add1 le_eq_less_or_eq less_Suc_eq_le)
  with Suc [of "Suc a"] show ?case by auto
qed auto

lemma copy_in_eq:
  assumes "0 < n" and "a + n < usize_mod"
  shows "copy_in m a n = (map (um_byte m) [a..<a + prefix_ok (um_readable m) a n], n - prefix_ok (um_readable m) a n)"
  using assms
proof (induction n arbitrary: a)
  case (Suc n)
  show ?case
  proof (cases "n = 0")
    case True
    then show ?thesis using Suc.prems by (simp add: copy_in.simps [of m a] usub_eq)
  next
    case False
    have "copy_in m (Suc a) n = (map (um_byte m) [Suc a..<Suc a + prefix_ok (um_readable m) (Suc a) n],
        n - prefix_ok (um_readable m) (Suc a) n)"
      using Suc.IH [of "Suc a"] Suc.prems False by simp
    then show ?thesis using Suc.prems False
      by (simp add: copy_in.simps [of m a] usub_eq uadd_eq upt_conv_Cons del: upt_Suc)
  qed
qed simp

text \<open>User memory with \<open>k\<close> bytes from \<open>a\<close> on taken from \<open>src\<close>.\<close>

definition stored :: "umem \<Rightarrow> usize \<Rightarrow> nat \<Rightarrow> (usize \<Rightarrow> u8) \<Rightarrow> umem" where
  "stored m a k src = m\<lparr>um_byte := (\<lambda>x. if a \<le> x \<and> x < a + k then src (x - a) else um_byte m x)\<rparr>"

lemma stored_simps [simp]:
  "um_readable (stored m a k src) = um_readable m" "um_writable (stored m a k src) = um_writable m"
  "um_preempt_count (stored m a k src) = um_preempt_count m"
  "um_byte (stored m a k src) x = (if a \<le> x \<and> x < a + k then src (x - a) else um_byte m x)"
  by (simp_all add: stored_def)

lemma stored_0 [simp]: "stored m a 0 src = m"
  by (rule umem.equality) (auto simp: fun_eq_iff stored_def)

lemma stored_Suc:
  "stored (m\<lparr>um_byte := (um_byte m)(a := src 0)\<rparr>) (Suc a) k (\<lambda>i. src (Suc i)) = stored m a (Suc k) src"
  by (rule umem.equality) (auto simp: fun_eq_iff stored_def intro!: arg_cong [where f = src])

lemma copy_out_eq:
  assumes "0 < n" and "a + n < usize_mod" and "i + n < usize_mod"
  shows "copy_out m src i a n =
    (stored m a (prefix_ok (um_writable m) a n) (\<lambda>j. src (i + j)), n - prefix_ok (um_writable m) a n)"
  using assms
proof (induction n arbitrary: a i m)
  case (Suc n)
  let ?m = "m\<lparr>um_byte := (um_byte m)(a := src i)\<rparr>"
  show ?case
  proof (cases "n = 0")
    case True
    then show ?thesis using Suc.prems stored_Suc [of m a "\<lambda>j. src (i + j)" 0]
      by (simp add: copy_out.simps [of m src i a] usub_eq)
  next
    case False
    have "copy_out ?m src (Suc i) (Suc a) n = (stored ?m (Suc a) (prefix_ok (um_writable m) (Suc a) n) (\<lambda>j. src (Suc i + j)),
        n - prefix_ok (um_writable m) (Suc a) n)"
      using Suc.IH [of "Suc a" "Suc i" ?m] Suc.prems False by simp
    then show ?thesis using Suc.prems False stored_Suc [of m a "\<lambda>j. src (i + j)" "prefix_ok (um_writable m) (Suc a) n"]
      by (simp add: copy_out.simps [of m src i a] usub_eq uadd_eq)
  qed
qed simp

lemma zero_out_copy_out: "zero_out m a n = copy_out m (\<lambda>_. 0) i a n"
proof (induction m a n arbitrary: i rule: zero_out.induct)
  case (1 m a n)
  show ?case
    unfolding zero_out.simps [of m a n] copy_out.simps [of m "\<lambda>_. 0" i a n] Let_def
    using 1 [OF _ refl refl, of "uadd i 1"] by simp
qed

lemma string_scan_eq:
  assumes "0 < n" and "a + n < usize_mod"
  shows "string_scan m a n = n - prefix_ok (\<lambda>x. um_readable m x \<and> um_byte m x \<noteq> 0) a n"
  using assms
proof (induction n arbitrary: a)
  case (Suc n)
  show ?case
  proof (cases "n = 0")
    case True
    then show ?thesis using Suc.prems by (simp add: string_scan.simps [of m a] usub_eq)
  next
    case False
    have "string_scan m (Suc a) n = n - prefix_ok (\<lambda>x. um_readable m x \<and> um_byte m x \<noteq> 0) (Suc a) n"
      using Suc.IH [of "Suc a"] Suc.prems False by simp
    then show ?thesis using Suc.prems False by (auto simp: string_scan.simps [of m a] usub_eq uadd_eq)
  qed
qed simp

section \<open>Checked pointers\<close>

definition cup_ok :: "checked_user_pointer \<Rightarrow> bool" where
  "cup_ok p \<longleftrightarrow> 0 < cup_ptr p \<and> cup_ptr p + cup_len p \<le> USER_MAX_ADDR"

lemma user_max_less: "USER_MAX_ADDR < usize_mod"
  by (simp add: USER_MAX_ADDR_def usize_mod_def)

lemma cup_new_iff:
  "cup_new ptr len = (if 0 < ptr \<and> ptr + len \<le> USER_MAX_ADDR then Inr \<lparr>cup_ptr = ptr, cup_len = len\<rparr>
     else Inl (Errno EFAULT))"
  using user_max_less by (auto simp: cup_new_def user_is_null_def)

lemma cup_new_ok: "cup_new ptr len = Inr p \<Longrightarrow> cup_ok p \<and> cup_ptr p = ptr \<and> cup_len p = len"
  by (auto simp: cup_new_iff cup_ok_def split: if_splits)

lemma cup_forward_eq:
  assumes "cup_ok p" and "n \<le> cup_len p"
  shows "cup_forward p n = Inr \<lparr>cup_ptr = cup_ptr p + n, cup_len = cup_len p - n\<rparr>"
    "cup_ok \<lparr>cup_ptr = cup_ptr p + n, cup_len = cup_len p - n\<rparr>"
proof -
  have "cup_ptr p + n \<le> USER_MAX_ADDR" using assms by (auto simp: cup_ok_def)
  then have "as_isize n = int n" "int (cup_ptr p) + int n < int usize_mod"
    using user_max_less by (simp_all add: as_isize_def USER_MAX_ADDR_def)
  then show "cup_forward p n = Inr \<lparr>cup_ptr = cup_ptr p + n, cup_len = cup_len p - n\<rparr>"
    using assms by (simp add: cup_forward_def user_offset_def nat_int_add)
  show "cup_ok \<lparr>cup_ptr = cup_ptr p + n, cup_len = cup_len p - n\<rparr>" using assms by (simp add: cup_ok_def)
qed

lemma cup_write_eq:
  assumes "cup_ok p" and "0 < n" and "n \<le> cup_len p" and "um_preempt_count m = 0"
  defines "k \<equiv> prefix_ok (um_writable m) (cup_ptr p) n"
  shows "cup_write m p data n = (stored m (cup_ptr p) k data, if k = n then Inr () else Inl (Errno EFAULT))"
proof -
  have "cup_ptr p + n < usize_mod" "0 + n < usize_mod" using assms user_max_less by (auto simp: cup_ok_def)
  from copy_out_eq [OF assms(2) this, of m data]
  show ?thesis using assms prefix_ok_le [of "um_writable m" "cup_ptr p" n] by (auto simp: cup_write_def k_def)
qed

lemma cup_read_eq:
  assumes "cup_ok p" and "0 < n" and "n \<le> cup_len p" and "um_preempt_count m = 0"
  defines "k \<equiv> prefix_ok (um_readable m) (cup_ptr p) n"
  shows "cup_read m p n = (map (um_byte m) [cup_ptr p..<cup_ptr p + k], if k = n then Inr () else Inl (Errno EFAULT))"
proof -
  have "cup_ptr p + n < usize_mod" using assms user_max_less by (auto simp: cup_ok_def)
  from copy_in_eq [OF assms(2) this, of m]
  show ?thesis using assms prefix_ok_le [of "um_readable m" "cup_ptr p" n] by (auto simp: cup_read_def k_def)
qed

lemma map_stored:
  "n \<le> length data \<Longrightarrow> map (um_byte (stored m a n (\<lambda>i. data ! i))) [a..<a + n] = take n data"
  "b \<le> a \<Longrightarrow> map (um_byte (stored m a n src)) [b..<a] = map (um_byte m) [b..<a]"
  by (auto intro: nth_equalityI)

section \<open>The contracts of \<open>Buffer\<close> and \<open>Stream\<close>\<close>

definition ubuf_inv :: "umem \<times> user_buffer \<Rightarrow> bool" where
  "ubuf_inv s = (case s of (m, b) \<Rightarrow>
     um_preempt_count m = 0 \<and> cup_ok (ubuf_ptr b) \<and> ubuf_cur b \<le> ubuf_size b \<and>
     cup_len (ubuf_ptr b) = ubuf_size b - ubuf_cur b \<and> ubuf_cur b < cup_ptr (ubuf_ptr b))"

definition ubuf_contents :: "umem \<times> user_buffer \<Rightarrow> bytes" where
  "ubuf_contents s = (case s of (m, b) \<Rightarrow>
     map (um_byte m) [cup_ptr (ubuf_ptr b) - ubuf_cur b..<cup_ptr (ubuf_ptr b)])"

lemma ubuf_fill_cases:
  fixes data :: bytes
  assumes "ubuf_inv (m, b)"
  defines "n \<equiv> min (length data) (ubuf_size b - ubuf_cur b)"
  shows "ubuf_fill (m, b) data =
    (if n = 0 then Inr ((m, b), Full)
     else if prefix_ok (um_writable m) (cup_ptr (ubuf_ptr b)) n = n then
       Inr ((stored m (cup_ptr (ubuf_ptr b)) n (\<lambda>i. data ! i),
             b\<lparr>ubuf_ptr := \<lparr>cup_ptr = cup_ptr (ubuf_ptr b) + n, cup_len = cup_len (ubuf_ptr b) - n\<rparr>,
               ubuf_cur := ubuf_cur b + n\<rparr>),
            if n = length data then Done n else Partial n)
     else Inl (Errno EFAULT))"
proof -
  have ok: "cup_ok (ubuf_ptr b)" "n \<le> cup_len (ubuf_ptr b)" "um_preempt_count m = 0"
    using assms by (auto simp: ubuf_inv_def)
  have n: "n = min (length data) (ubuf_remaining b)" by (simp add: n_def ubuf_remaining_def)
  show ?thesis
    using cup_write_eq [OF ok(1) _ ok(2,3), of "\<lambda>i. data ! i"] cup_forward_eq(1) [OF ok(1,2)] ok(3)
    by (simp add: ubuf_fill_def assert_preempt_enabled_def Let_def n [symmetric])
qed

interpretation ubuf: buffer ubuf_inv ubuf_total ubuf_contents ubuf_fill
proof (unfold_locales, goal_cases)
  case (1 s)
  then show ?case by (cases s) (auto simp: ubuf_inv_def ubuf_contents_def ubuf_total_def)
next
  case (2 s data s' r)
  obtain m b where s: "s = (m, b)" by fastforce
  define n where "n = min (length data) (ubuf_size b - ubuf_cur b)"
  define a where "a = cup_ptr (ubuf_ptr b)"
  have inv: "ubuf_inv (m, b)" using 2 s by simp
  have len: "length (ubuf_contents (m, b)) = ubuf_cur b"
    using inv by (simp add: ubuf_inv_def ubuf_contents_def)
  have fill: "ubuf_fill (m, b) data = Inr (s', r)" using 2 s by simp
  show ?case
  proof (cases "n = 0")
    case True
    then show ?thesis using fill inv len unfolding ubuf_fill_cases [OF inv] s n_def [symmetric]
      by (auto simp: n_def ubuf_total_def min_def split: if_splits)
  next
    case False
    have ok: "cup_ok \<lparr>cup_ptr = a + n, cup_len = cup_len (ubuf_ptr b) - n\<rparr>"
      using cup_forward_eq(2) [of "ubuf_ptr b" n] inv by (simp add: a_def ubuf_inv_def n_def)
    have eq: "s' = (stored m a n (\<lambda>i. data ! i),
             b\<lparr>ubuf_ptr := \<lparr>cup_ptr = a + n, cup_len = cup_len (ubuf_ptr b) - n\<rparr>, ubuf_cur := ubuf_cur b + n\<rparr>)"
      "r = (if n = length data then Done n else Partial n)"
      using fill False unfolding ubuf_fill_cases [OF inv] n_def [symmetric] a_def [symmetric]
      by (auto split: if_splits)
    have c: "ubuf_cur b < a" "n \<le> length data" "n \<le> ubuf_size b - ubuf_cur b"
      using inv by (simp_all add: ubuf_inv_def a_def n_def)
    have "[a - ubuf_cur b..<a + n] = [a - ubuf_cur b..<a] @ [a..<a + n]"
      using upt_add_eq_append [of "a - ubuf_cur b" a n] by simp
    then have "ubuf_contents s' = ubuf_contents (m, b) @ take n data"
      using map_stored(1) [OF c(2), of m a] map_stored(2) [of "a - ubuf_cur b" a m n "\<lambda>i. data ! i"]
      by (simp add: eq ubuf_contents_def a_def [symmetric] del: stored_simps)
    moreover have "take n data = take (ubuf_size b - ubuf_cur b) data" by (simp add: n_def min_def)
    ultimately show ?thesis using inv ok c False len unfolding s
      by (auto simp: eq ubuf_inv_def ubuf_total_def a_def [symmetric] n_def min_def)
  qed
next
  case (3 s data f)
  then show ?case using ubuf_fill_cases by (cases s) (fastforce split: if_splits)
qed

text \<open>The bytes that a stream over user memory still has to deliver.\<close>

definition ustream_rest :: "umem \<Rightarrow> checked_user_pointer \<Rightarrow> bytes" where
  "ustream_rest m p = map (um_byte m) [cup_ptr p..<cup_ptr p + cup_len p]"

definition ustream_inv :: "umem \<Rightarrow> checked_user_pointer \<Rightarrow> bool" where
  "ustream_inv m p \<longleftrightarrow> um_preempt_count m = 0 \<and> cup_ok p \<and>
     (\<forall>a \<in> set [cup_ptr p..<cup_ptr p + cup_len p]. um_readable m a)"

lemma ustream_poll_pos:
  assumes "ustream_inv m p" and "0 < n"
  shows "ustream_poll_data m p n =
    (if cup_len p = 0 then Inr (p, None)
     else Inr (\<lparr>cup_ptr = cup_ptr p + min n (cup_len p), cup_len = cup_len p - min n (cup_len p)\<rparr>,
       Some (take n (ustream_rest m p))))"
proof -
  let ?n = "min n (cup_len p)"
  have ok: "cup_ok p" "um_preempt_count m = 0" using assms by (auto simp: ustream_inv_def)
  have all: "prefix_ok (um_readable m) (cup_ptr p) ?n = ?n"
    using assms by (auto simp: ustream_inv_def prefix_ok_all)
  have "take n (ustream_rest m p) = map (um_byte m) [cup_ptr p..<cup_ptr p + ?n]"
    by (simp add: ustream_rest_def take_map min_def)
  then show ?thesis
    using cup_read_eq [OF ok(1) _ _ ok(2), of ?n] cup_forward_eq(1) [OF ok(1), of ?n] all assms(2) ok
    by (auto simp: ustream_poll_data_def assert_preempt_enabled_def Let_def)
qed

lemma ustream_poll_zero:
  assumes "ustream_inv m p"
  shows "ustream_poll_data m p 0 = (if cup_len p = 0 then Inr (p, None) else Inr (p, Some [])) \<or>
    cup_len p \<noteq> 0 \<and> ustream_poll_data m p 0 = Inl (Errno EFAULT)"
  using assms cup_forward_eq(1) [of p 0]
  by (auto simp: ustream_poll_data_def assert_preempt_enabled_def cup_read_def ustream_inv_def split: prod.splits)

lemma ustream_forward_inv:
  assumes "ustream_inv m p" and "k \<le> cup_len p"
  shows "ustream_inv m \<lparr>cup_ptr = cup_ptr p + k, cup_len = cup_len p - k\<rparr>"
    "ustream_rest m \<lparr>cup_ptr = cup_ptr p + k, cup_len = cup_len p - k\<rparr> = drop k (ustream_rest m p)"
  using assms cup_forward_eq(2) [of p k] by (auto simp: ustream_inv_def ustream_rest_def drop_map)

lemma ustream_rest_Nil [simp]: "ustream_rest m p = [] \<longleftrightarrow> cup_len p = 0" "length (ustream_rest m p) = cup_len p"
  by (auto simp: ustream_rest_def)

interpretation ustream: total_stream "ustream_inv m" "ustream_rest m" "ustream_poll_data m" ustream_ignore for m
proof (unfold_locales, goal_cases)
  case (1 s n s' r)
  show ?case
  proof (cases "n = 0")
    case True
    then show ?thesis using 1 ustream_poll_zero [of m s] by (auto split: if_splits)
  next
    case False
    have "drop (min n (cup_len s)) (ustream_rest m s) = drop n (ustream_rest m s)" by (simp add: min_def)
    then show ?thesis
      using 1 False ustream_poll_pos [of m s n] ustream_forward_inv [OF 1(1), of "min n (cup_len s)"]
      by (auto split: if_splits)
  qed
next
  case (2 s n f)
  then show ?case using ustream_poll_zero [of m s] ustream_poll_pos [of m s n]
    by (cases "n = 0") (auto split: if_splits)
next
  case (3 s n)
  have "drop (min n (cup_len s)) (ustream_rest m s) = drop n (ustream_rest m s)" by (simp add: min_def)
  moreover have "cup_forward s (min n (cup_len s)) =
      Inr \<lparr>cup_ptr = cup_ptr s + min n (cup_len s), cup_len = cup_len s - min n (cup_len s)\<rparr>"
    using cup_forward_eq(1) [of s "min n (cup_len s)"] 3 by (simp add: ustream_inv_def)
  ultimately show ?case using 3 ustream_forward_inv [OF 3, of "min n (cup_len s)"]
    by (auto simp: ustream_ignore_def Let_def)
next
  case (4 s n)
  then show ?case by (simp add: ustream_poll_pos)
qed

section \<open>Properties\<close>

text \<open>C16: a value written through a checked user pointer is read back unchanged, and no byte
  outside the object changes.\<close>

theorem user_pointer_roundtrip:
  assumes "up_new (length v) ptr = Inr p" and "v \<noteq> []" and "um_preempt_count m = 0"
    and "\<forall>a. ptr \<le> a \<and> a < ptr + length v \<longrightarrow> um_writable m a \<and> um_readable m a"
  shows "\<exists>m'. up_write m p v = (m', Inr ()) \<and> up_read m' (length v) p = Inr v \<and>
    (\<forall>a. \<not> (ptr \<le> a \<and> a < ptr + length v) \<longrightarrow> um_byte m' a = um_byte m a)"
proof -
  have p: "cup_ok p" "cup_ptr p = ptr" "cup_len p = length v"
    using cup_new_ok assms(1) by (auto simp: up_new_def)
  have acc: "prefix_ok (um_writable m) ptr (length v) = length v" "prefix_ok (um_readable m) ptr (length v) = length v"
    using assms(4) by (auto simp: prefix_ok_all)
  have len: "0 < length v" "length v \<le> cup_len p" using assms(2) p(3) by simp_all
  let ?m = "stored m ptr (length v) (\<lambda>i. v ! i)"
  have "up_write m p v = (?m, Inr ())"
    using cup_write_eq [OF p(1) len assms(3), of "\<lambda>i. v ! i"] acc by (simp add: up_write_def p)
  moreover have "up_read ?m (length v) p = Inr v"
    using cup_read_eq [OF p(1) len, of ?m] assms(3) acc map_stored(1) [of "length v" v m ptr]
    by (simp add: up_read_def p del: stored_simps(4))
  ultimately show ?thesis by auto
qed

definition sample_umem :: umem where
  "sample_umem = \<lparr>um_byte = (\<lambda>a. if a = 0x1003 then 0 else 65), um_readable = (\<lambda>a. 0x1000 \<le> a \<and> a < 0x3000),
     um_writable = (\<lambda>a. 0x1000 \<le> a \<and> a < 0x2000), um_preempt_count = 0\<rparr>"

theorem user_pointer_roundtrip_witness:
  "\<exists>m'. up_write sample_umem \<lparr>cup_ptr = 0x1000, cup_len = 2\<rparr> [7, 8] = (m', Inr ()) \<and>
     up_read m' (Suc (Suc 0)) \<lparr>cup_ptr = 0x1000, cup_len = 2\<rparr> = Inr [7, 8]"
  using user_pointer_roundtrip [of "[7, 8]" "0x1000" "\<lparr>cup_ptr = 0x1000, cup_len = 2\<rparr>" sample_umem]
  by (auto simp: up_new_def cup_new_iff USER_MAX_ADDR_def sample_umem_def)



text \<open>C18: what \<open>UserString::new\<close> does with the first 4096 bytes at its pointer. A string that ends in them
  is returned whole; 4096 bytes without terminator fail with \<open>EFAULT\<close>; but when the scan stops at a
  byte that cannot be loaded, the counter is not zero either, so that the function returns a string
  that has no terminator, and the first use of it is a fatal kernel fault.\<close>

theorem user_string_new_cases:
  assumes "0 < ptr" and "ptr + 4096 \<le> USER_MAX_ADDR" and "um_preempt_count m = 0"
  shows "case position (\<lambda>a. \<not> um_readable m a \<or> um_byte m a = 0) [ptr..<ptr + 4096] of
      None \<Rightarrow> us_new m ptr = Inl (Errno EFAULT)
    | Some n \<Rightarrow> \<exists>s. us_new m ptr = Inr s \<and> us_len s = n \<and>
        us_as_cstr m s = (if um_readable m (ptr + n) then Inr (map (um_byte m) [ptr..<ptr + n] @ [0]) else Inl Panic)"
proof -
  let ?P = "\<lambda>a. \<not> um_readable m a \<or> um_byte m a = 0"
  let ?k = "prefix_ok (\<lambda>a. \<not> ?P a) ptr 4096"
  have mod: "ptr + 4096 < usize_mod" using assms(2) user_max_less by linarith
  have k: "?k \<le> 4096" by (rule prefix_ok_le)
  have scan: "string_scan m ptr 4096 = 4096 - ?k" using string_scan_eq [of 4096 ptr m] mod by simp
  have pos: "position ?P [ptr..<ptr + 4096] = (if ?k < 4096 then Some ?k else None)"
    by (simp add: position_def prefix_ok_def Let_def)
  define s where "s = \<lparr>us_ptr = \<lparr>cup_ptr = ptr, cup_len = 4096\<rparr>, us_len = ?k\<rparr>"
  have new: "us_new m ptr = (if ?k = 4096 then Inl (Errno EFAULT) else Inr s)"
    using assms k by (simp add: us_new_def assert_preempt_enabled_def cup_new_iff MAX_LEN_def scan s_def)
  show ?thesis
  proof (cases "?k < 4096")
    case False
    then show ?thesis using new k unfolding pos by simp
  next
    case True
    then have hit: "position ?P [ptr..<ptr + 4096] = Some ?k" unfolding pos by simp
    note at = position_SomeD [OF hit]
    have before: "um_readable m (ptr + i) \<and> um_byte m (ptr + i) \<noteq> 0" if "i < ?k" for i
      using at(3) [OF that] that k by simp
    have "?P (ptr + ?k)" using at(1,2) by simp
    moreover have "list_all (um_readable m) [ptr..<ptr + ?k]"
      using before by (auto simp: list_all_iff le_iff_add)
    ultimately have "us_as_cstr m s = (if um_readable m (ptr + ?k) then Inr (map (um_byte m) [ptr..<ptr + ?k] @ [0]) else Inl Panic)"
      by (simp add: us_as_cstr_def s_def Let_def)
    then show ?thesis using new True unfolding hit by (simp add: s_def)
  qed
qed

theorem user_string_new_cases_witness:
  "\<exists>s. us_new sample_umem 0x1000 = Inr s \<and> us_len s = 3 \<and> us_as_cstr sample_umem s = Inr [65, 65, 65, 0]"
proof -
  define ptr :: usize where "ptr = 0x1000"
  have pos: "position (\<lambda>a. \<not> um_readable sample_umem a \<or> um_byte sample_umem a = 0) [ptr..<ptr + 4096] = Some 3"
    by (rule position_upt) (auto simp: sample_umem_def ptr_def)
  have "0 < ptr" "ptr + 4096 \<le> USER_MAX_ADDR" "um_preempt_count sample_umem = 0"
    by (simp_all add: ptr_def USER_MAX_ADDR_def sample_umem_def)
  note user_string_new_cases [OF this, unfolded pos option.case]
  moreover have "map (um_byte sample_umem) [ptr..<ptr + 3] = [65, 65, 65]" "um_readable sample_umem (ptr + 3)"
    by (simp_all add: ptr_def sample_umem_def)
  ultimately show ?thesis unfolding ptr_def by (simp del: upt_rec_numeral)
qed

text \<open>C19: a byte stream over readable user memory is delivered whole and in order by
  \<open>read_till_end\<close>, whatever the length of the buffer.\<close>

theorem user_stream_complete:
  assumes "cup_new ptr len = Inr p" and "um_preempt_count m = 0" and "0 < n"
    and "\<forall>a. ptr \<le> a \<and> a < ptr + len \<longrightarrow> um_readable m a"
  shows "\<exists>p'. read_till_end (ustream_poll_data m) (\<lambda>a d. Inr (a @ d)) n p [] 0 =
    Some (Inr (p', map (um_byte m) [ptr..<ptr + len], len)) \<and> ustream_is_drained p'"
proof -
  have p: "cup_ok p" "cup_ptr p = ptr" "cup_len p = len" using cup_new_ok assms(1) by auto
  have "ustream_inv m p" using assms p by (auto simp: ustream_inv_def)
  from ustream.read_till_end_pieces [OF this assms(3), of "\<lambda>a d. Inr (a @ d)" "\<lambda>a d. a @ d" "[]" 0]
  obtain p' where p': "read_till_end (ustream_poll_data m) (\<lambda>a d. Inr (a @ d)) n p [] 0 =
      Some (Inr (p', fold (\<lambda>d a. a @ d) (pieces n (ustream_rest m p)) [], len))" "ustream_rest m p' = []"
    by (auto simp: p)
  have "fold (\<lambda>d a. a @ d) xs ys = ys @ concat xs" for xs and ys :: bytes
    by (induction xs arbitrary: ys) auto
  then show ?thesis
    using p' concat_pieces [OF assms(3), of "ustream_rest m p"]
    by (auto simp: ustream_rest_def ustream_is_drained_def p)
qed

theorem user_stream_complete_witness:
  "\<exists>p'. read_till_end (ustream_poll_data sample_umem) (\<lambda>a d. Inr (a @ d)) 2 \<lparr>cup_ptr = 0x1000, cup_len = 3\<rparr> [] 0 =
    Some (Inr (p', map (um_byte sample_umem) [0x1000..<0x1000 + 3], 3)) \<and> ustream_is_drained p'"
  by (rule user_stream_complete) (auto simp: cup_new_iff USER_MAX_ADDR_def sample_umem_def)

end
