(* ===== verification/Flags.thy ===== *)
theory Flags
  imports Prelude
begin

unbundle bit_operations_syntax

text \<open>
  Sets of flags (the \<open>bitflags\<close> of the code, as words) and the flags of opening and looking up files
  (\<open>crates/posix_types/src/open.rs\<close>).
\<close>

section \<open>Sets of flags\<close>

text \<open>\<open>contains\<close>, \<open>intersects\<close> and \<open>difference\<close> of a set of flags.\<close>

definition has_flag :: "'a::len word \<Rightarrow> 'a word \<Rightarrow> bool" where
  "has_flag flags f = (flags AND f = f)"

definition meets_flag :: "'a::len word \<Rightarrow> 'a word \<Rightarrow> bool" where
  "meets_flag flags f = (flags AND f \<noteq> 0)"

definition without :: "'a::len word \<Rightarrow> 'a word \<Rightarrow> 'a word" where
  "without flags f = flags AND NOT f"

lemma has_flag_0 [simp]: "has_flag flags 0"
  by (simp add: has_flag_def)

lemma without_disjoint:
  fixes x y z :: "'a::len word"
  assumes "y AND z = z"
  shows "without x y AND z = 0"
proof (rule bit_eqI)
  fix n
  have "bit (y AND z) n = bit z n" by (simp only: assms)
  then show "bit (without x y AND z) n = bit (0 :: 'a word) n" by (auto simp: without_def bit_simps)
qed

lemma has_flag_or: "has_flag flags (f OR g) \<longleftrightarrow> has_flag flags f \<and> has_flag flags g"
proof
  assume h: "has_flag flags (f OR g)"
  have "bit (flags AND (f OR g)) n = bit (f OR g) n" for n using h by (simp add: has_flag_def)
  then have "flags AND f = f" "flags AND g = g"
    by (intro bit_eqI; simp add: bit_simps; blast)+
  then show "has_flag flags f \<and> has_flag flags g" by (simp add: has_flag_def)
qed (auto simp: has_flag_def bit.conj_disj_distrib)

section \<open>Open flags\<close>

definition O_WRONLY :: u32 where "O_WRONLY = 0x1"
definition O_RDWR :: u32 where "O_RDWR = 0x2"
definition O_CREAT :: u32 where "O_CREAT = 0x40"
definition O_EXCL :: u32 where "O_EXCL = 0x80"
definition O_TRUNC :: u32 where "O_TRUNC = 0x200"
definition O_APPEND :: u32 where "O_APPEND = 0x400"
definition O_NONBLOCK :: u32 where "O_NONBLOCK = 0x800"
definition O_DIRECTORY :: u32 where "O_DIRECTORY = 0x10000"
definition O_NOFOLLOW :: u32 where "O_NOFOLLOW = 0x20000"
definition O_CLOEXEC :: u32 where "O_CLOEXEC = 0x80000"
definition FD_CLOEXEC :: u32 where "FD_CLOEXEC = 0x1"

lemmas open_flag_defs = O_WRONLY_def O_RDWR_def O_CREAT_def O_EXCL_def O_TRUNC_def O_APPEND_def
  O_NONBLOCK_def O_DIRECTORY_def O_NOFOLLOW_def O_CLOEXEC_def FD_CLOEXEC_def

definition close_on_exec :: "u32 \<Rightarrow> bool" where
  "close_on_exec fd_flags = has_flag fd_flags FD_CLOEXEC"

definition as_fd_flags :: "u32 \<Rightarrow> u32" where
  "as_fd_flags flags = (if has_flag flags O_CLOEXEC then FD_CLOEXEC else 0)"

definition open_read :: "u32 \<Rightarrow> bool" where "open_read flags = (\<not> has_flag flags O_WRONLY)"
definition open_write :: "u32 \<Rightarrow> bool" where "open_write flags = meets_flag flags (O_WRONLY OR O_RDWR)"
definition open_append :: "u32 \<Rightarrow> bool" where "open_append flags = has_flag flags O_APPEND"
definition open_directory :: "u32 \<Rightarrow> bool" where "open_directory flags = has_flag flags O_DIRECTORY"
definition open_truncate :: "u32 \<Rightarrow> bool" where "open_truncate flags = has_flag flags O_TRUNC"
definition follow_symlink :: "u32 \<Rightarrow> bool" where "follow_symlink flags = (\<not> has_flag flags O_NOFOLLOW)"

definition as_rwa :: "u32 \<Rightarrow> bool \<times> bool \<times> bool" where
  "as_rwa flags = (open_read flags, open_write flags, open_append flags)"

definition AT_SYMLINK_NOFOLLOW :: u32 where "AT_SYMLINK_NOFOLLOW = 0x100"
definition AT_REMOVEDIR :: u32 where "AT_REMOVEDIR = 0x200"
definition AT_SYMLINK_FOLLOW :: u32 where "AT_SYMLINK_FOLLOW = 0x400"
definition AT_EMPTY_PATH :: u32 where "AT_EMPTY_PATH = 0x1000"
definition AT_STATX_FORCE_SYNC :: u32 where "AT_STATX_FORCE_SYNC = 0x2000"
definition AT_STATX_DONT_SYNC :: u32 where "AT_STATX_DONT_SYNC = 0x4000"

definition at_empty_path :: "u32 \<Rightarrow> bool" where "at_empty_path flags = has_flag flags AT_EMPTY_PATH"
definition at_no_follow :: "u32 \<Rightarrow> bool" where "at_no_follow flags = has_flag flags AT_SYMLINK_NOFOLLOW"
definition at_follow :: "u32 \<Rightarrow> bool" where "at_follow flags = has_flag flags AT_SYMLINK_FOLLOW"

definition statx_default_sync :: "u32 \<Rightarrow> bool" where
  "statx_default_sync flags = (\<not> meets_flag flags (AT_STATX_FORCE_SYNC OR AT_STATX_DONT_SYNC))"

end
