(* ===== verification/Pipe.thy ===== *)
theory Pipe
  imports User_Mem Flags
begin

unbundle bit_operations_syntax

text \<open>
  Pipes and socket pairs (\<open>src/kernel/vfs/file/pipe.rs\<close>) with their condition variables.

  An asynchronous operation runs under the lock of the pipe from one await point to the next. Such a
  piece is a function of the pipe: \<open>resumed\<close> says that the caller has just been woken from a
  condition variable, \<open>sig\<close> that a signal is pending for it. It ends with \<open>Pending\<close> when the caller
  has put itself on a condition variable again. A condition variable is the list of the suspended
  calls; \<open>notify_all\<close> wakes all of them, that is, empties the list. The threads that were sent
  \<open>SIGPIPE\<close> are recorded in \<open>pi_sigpipe\<close>.
\<close>

section \<open>Poll events\<close>

type_synonym poll_event = u16

definition Readable :: poll_event where "Readable = 0x1"
definition Writable :: poll_event where "Writable = 0x4"

section \<open>Operations\<close>

datatype 'a poll = Pending | Ready 'a

datatype pipe_wait =
    WaitRead
  | WaitWrite nat
  | WaitPollRead poll_event
  | WaitPollWrite poll_event

record pipe =
  pi_buffer :: bytes
  pi_read_closed :: bool
  pi_write_closed :: bool
  pi_cv_read :: "(nat \<times> pipe_wait) list"
  pi_cv_write :: "(nat \<times> pipe_wait) list"
  pi_sigpipe :: "nat list"

definition PIPE_SIZE :: usize where "PIPE_SIZE = 4096"

definition pipe_ends :: pipe where
  "pipe_ends = \<lparr>pi_buffer = [], pi_read_closed = False, pi_write_closed = False,
     pi_cv_read = [], pi_cv_write = [], pi_sigpipe = []\<rparr>"

text \<open>The flags of the read end and of the write end.\<close>

definition pipe_new_flags :: "u32 \<Rightarrow> u32 \<times> u32" where
  "pipe_new_flags flags =
     (let read_flags = without flags (O_WRONLY OR O_RDWR)
      in (read_flags, read_flags OR O_WRONLY))"

definition read_ready :: "pipe \<Rightarrow> poll_event \<Rightarrow> poll_event" where
  "read_ready p event =
     (if has_flag event Readable \<and> (pi_buffer p \<noteq> [] \<or> pi_write_closed p) then Readable else 0)"

definition write_ready :: "pipe \<Rightarrow> poll_event \<Rightarrow> poll_event" where
  "write_ready p event =
     (if has_flag event Writable \<and> (length (pi_buffer p) < PIPE_SIZE \<or> pi_read_closed p) then Writable else 0)"

definition wait_cv_read :: "nat \<Rightarrow> pipe_wait \<Rightarrow> pipe \<Rightarrow> pipe" where
  "wait_cv_read tid w p = p\<lparr>pi_cv_read := (tid, w) # pi_cv_read p\<rparr>"

definition wait_cv_write :: "nat \<Rightarrow> pipe_wait \<Rightarrow> pipe \<Rightarrow> pipe" where
  "wait_cv_write tid w p = p\<lparr>pi_cv_write := (tid, w) # pi_cv_write p\<rparr>"

definition notify_cv_read :: "pipe \<Rightarrow> pipe" where
  "notify_cv_read p = p\<lparr>pi_cv_read := []\<rparr>"

definition notify_cv_write :: "pipe \<Rightarrow> pipe" where
  "notify_cv_write p = p\<lparr>pi_cv_write := []\<rparr>"

definition pipe_poll_read ::
  "nat \<Rightarrow> bool \<Rightarrow> bool \<Rightarrow> poll_event \<Rightarrow> pipe \<Rightarrow> pipe \<times> poll_event res poll" where
  "pipe_poll_read tid resumed sig event p =
     (if resumed \<and> sig then (p, Ready (Inl (Errno EINTR)))
      else let ready = read_ready p event
           in if ready \<noteq> 0 then (p, Ready (Inr ready)) else (wait_cv_read tid (WaitPollRead event) p, Pending))"

definition pipe_poll_write ::
  "nat \<Rightarrow> bool \<Rightarrow> bool \<Rightarrow> poll_event \<Rightarrow> pipe \<Rightarrow> pipe \<times> poll_event res poll" where
  "pipe_poll_write tid resumed sig event p =
     (if resumed \<and> sig then (p, Ready (Inl (Errno EINTR)))
      else let ready = write_ready p event
           in if ready \<noteq> 0 then (p, Ready (Inr ready)) else (wait_cv_write tid (WaitPollWrite event) p, Pending))"

text \<open>The immediate polls; \<open>try_lock\<close> fails when the lock is held.\<close>

definition pipe_poll_read_ready :: "bool \<Rightarrow> poll_event \<Rightarrow> pipe \<Rightarrow> poll_event res" where
  "pipe_poll_read_ready locked event p = Inr (if locked then 0 else read_ready p event)"

definition pipe_poll_write_ready :: "bool \<Rightarrow> poll_event \<Rightarrow> pipe \<Rightarrow> poll_event res" where
  "pipe_poll_write_ready locked event p = Inr (if locked then 0 else write_ready p event)"

text \<open>The two slices of the ring buffer meet at \<open>k\<close>, which depends on its history. A failing
  \<open>fill\<close> returns before anything is drained.\<close>

definition pipe_read ::
  "('b \<Rightarrow> bytes \<Rightarrow> ('b \<times> fill_result) res) \<Rightarrow> nat \<Rightarrow> nat \<Rightarrow> bool \<Rightarrow> bool \<Rightarrow> 'b \<Rightarrow> pipe \<Rightarrow>
   pipe \<times> ('b \<times> usize) res poll" where
  "pipe_read fill k tid resumed sig b p =
     (if resumed \<and> sig then (p, Ready (Inl (Errno EINTR)))
      else if \<not> pi_write_closed p \<and> pi_buffer p = [] then (wait_cv_read tid WaitRead p, Pending)
      else
        let data1 = take k (pi_buffer p); data2 = drop k (pi_buffer p)
        in case rbind (fill b data1) (\<lambda>(b, r1). rbind (fill b data2) (\<lambda>(b, r2).
                  Inr (b, allow_partial r1 + allow_partial r2))) of
             Inl e \<Rightarrow> (p, Ready (Inl e))
           | Inr (b, nread) \<Rightarrow>
               if nread > length (pi_buffer p) then (p, Ready (Inl Panic))
               else (notify_cv_write (p\<lparr>pi_buffer := drop nread (pi_buffer p)\<rparr>), Ready (Inr (b, nread))))"

definition send_sigpipe :: "nat \<Rightarrow> pipe \<Rightarrow> pipe" where
  "send_sigpipe tid p = p\<lparr>pi_sigpipe := tid # pi_sigpipe p\<rparr>"

definition write_atomic :: "nat \<Rightarrow> bool \<Rightarrow> bool \<Rightarrow> bytes \<Rightarrow> pipe \<Rightarrow> pipe \<times> usize res poll" where
  "write_atomic tid resumed sig data p =
     (if resumed \<and> sig then (p, Ready (Inl (Errno EINTR)))
      else if pi_read_closed p then (send_sigpipe tid p, Ready (Inl (Errno EPIPE)))
      else if length (pi_buffer p) + length data > PIPE_SIZE then
        (wait_cv_write tid (WaitWrite (length data)) p, Pending)
      else
        (notify_cv_read (p\<lparr>pi_buffer := pi_buffer p @ data\<rparr>), Ready (Inr (length data))))"

text \<open>A suspended write remembers the stream, the piece it is writing and what it has written.\<close>

datatype 's write_state = WriteDone "usize res" | WriteBlocked 's bytes usize

partial_function (option) pipe_write ::
  "('s \<Rightarrow> usize \<Rightarrow> ('s \<times> bytes option) res) \<Rightarrow> nat \<Rightarrow> 's \<Rightarrow> usize \<Rightarrow> pipe \<Rightarrow> (pipe \<times> 's write_state) option"
where
  "pipe_write poll_data tid s nwritten p =
     (case poll_data s PIPE_SIZE of
        Inl e \<Rightarrow> Some (p, WriteDone (Inl e))
      | Inr (s, r) \<Rightarrow>
          (case r of
             None \<Rightarrow> Some (p, WriteDone (Inr nwritten))
           | Some data \<Rightarrow>
               (case write_atomic tid False False data p of
                  (p, w) \<Rightarrow>
                    (case w of
                       Pending \<Rightarrow> Some (p, WriteBlocked s data nwritten)
                     | Ready q \<Rightarrow>
                         (case q of
                            Inl e \<Rightarrow> Some (p, WriteDone (Inl e))
                          | Inr nwrote \<Rightarrow>
                              if nwrote \<noteq> length data then Some (p, WriteDone (Inr (nwritten + nwrote)))
                              else pipe_write poll_data tid s (nwritten + nwrote) p)))))"

text \<open>The write is woken from \<open>cv_write\<close>.\<close>

definition pipe_write_resume ::
  "('s \<Rightarrow> usize \<Rightarrow> ('s \<times> bytes option) res) \<Rightarrow> nat \<Rightarrow> bool \<Rightarrow> 's \<Rightarrow> bytes \<Rightarrow> usize \<Rightarrow> pipe \<Rightarrow>
   (pipe \<times> 's write_state) option"
where
  "pipe_write_resume poll_data tid sig s data nwritten p =
     (case write_atomic tid True sig data p of
        (p, Pending) \<Rightarrow> Some (p, WriteBlocked s data nwritten)
      | (p, Ready (Inl e)) \<Rightarrow> Some (p, WriteDone (Inl e))
      | (p, Ready (Inr nwrote)) \<Rightarrow>
          if nwrote \<noteq> length data then Some (p, WriteDone (Inr (nwritten + nwrote)))
          else pipe_write poll_data tid s (nwritten + nwrote) p)"

definition pipe_close_read :: "pipe \<Rightarrow> pipe" where
  "pipe_close_read p = (if pi_read_closed p then p else notify_cv_write (p\<lparr>pi_read_closed := True\<rparr>))"

definition pipe_close_write :: "pipe \<Rightarrow> pipe" where
  "pipe_close_write p = (if pi_write_closed p then p else notify_cv_read (p\<lparr>pi_write_closed := True\<rparr>))"

subsection \<open>Socket pairs\<close>

text \<open>Two pipes; the left end reads the first and writes the second, the right end the other way
  round.\<close>

datatype side = LeftEnd | RightEnd

type_synonym socketpair = "pipe \<times> pipe"

definition sp_new :: socketpair where
  "sp_new = (pipe_ends, pipe_ends)"

fun sp_read_end :: "side \<Rightarrow> socketpair \<Rightarrow> pipe" where
  "sp_read_end LeftEnd (a, b) = a"
| "sp_read_end RightEnd (a, b) = b"

fun sp_write_end :: "side \<Rightarrow> socketpair \<Rightarrow> pipe" where
  "sp_write_end LeftEnd (a, b) = b"
| "sp_write_end RightEnd (a, b) = a"

fun sp_put_read :: "side \<Rightarrow> pipe \<Rightarrow> socketpair \<Rightarrow> socketpair" where
  "sp_put_read LeftEnd p (a, b) = (p, b)"
| "sp_put_read RightEnd p (a, b) = (a, p)"

fun sp_put_write :: "side \<Rightarrow> pipe \<Rightarrow> socketpair \<Rightarrow> socketpair" where
  "sp_put_write LeftEnd p (a, b) = (a, p)"
| "sp_put_write RightEnd p (a, b) = (p, b)"

definition sp_read ::
  "side \<Rightarrow> ('b \<Rightarrow> bytes \<Rightarrow> ('b \<times> fill_result) res) \<Rightarrow> nat \<Rightarrow> nat \<Rightarrow> bool \<Rightarrow> bool \<Rightarrow> 'b \<Rightarrow> socketpair \<Rightarrow>
   socketpair \<times> ('b \<times> usize) res poll" where
  "sp_read side fill k tid resumed sig b sp =
     (case pipe_read fill k tid resumed sig b (sp_read_end side sp) of (p, r) \<Rightarrow> (sp_put_read side p sp, r))"

definition sp_write ::
  "side \<Rightarrow> ('s \<Rightarrow> usize \<Rightarrow> ('s \<times> bytes option) res) \<Rightarrow> nat \<Rightarrow> 's \<Rightarrow> socketpair \<Rightarrow> (socketpair \<times> 's write_state) option" where
  "sp_write side poll_data tid s sp =
     Option.bind (pipe_write poll_data tid s 0 (sp_write_end side sp)) (\<lambda>(p, r). Some (sp_put_write side p sp, r))"

definition sp_poll_ready :: "side \<Rightarrow> bool \<Rightarrow> bool \<Rightarrow> poll_event \<Rightarrow> socketpair \<Rightarrow> poll_event res" where
  "sp_poll_ready side rlocked wlocked event sp =
     rbind (if has_flag event Readable then pipe_poll_read_ready rlocked Readable (sp_read_end side sp) else Inr 0) (\<lambda>r1.
     rbind (if has_flag event Writable then pipe_poll_write_ready wlocked Writable (sp_write_end side sp) else Inr 0) (\<lambda>r2.
       Inr (r1 OR r2)))"

definition sp_poll ::
  "side \<Rightarrow> bool \<Rightarrow> bool \<Rightarrow> nat \<Rightarrow> poll_event \<Rightarrow> socketpair \<Rightarrow> socketpair \<times> poll_event res poll" where
  "sp_poll side rlocked wlocked tid event sp =
     (case sp_poll_ready side rlocked wlocked event sp of
        Inl e \<Rightarrow> (sp, Ready (Inl e))
      | Inr ready \<Rightarrow>
          if ready \<noteq> 0 then (sp, Ready (Inr ready))
          else if has_flag event Readable then
            (case pipe_poll_read tid False False Readable (sp_read_end side sp) of (p, r) \<Rightarrow> (sp_put_read side p sp, r))
          else
            (case pipe_poll_write tid False False Writable (sp_write_end side sp) of (p, r) \<Rightarrow> (sp_put_write side p sp, r)))"

definition sp_close :: "side \<Rightarrow> socketpair \<Rightarrow> socketpair" where
  "sp_close side sp =
     (let sp = sp_put_read side (pipe_close_read (sp_read_end side sp)) sp
      in sp_put_write side (pipe_close_write (sp_write_end side sp)) sp)"

section \<open>Reading and writing\<close>

lemmas pipe_wait_defs = wait_cv_read_def wait_cv_write_def notify_cv_read_def notify_cv_write_def send_sigpipe_def

context buffer
begin

lemma pipe_read_outcome:
  assumes "inv b"
  shows "case pipe_read fill k tid resumed sig b p of
      (p', Pending) \<Rightarrow> pi_buffer p = [] \<and> \<not> pi_write_closed p \<and> p' = wait_cv_read tid WaitRead p
    | (p', Ready (Inl e)) \<Rightarrow> p' = p \<and> (e = Errno EINTR \<and> resumed \<and> sig \<or> e = Errno EFAULT)
    | (p', Ready (Inr (b', n))) \<Rightarrow> n = min (length (pi_buffer p)) (capacity b - length (contents b)) \<and>
        inv b' \<and> capacity b' = capacity b \<and> contents b' = contents b @ take n (pi_buffer p) \<and>
        (pi_buffer p = [] \<longrightarrow> pi_write_closed p) \<and>
        p' = p\<lparr>pi_buffer := drop n (pi_buffer p), pi_cv_write := []\<rparr>"
proof (cases "resumed \<and> sig \<or> \<not> pi_write_closed p \<and> pi_buffer p = []")
  case True
  then show ?thesis by (auto simp: pipe_read_def)
next
  case False
  let ?m = "rbind (fill b (take k (pi_buffer p))) (\<lambda>(b, r1). rbind (fill b (drop k (pi_buffer p))) (\<lambda>(b, r2).
                  Inr (b, allow_partial r1 + allow_partial r2)))"
  show ?thesis
  proof (cases ?m)
    case (Inl e)
    have "e = Errno EFAULT"
    proof (cases "fill b (take k (pi_buffer p))")
      case (Inr x)
      obtain b1 r1 where x: "x = (b1, r1)" by fastforce
      have "inv b1" using fill_ok [OF assms Inr [unfolded x]] by simp
      then show ?thesis using Inl Inr x fill_err [OF \<open>inv b1\<close>]
        by (cases "fill b1 (drop k (pi_buffer p))") auto
    qed (use Inl fill_err [OF assms] in auto)
    then show ?thesis using False Inl by (simp add: pipe_read_def Let_def)
  next
    case (Inr y)
    then obtain b1 r1 b2 r2 where f: "fill b (take k (pi_buffer p)) = Inr (b1, r1)"
      "fill b1 (drop k (pi_buffer p)) = Inr (b2, r2)" "y = (b2, allow_partial r1 + allow_partial r2)"
      by (auto simp: res_simps split: prod.splits)
    note two = fill_two [OF assms f(1,2), unfolded append_take_drop_id]
    have "take (capacity b - length (contents b)) (pi_buffer p) =
        take (min (length (pi_buffer p)) (capacity b - length (contents b))) (pi_buffer p)"
      by (simp add: min_def)
    then show ?thesis using False f(1,2) two
      by (auto simp: pipe_read_def Let_def notify_cv_write_def)
  qed
qed

end

context total_stream
begin

lemma pipe_write_outcome:
  assumes "inv s"
  shows "\<exists>p' w. pipe_write poll_data tid s t p = Some (p', w) \<and>
    (case w of
       WriteDone (Inr n) \<Rightarrow> n = t + length (rest s) \<and> pi_buffer p' = pi_buffer p @ rest s
     | WriteDone (Inl e) \<Rightarrow> e = Errno EPIPE \<and> pi_read_closed p \<and> p' = send_sigpipe tid p \<and> rest s \<noteq> []
     | WriteBlocked s' data n \<Rightarrow> inv s' \<and> 0 < length data \<and> length data \<le> PIPE_SIZE \<and> \<not> pi_read_closed p \<and>
         (\<exists>sent. rest s = sent @ data @ rest s' \<and> n = t + length sent \<and> pi_buffer p' = pi_buffer p @ sent \<and>
            PIPE_SIZE < length (pi_buffer p') + length data))"
  using assms
proof (induction "length (rest s)" arbitrary: s t p rule: less_induct)
  case less
  have pos: "0 < PIPE_SIZE" by (simp add: PIPE_SIZE_def)
  obtain s1 r where poll: "poll_data s PIPE_SIZE = Inr (s1, r)" using poll_total [OF less.prems pos] by blast
  note ok = poll_ok [OF less.prems poll]
  let ?d = "take PIPE_SIZE (rest s)"
  show ?case
  proof (cases "rest s = []")
    case True
    then show ?thesis using ok poll by (subst pipe_write.simps) simp
  next
    case False
    have split: "rest s = ?d @ rest s1" "?d \<noteq> []" "length ?d \<le> PIPE_SIZE" using ok False pos by auto
    show ?thesis
    proof (cases "pi_read_closed p \<or> length (pi_buffer p) + length ?d > PIPE_SIZE")
      case True
      then show ?thesis using ok poll False split
        by (subst pipe_write.simps) (auto simp: write_atomic_def pipe_wait_defs)
    next
      case fits: False
      define q where "q = notify_cv_read (p\<lparr>pi_buffer := pi_buffer p @ ?d\<rparr>)"
      have q: "pi_buffer q = pi_buffer p @ ?d" "pi_read_closed q = pi_read_closed p"
        by (simp_all add: q_def notify_cv_read_def)
      have "pipe_write poll_data tid s t p = pipe_write poll_data tid s1 (t + length ?d) q"
        using ok poll False fits by (subst pipe_write.simps) (simp add: write_atomic_def q_def)
      moreover have "length (rest s1) < length (rest s)" using split by (metis length_append length_greater_0_conv less_add_same_cancel2)
      note ih = less.hyps [OF this, of "t + length ?d" q] 
      ultimately obtain p' w where w: "pipe_write poll_data tid s t p = Some (p', w)"
        "case w of
           WriteDone (Inr n) \<Rightarrow> n = t + length ?d + length (rest s1) \<and> pi_buffer p' = pi_buffer q @ rest s1
         | WriteDone (Inl e) \<Rightarrow> e = Errno EPIPE \<and> pi_read_closed q \<and> p' = send_sigpipe tid q \<and> rest s1 \<noteq> []
         | WriteBlocked s' data n \<Rightarrow> inv s' \<and> 0 < length data \<and> length data \<le> PIPE_SIZE \<and> \<not> pi_read_closed q \<and>
             (\<exists>sent. rest s1 = sent @ data @ rest s' \<and> n = t + length ?d + length sent \<and> pi_buffer p' = pi_buffer q @ sent \<and>
                PIPE_SIZE < length (pi_buffer p') + length data)"
        using ok by auto
      show ?thesis
      proof (cases w)
        case (WriteDone x)
        have "length (rest s) = length ?d + length (rest s1)" using split(1) by (metis length_append)
        moreover have "pi_buffer p @ rest s = pi_buffer q @ rest s1" using split(1) q(1) by (metis append.assoc)
        ultimately show ?thesis using w fits q(2) WriteDone by (cases x) auto
      next
        case (WriteBlocked s' data n)
        then obtain sent where sent: "rest s1 = sent @ data @ rest s'" "n = t + length ?d + length sent"
          "pi_buffer p' = pi_buffer q @ sent" "PIPE_SIZE < length (pi_buffer p') + length data"
          using w(2) by auto
        have "rest s = (?d @ sent) @ data @ rest s'" using split(1) sent(1) by (metis append.assoc)
        moreover have "n = t + length (?d @ sent)" "pi_buffer p' = pi_buffer p @ (?d @ sent)"
          using sent(2,3) q(1) by simp_all
        ultimately show ?thesis using w sent(4) WriteBlocked q(2) by auto
      qed
    qed
  qed
qed

end

section \<open>Any interleaving of calls\<close>

text \<open>A pipe is used by any number of threads; under the lock their operations run one piece after the
  other. A run is the sequence of these pieces, each with the bytes that it took out and put in.\<close>

datatype pipe_call =
    CallRead usize nat
  | CallWrite bytes
  | CallPollRead poll_event
  | CallPollWrite poll_event
  | CallCloseRead
  | CallCloseWrite

fun pipe_exec :: "nat \<Rightarrow> bool \<Rightarrow> bool \<Rightarrow> pipe_call \<Rightarrow> pipe \<Rightarrow> pipe \<times> bytes \<times> bytes" where
  "pipe_exec tid resumed sig (CallRead n k) p =
     (case pipe_read bb_fill k tid resumed sig (bb_new (replicate n 0)) p of
        (p, Ready (Inr (b, nread))) \<Rightarrow> (p, bb_data b, [])
      | (p, _) \<Rightarrow> (p, [], []))"
| "pipe_exec tid resumed sig (CallWrite data) p =
     (case write_atomic tid resumed sig data p of
        (p, Ready (Inr _)) \<Rightarrow> (p, [], data)
      | (p, _) \<Rightarrow> (p, [], []))"
| "pipe_exec tid resumed sig (CallPollRead e) p = (fst (pipe_poll_read tid resumed sig e p), [], [])"
| "pipe_exec tid resumed sig (CallPollWrite e) p = (fst (pipe_poll_write tid resumed sig e p), [], [])"
| "pipe_exec tid resumed sig CallCloseRead p = (pipe_close_read p, [], [])"
| "pipe_exec tid resumed sig CallCloseWrite p = (pipe_close_write p, [], [])"

fun pipe_run :: "(nat \<times> bool \<times> bool \<times> pipe_call) list \<Rightarrow> pipe \<Rightarrow> pipe \<times> bytes \<times> bytes" where
  "pipe_run [] p = (p, [], [])"
| "pipe_run ((tid, resumed, sig, c) # cs) p =
     (case pipe_exec tid resumed sig c p of (p, rd, wr) \<Rightarrow>
        case pipe_run cs p of (p', rds, wrs) \<Rightarrow> (p', rd @ rds, wr @ wrs))"

text \<open>The condition a suspended call waits for does not hold.\<close>

fun pipe_blocked :: "pipe \<Rightarrow> pipe_wait \<Rightarrow> bool" where
  "pipe_blocked p WaitRead = (pi_buffer p = [] \<and> \<not> pi_write_closed p)"
| "pipe_blocked p (WaitWrite n) = (PIPE_SIZE < length (pi_buffer p) + n \<and> \<not> pi_read_closed p)"
| "pipe_blocked p (WaitPollRead e) = (read_ready p e = 0)"
| "pipe_blocked p (WaitPollWrite e) = (write_ready p e = 0)"

fun on_cv_read :: "pipe_wait \<Rightarrow> bool" where
  "on_cv_read WaitRead = True"
| "on_cv_read (WaitPollRead e) = True"
| "on_cv_read _ = False"

definition pipe_inv :: "pipe \<Rightarrow> bool" where
  "pipe_inv p \<longleftrightarrow> length (pi_buffer p) \<le> PIPE_SIZE \<and>
     (\<forall>(t, w)\<in>set (pi_cv_read p). on_cv_read w \<and> pipe_blocked p w) \<and>
     (\<forall>(t, w)\<in>set (pi_cv_write p). \<not> on_cv_read w \<and> pipe_blocked p w)"

lemma pipe_inv_ends: "pipe_inv pipe_ends"
  by (simp add: pipe_inv_def pipe_ends_def)

text \<open>Changing what the readers wait for is safe when the writers are woken, and the other way
  round.\<close>

lemma blocked_read_cong:
  "on_cv_read w \<Longrightarrow> pi_buffer p' = pi_buffer p \<or> pi_buffer p = [] \<and> pi_buffer p' = [] \<Longrightarrow>
   pi_write_closed p' = pi_write_closed p \<Longrightarrow> pipe_blocked p' w = pipe_blocked p w"
  by (cases w) (auto simp: read_ready_def)

lemma blocked_write_cong:
  "\<not> on_cv_read w \<Longrightarrow> pi_buffer p' = pi_buffer p \<Longrightarrow> pi_read_closed p' = pi_read_closed p \<Longrightarrow>
   pipe_blocked p' w = pipe_blocked p w"
  by (cases w) (auto simp: write_ready_def)

lemma blocked_read_empty:
  "on_cv_read w \<Longrightarrow> pipe_blocked p w \<Longrightarrow> pi_buffer p' = drop n (pi_buffer p) \<Longrightarrow>
   pi_write_closed p' = pi_write_closed p \<Longrightarrow> pipe_blocked p' w"
  by (cases w) (auto simp: read_ready_def split: if_splits)

lemma blocked_write_append:
  "\<not> on_cv_read w \<Longrightarrow> pipe_blocked p w \<Longrightarrow> pi_buffer p' = pi_buffer p @ data \<Longrightarrow>
   pi_read_closed p' = pi_read_closed p \<Longrightarrow> pipe_blocked p' w"
  by (cases w) (auto simp: write_ready_def split: if_splits)

lemma pipe_inv_drop:
  assumes "pipe_inv p"
  shows "pipe_inv (p\<lparr>pi_buffer := drop n (pi_buffer p), pi_cv_write := []\<rparr>)"
  using assms blocked_read_empty [of _ p "p\<lparr>pi_buffer := drop n (pi_buffer p), pi_cv_write := []\<rparr>" n]
  by (fastforce simp: pipe_inv_def)

lemma pipe_inv_append:
  assumes "pipe_inv p" and "length (pi_buffer p) + length data \<le> PIPE_SIZE"
  shows "pipe_inv (p\<lparr>pi_buffer := pi_buffer p @ data, pi_cv_read := []\<rparr>)"
  using assms blocked_write_append [of _ p "p\<lparr>pi_buffer := pi_buffer p @ data, pi_cv_read := []\<rparr>" data]
  by (fastforce simp: pipe_inv_def)

lemma pipe_inv_close:
  assumes "pipe_inv p"
  shows "pipe_inv (pipe_close_read p)" "pipe_inv (pipe_close_write p)"
proof -
  show "pipe_inv (pipe_close_read p)"
    using assms blocked_read_cong [of _ "p\<lparr>pi_read_closed := True, pi_cv_write := []\<rparr>" p]
    by (fastforce simp: pipe_inv_def pipe_close_read_def notify_cv_write_def)
  show "pipe_inv (pipe_close_write p)"
    using assms blocked_write_cong [of _ "p\<lparr>pi_write_closed := True, pi_cv_read := []\<rparr>" p]
    by (fastforce simp: pipe_inv_def pipe_close_write_def notify_cv_read_def)
qed

lemma pipe_inv_wait:
  assumes "pipe_inv p" and "pipe_blocked p w"
  shows "on_cv_read w \<Longrightarrow> pipe_inv (wait_cv_read t w p)" "\<not> on_cv_read w \<Longrightarrow> pipe_inv (wait_cv_write t w p)"
proof -
  have b: "pipe_blocked (wait_cv_read t w p) v = pipe_blocked p v" "pipe_blocked (wait_cv_write t w p) v = pipe_blocked p v" for v
    by (cases v; simp add: wait_cv_read_def wait_cv_write_def read_ready_def write_ready_def)+
  show "on_cv_read w \<Longrightarrow> pipe_inv (wait_cv_read t w p)" "\<not> on_cv_read w \<Longrightarrow> pipe_inv (wait_cv_write t w p)"
    using assms unfolding pipe_inv_def b by (auto simp: wait_cv_read_def wait_cv_write_def)
qed

lemma pipe_inv_sigpipe: "pipe_inv p \<Longrightarrow> pipe_inv (send_sigpipe t p)"
proof -
  have "pipe_blocked (send_sigpipe t p) v = pipe_blocked p v" for v
    by (cases v) (simp_all add: send_sigpipe_def read_ready_def write_ready_def)
  then show "pipe_inv p \<Longrightarrow> pipe_inv (send_sigpipe t p)" unfolding pipe_inv_def by (simp add: send_sigpipe_def)
qed

lemma bb_new_ok: "bb_cur (bb_new buf) \<le> length (bb_buf (bb_new buf))" "bb_data (bb_new buf) = []"
  by (simp_all add: bb_new_def bb_data_def)

lemma pipe_exec_step:
  assumes "pipe_exec tid resumed sig c p = (p', rd, wr)"
  shows "pi_buffer p @ wr = rd @ pi_buffer p'" "pipe_inv p \<Longrightarrow> pipe_inv p'"
proof -
  have "pi_buffer p @ wr = rd @ pi_buffer p' \<and> (pipe_inv p \<longrightarrow> pipe_inv p')"
  proof (cases c)
    case (CallRead n k)
    let ?r = "pipe_read bb_fill k tid resumed sig (bb_new (replicate n 0)) p"
    have out: "case ?r of
        (p', Pending) \<Rightarrow> pi_buffer p = [] \<and> \<not> pi_write_closed p \<and> p' = wait_cv_read tid WaitRead p
      | (p', Ready (Inl e)) \<Rightarrow> p' = p
      | (p', Ready (Inr (b', m))) \<Rightarrow> pi_buffer p = bb_data b' @ drop m (pi_buffer p) \<and>
          p' = p\<lparr>pi_buffer := drop m (pi_buffer p), pi_cv_write := []\<rparr>"
      using bb.pipe_read_outcome [OF bb_new_ok(1) [of "replicate n 0"], where k = k and tid = tid and resumed = resumed and sig = sig and p = p]
      by (auto simp: bb_new_ok split: prod.splits poll.splits sum.splits)
    then show ?thesis using assms pipe_inv_drop pipe_inv_wait(1) [of p WaitRead tid] unfolding CallRead
      by (auto simp: wait_cv_read_def split: prod.splits poll.splits sum.splits)
  next
    case (CallWrite data)
    then show ?thesis
      using assms pipe_inv_append [of p data] pipe_inv_sigpipe [of p tid] pipe_inv_wait(2) [of p "WaitWrite (length data)" tid]
      by (auto simp: write_atomic_def pipe_wait_defs split: if_splits)
  next
    case (CallPollRead e)
    then show ?thesis using assms pipe_inv_wait(1) [of p "WaitPollRead e" tid]
      by (auto simp: pipe_poll_read_def Let_def wait_cv_read_def split: if_splits)
  next
    case (CallPollWrite e)
    then show ?thesis using assms pipe_inv_wait(2) [of p "WaitPollWrite e" tid]
      by (auto simp: pipe_poll_write_def Let_def wait_cv_write_def split: if_splits)
  next
    case CallCloseRead
    then show ?thesis using assms pipe_inv_close(1) [of p]
      by (auto simp: pipe_close_read_def notify_cv_write_def split: if_splits)
  next
    case CallCloseWrite
    then show ?thesis using assms pipe_inv_close(2) [of p]
      by (auto simp: pipe_close_write_def notify_cv_read_def split: if_splits)
  qed
  then show "pi_buffer p @ wr = rd @ pi_buffer p'" "pipe_inv p \<Longrightarrow> pipe_inv p'" by auto
qed

lemma pipe_run_from:
  assumes "pipe_run cs p = (p', rd, wr)"
  shows "pi_buffer p @ wr = rd @ pi_buffer p'" "pipe_inv p \<Longrightarrow> pipe_inv p'"
proof -
  have "pi_buffer p @ wr = rd @ pi_buffer p' \<and> (pipe_inv p \<longrightarrow> pipe_inv p')"
    using assms
  proof (induction cs arbitrary: p p' rd wr)
    case (Cons c cs)
    obtain tid resumed sig call where c: "c = (tid, resumed, sig, call)" by (cases c)
    obtain p1 rd1 wr1 where e: "pipe_exec tid resumed sig call p = (p1, rd1, wr1)" by (metis prod_cases3)
    obtain p2 rd2 wr2 where r: "pipe_run cs p1 = (p2, rd2, wr2)" by (metis prod_cases3)
    have eq: "p' = p2" "rd = rd1 @ rd2" "wr = wr1 @ wr2" using Cons.prems c e r by simp_all
    have "pi_buffer p @ wr1 @ wr2 = rd1 @ rd2 @ pi_buffer p2"
      using pipe_exec_step(1) [OF e] Cons.IH [OF r] by (metis append.assoc)
    then show ?case using pipe_exec_step(2) [OF e] Cons.IH [OF r] unfolding eq by auto
  qed simp
  then show "pi_buffer p @ wr = rd @ pi_buffer p'" "pipe_inv p \<Longrightarrow> pipe_inv p'" by auto
qed

section \<open>Properties\<close>

text \<open>C20: a pipe delivers first in, first out. In every interleaving of reads, writes, polls and closes by any threads,
  the bytes read so far followed by the buffered bytes are exactly the bytes written so far, and the
  buffer never holds more than 4096 bytes.\<close>

theorem pipe_fifo:
  assumes "pipe_run cs pipe_ends = (p, rd, wr)"
  shows "rd @ pi_buffer p = wr \<and> length (pi_buffer p) \<le> 4096"
  using pipe_run_from [OF assms] pipe_inv_ends by (simp add: pipe_ends_def pipe_inv_def PIPE_SIZE_def)

definition sample_run :: "(nat \<times> bool \<times> bool \<times> pipe_call) list" where
  "sample_run = [(1, False, False, CallRead 2 0), (2, False, False, CallWrite [10, 11, 12]), (1, True, False, CallRead 2 1)]"

theorem pipe_fifo_witness:
  "\<exists>p. pipe_run sample_run pipe_ends = (p, [10, 11], [10, 11, 12]) \<and> [10, 11] @ pi_buffer p = [10, 11, 12]"
proof -
  have "\<exists>p. pipe_run sample_run pipe_ends = (p, [10, 11], [10, 11, 12])"
    by (simp add: sample_run_def pipe_ends_def pipe_read_def wait_cv_read_def write_atomic_def notify_cv_read_def
        notify_cv_write_def PIPE_SIZE_def bb_new_def bb_fill_def bb_available_def bb_data_def splice_def numeral_2_eq_2 Let_def)
  then show ?thesis using pipe_fifo by blast
qed

text \<open>C21: no wakeup is lost. After any interleaving, a call that is still suspended on a condition
  variable of the pipe waits for something that is still not the case: no reader sleeps while there are
  bytes or the write end is closed, and no writer sleeps while its data fits or the read end is
  closed.\<close>

theorem pipe_no_lost_wakeup:
  assumes "pipe_run cs pipe_ends = (p, rd, wr)"
  shows "\<forall>(t, w) \<in> set (pi_cv_read p) \<union> set (pi_cv_write p). pipe_blocked p w"
  using pipe_run_from(2) [OF assms pipe_inv_ends] by (auto simp: pipe_inv_def)

theorem pipe_no_lost_wakeup_witness:
  "\<exists>p. pipe_run (take 1 sample_run) pipe_ends = (p, [], []) \<and> (1, WaitRead) \<in> set (pi_cv_read p) \<and> pipe_blocked p WaitRead"
proof -
  have run: "pipe_run (take 1 sample_run) pipe_ends = (wait_cv_read 1 WaitRead pipe_ends, [], [])"
    by (simp add: sample_run_def pipe_ends_def pipe_read_def)
  have "(1, WaitRead) \<in> set (pi_cv_read (wait_cv_read 1 WaitRead pipe_ends))" by (simp add: wait_cv_read_def)
  then show ?thesis using pipe_no_lost_wakeup [OF run] run by blast
qed






end
