(* ===== verification/Page_Table.thy ===== *)
theory Page_Table
  imports Page_Alloc Flags
begin

unbundle bit_operations_syntax

text \<open>
  Page tables: the attributes of entries (\<open>crates/dlutos_mm/src/page_table/pte.rs\<close>), their RISC-V
  encoding (\<open>crates/dlutos_hal/src/arch/riscv64/mm.rs\<close>), the levels (\<open>paging_mode.rs\<close>), the iterator
  over the entries of a range (\<open>pte_iterator.rs\<close>) and the page table itself (\<open>page_table.rs\<close>).

  The memory of page tables maps a frame and an index to a raw entry. A reference to an entry is a
  frame and an index. The page allocator is an argument \<open>alloc\<close> of the code that allocates tables.
\<close>

section \<open>Attributes\<close>

definition TA_PRESENT :: u64 where "TA_PRESENT = 1"
definition TA_USER :: u64 where "TA_USER = 2"
definition TA_ACCESSED :: u64 where "TA_ACCESSED = 4"
definition TA_GLOBAL :: u64 where "TA_GLOBAL = 8"

definition PRESENT :: u64 where "PRESENT = 1"
definition READ :: u64 where "READ = 2"
definition WRITE :: u64 where "WRITE = 4"
definition EXECUTE :: u64 where "EXECUTE = 8"
definition USER :: u64 where "USER = 16"
definition ACCESSED :: u64 where "ACCESSED = 32"
definition DIRTY :: u64 where "DIRTY = 64"
definition GLOBAL :: u64 where "GLOBAL = 128"
definition COPY_ON_WRITE :: u64 where "COPY_ON_WRITE = 256"
definition MAPPED :: u64 where "MAPPED = 512"
definition ANONYMOUS :: u64 where "ANONYMOUS = 1024"
definition HUGE :: u64 where "HUGE = 2048"

definition PA_V :: u64 where "PA_V = push_bit 0 1"
definition PA_R :: u64 where "PA_R = push_bit 1 1"
definition PA_W :: u64 where "PA_W = push_bit 2 1"
definition PA_X :: u64 where "PA_X = push_bit 3 1"
definition PA_U :: u64 where "PA_U = push_bit 4 1"
definition PA_G :: u64 where "PA_G = push_bit 5 1"
definition PA_A :: u64 where "PA_A = push_bit 6 1"
definition PA_D :: u64 where "PA_D = push_bit 7 1"
definition PA_COW :: u64 where "PA_COW = push_bit 8 1"
definition PA_MMAP :: u64 where "PA_MMAP = push_bit 9 1"
definition PA_SHIFT :: nat where "PA_SHIFT = 10"
definition PA_FLAGS_MASK :: u64 where "PA_FLAGS_MASK = 0x3FF"

lemmas ta_defs = TA_PRESENT_def TA_USER_def TA_ACCESSED_def TA_GLOBAL_def
lemmas attr_defs = PRESENT_def READ_def WRITE_def EXECUTE_def USER_def ACCESSED_def DIRTY_def GLOBAL_def
  COPY_ON_WRITE_def MAPPED_def ANONYMOUS_def HUGE_def
lemmas pa_defs = PA_V_def PA_R_def PA_W_def PA_X_def PA_U_def PA_G_def PA_A_def PA_D_def PA_COW_def PA_MMAP_def

text \<open>A raw entry is a word; \<open>PTE64::set\<close> and \<open>get\<close>.\<close>

definition pte_set :: "nat \<Rightarrow> u64 \<Rightarrow> u64" where
  "pte_set pfn attr = push_bit PA_SHIFT (word_of_nat pfn) OR attr"

definition pte_pfn :: "u64 \<Rightarrow> nat" where
  "pte_pfn e = unat (drop_bit PA_SHIFT e)"

definition pte_attr :: "u64 \<Rightarrow> u64" where
  "pte_attr e = e AND PA_FLAGS_MASK"

definition pte_get :: "u64 \<Rightarrow> nat \<times> u64" where
  "pte_get e = (pte_pfn e, pte_attr e)"

text \<open>\<open>PTE::take\<close> returns the old entry and leaves the null entry; the other provided methods.\<close>

definition pte_take :: "u64 \<Rightarrow> (nat \<times> u64) \<times> u64" where
  "pte_take e = (pte_get e, pte_set 0 0)"

definition pte_set_pfn :: "nat \<Rightarrow> u64 \<Rightarrow> u64" where
  "pte_set_pfn pfn e = pte_set pfn (pte_attr e)"

definition pte_set_attr :: "u64 \<Rightarrow> u64 \<Rightarrow> u64" where
  "pte_set_attr attr e = pte_set (pte_pfn e) attr"

definition bit_if :: "bool \<Rightarrow> u64 \<Rightarrow> u64" where
  "bit_if b f = (if b then f else 0)"

definition as_table_attr :: "u64 \<Rightarrow> u64 option" where
  "as_table_attr raw =
     (if raw AND PA_V \<noteq> 0 \<and> raw AND (PA_R OR PA_W OR PA_X) \<noteq> 0 then None
      else Some (bit_if (raw AND PA_V \<noteq> 0) TA_PRESENT OR bit_if (raw AND PA_G \<noteq> 0) TA_GLOBAL OR
                 bit_if (raw AND PA_U \<noteq> 0) TA_USER OR bit_if (raw AND PA_A \<noteq> 0) TA_ACCESSED))"

definition as_page_attr :: "u64 \<Rightarrow> u64 option" where
  "as_page_attr raw =
     (if raw AND PA_V \<noteq> 0 \<and> raw AND (PA_R OR PA_W OR PA_X) = 0 then None
      else Some (bit_if (raw AND PA_V \<noteq> 0) PRESENT OR bit_if (raw AND PA_R \<noteq> 0) READ OR
                 bit_if (raw AND PA_W \<noteq> 0) WRITE OR bit_if (raw AND PA_X \<noteq> 0) EXECUTE OR
                 bit_if (raw AND PA_U \<noteq> 0) USER OR bit_if (raw AND PA_A \<noteq> 0) ACCESSED OR
                 bit_if (raw AND PA_D \<noteq> 0) DIRTY OR bit_if (raw AND PA_G \<noteq> 0) GLOBAL OR
                 bit_if (raw AND PA_COW \<noteq> 0) COPY_ON_WRITE OR bit_if (raw AND PA_MMAP \<noteq> 0) MAPPED))"

text \<open>The conversions to raw attributes; \<open>HUGE\<close> and unknown bits reach \<open>unreachable!\<close>.\<close>

definition raw_of_page_attr :: "u64 \<Rightarrow> u64 res" where
  "raw_of_page_attr a =
     rassert (a AND NOT 0x7FF = 0)
       (Inr (bit_if (has_flag a PRESENT) PA_V OR bit_if (has_flag a READ) PA_R OR
             bit_if (has_flag a WRITE) PA_W OR bit_if (has_flag a EXECUTE) PA_X OR
             bit_if (has_flag a USER) PA_U OR bit_if (has_flag a ACCESSED) PA_A OR
             bit_if (has_flag a DIRTY) PA_D OR bit_if (has_flag a GLOBAL) PA_G OR
             bit_if (has_flag a COPY_ON_WRITE) PA_COW OR bit_if (has_flag a MAPPED) PA_MMAP))"

definition raw_of_table_attr :: "u64 \<Rightarrow> u64 res" where
  "raw_of_table_attr a =
     rassert (a AND NOT 0xF = 0)
       (Inr (bit_if (has_flag a TA_PRESENT) PA_V OR bit_if (has_flag a TA_GLOBAL) PA_G))"

section \<open>Levels\<close>

text \<open>A level is the lowest bit of its index and the number of its bits.\<close>

type_synonym page_table_level = "nat \<times> nat"

definition level_page_size :: "page_table_level \<Rightarrow> usize" where
  "level_page_size l = 2 ^ fst l"

definition max_index :: "page_table_level \<Rightarrow> nat" where
  "max_index l = 2 ^ snd l - 1"

definition index_of :: "page_table_level \<Rightarrow> usize \<Rightarrow> nat" where
  "index_of l vaddr = (vaddr div 2 ^ fst l) mod 2 ^ snd l"

definition LEVELS :: "page_table_level list" where
  "LEVELS = [(39, 9), (30, 9), (21, 9), (12, 9)]"

section \<open>The iterator\<close>

type_synonym ptmem = "nat \<Rightarrow> nat \<Rightarrow> u64"
type_synonym 'a page_allocator = "'a \<Rightarrow> ('a \<times> nat) res"

definition ptmem_set :: "nat \<Rightarrow> nat \<Rightarrow> u64 \<Rightarrow> ptmem \<Rightarrow> ptmem" where
  "ptmem_set p i e mem = mem(p := (mem p)(i := e))"

text \<open>The attributes of the tables that the two kinds of iterator create.\<close>

definition kernel_table_attrs :: u64 where
  "kernel_table_attrs = TA_PRESENT OR TA_GLOBAL"

definition user_table_attrs :: u64 where
  "user_table_attrs = TA_PRESENT OR TA_USER"

definition get_page_table ::
  "'a page_allocator \<Rightarrow> u64 \<Rightarrow> 'a \<Rightarrow> ptmem \<Rightarrow> nat \<Rightarrow> nat \<Rightarrow> ('a \<times> ptmem \<times> nat) res" where
  "get_page_table alloc attrs st mem p i =
     rbind (unwrap (as_table_attr (pte_attr (mem p i)))) (\<lambda>attr.
       if has_flag attr TA_PRESENT then Inr (st, mem, pte_pfn (mem p i))
       else
         rbind (alloc st) (\<lambda>(st, page).
         rbind (raw_of_table_attr attrs) (\<lambda>raw.
           let mem = mem(page := (\<lambda>_. 0))
           in Inr (st, ptmem_set p i (pte_set page raw) mem, page))))"

record pt_iter =
  it_levels :: "page_table_level list"
  it_remaining :: usize
  it_indicies :: "nat \<Rightarrow> nat"
  it_tables :: "nat \<Rightarrow> nat option"

fun parse_tables_loop ::
  "'a page_allocator \<Rightarrow> u64 \<Rightarrow> nat list \<Rightarrow> 'a \<Rightarrow> ptmem \<Rightarrow> pt_iter \<Rightarrow> ('a \<times> ptmem \<times> pt_iter) res" where
  "parse_tables_loop alloc attrs [] st mem it = Inr (st, mem, it)"
| "parse_tables_loop alloc attrs (idx # idxs) st mem it =
     rbind (unwrap (it_tables it idx)) (\<lambda>parent_table.
     rbind (get_page_table alloc attrs st mem parent_table (it_indicies it idx)) (\<lambda>(st, mem, child_table).
       parse_tables_loop alloc attrs idxs st mem (it\<lparr>it_tables := (it_tables it)(idx + 1 := Some child_table)\<rparr>)))"

definition parse_tables_starting_from ::
  "'a page_allocator \<Rightarrow> u64 \<Rightarrow> nat \<Rightarrow> 'a \<Rightarrow> ptmem \<Rightarrow> pt_iter \<Rightarrow> ('a \<times> ptmem \<times> pt_iter) res" where
  "parse_tables_starting_from alloc attrs idx_level st mem it =
     parse_tables_loop alloc attrs [idx_level..<length (it_levels it) - 1] st mem it"

definition iter_with_levels ::
  "'a page_allocator \<Rightarrow> u64 \<Rightarrow> page_table_level list \<Rightarrow> nat \<Rightarrow> addr_range \<Rightarrow> 'a \<Rightarrow> ptmem \<Rightarrow>
   ('a \<times> ptmem \<times> pt_iter) res" where
  "iter_with_levels alloc attrs levels root rng st mem =
     (let start = page_floor (ar_start rng);
          fin = page_ceil (ar_end rng);
          it = \<lparr>it_levels = levels,
                it_remaining = usub fin start div level_page_size (last levels),
                it_indicies = (\<lambda>i. if i < length levels then index_of (levels ! i) start else 0),
                it_tables = (\<lambda>_. None)(0 := Some root)\<rparr>
      in parse_tables_starting_from alloc attrs 0 st mem it)"

definition iter_next ::
  "'a page_allocator \<Rightarrow> u64 \<Rightarrow> 'a \<Rightarrow> ptmem \<Rightarrow> pt_iter \<Rightarrow> ('a \<times> ptmem \<times> pt_iter \<times> (nat \<times> nat) option) res" where
  "iter_next alloc attrs st mem it =
     (if it_remaining it = 0 then Inr (st, mem, it, None)
      else
        let it = it\<lparr>it_remaining := it_remaining it - 1\<rparr>;
            table_level = length (it_levels it) - 1
        in rbind (unwrap (it_tables it table_level)) (\<lambda>table.
             let retval = (table, it_indicies it table_level);
                 candidates = filter (\<lambda>i. it_indicies it i \<noteq> max_index (it_levels it ! i)) [0..<length (it_levels it)]
             in rassert (candidates \<noteq> []) (
                  let idx_level = last candidates;
                      it = it\<lparr>it_indicies := (\<lambda>i. if i = idx_level then it_indicies it i + 1
                                                 else if idx_level < i \<and> i \<le> table_level then 0
                                                 else it_indicies it i)\<rparr>
                  in rmap (\<lambda>(st, mem, it). (st, mem, it, Some retval))
                       (parse_tables_starting_from alloc attrs idx_level st mem it))))"

text \<open>A loop \<open>for pte in iter \{ ... \}\<close>: the body gets the entry and returns what it leaves there. The
  next entry is located before the body runs.\<close>

fun iter_for ::
  "'a page_allocator \<Rightarrow> u64 \<Rightarrow> (u64 \<Rightarrow> 's \<Rightarrow> (u64 \<times> 's) res) \<Rightarrow> nat \<Rightarrow> 'a \<Rightarrow> ptmem \<Rightarrow> pt_iter \<Rightarrow> 's \<Rightarrow>
   ('a \<times> ptmem \<times> 's) res" where
  "iter_for alloc attrs body 0 st mem it s = Inr (st, mem, s)"
| "iter_for alloc attrs body (Suc n) st mem it s =
     rbind (iter_next alloc attrs st mem it) (\<lambda>(st, mem, it, r).
       case r of
         None \<Rightarrow> Inr (st, mem, s)
       | Some (p, i) \<Rightarrow>
           rbind (body (mem p i) s) (\<lambda>(e, s). iter_for alloc attrs body n st (ptmem_set p i e mem) it s))"

definition for_iter_user ::
  "'a page_allocator \<Rightarrow> (u64 \<Rightarrow> 's \<Rightarrow> (u64 \<times> 's) res) \<Rightarrow> nat \<Rightarrow> addr_range \<Rightarrow> 'a \<Rightarrow> ptmem \<Rightarrow> 's \<Rightarrow>
   ('a \<times> ptmem \<times> 's) res" where
  "for_iter_user alloc body root rng st mem s =
     rbind (iter_with_levels alloc user_table_attrs LEVELS root rng st mem) (\<lambda>(st, mem, it).
       iter_for alloc user_table_attrs body (it_remaining it + 1) st mem it s)"

section \<open>Creating and dropping page tables\<close>

text \<open>\<open>clone_in\<close>: the new root holds the kernel half of the old one.\<close>

definition pt_clone_in :: "'a page_allocator \<Rightarrow> nat \<Rightarrow> 'a \<Rightarrow> ptmem \<Rightarrow> ('a \<times> ptmem \<times> nat) res" where
  "pt_clone_in alloc root st mem =
     rbind (alloc st) (\<lambda>(st, new_root).
       let mem = mem(new_root := mem root);
           mem = fold (\<lambda>idx mem. ptmem_set new_root idx (snd (pte_take (mem new_root idx))) mem)
                   [0..<max_index (LEVELS ! 0) div 2 + 1] mem
       in Inr (st, mem, new_root))"

text \<open>\<open>drop_page_table_recursive\<close>; the second result lists the table pages whose \<open>Page\<close> is dropped.\<close>

fun drop_page_table_recursive :: "nat \<Rightarrow> page_table_level list \<Rightarrow> ptmem \<Rightarrow> ptmem \<times> nat list" where
  "drop_page_table_recursive p [] mem = (mem, [])"
| "drop_page_table_recursive p (level # remaining_levels) mem =
     (if remaining_levels = [] then (mem, [])
      else
        fold (\<lambda>i (mem, dropped).
          let ((pfn, raw), e) = pte_take (mem p i);
              mem = ptmem_set p i e mem
          in case as_table_attr raw of
               None \<Rightarrow> (mem, dropped)
             | Some attr \<Rightarrow>
                 if \<not> has_flag attr (TA_PRESENT OR TA_USER) then (mem, dropped)
                 else case drop_page_table_recursive pfn remaining_levels mem of
                        (mem, below) \<Rightarrow> (mem, dropped @ below @ [pfn]))
          [0..<max_index level + 1] (mem, []))"

definition pt_drop :: "nat \<Rightarrow> ptmem \<Rightarrow> ptmem \<times> nat list" where
  "pt_drop root mem = drop_page_table_recursive root LEVELS mem"

section \<open>Entries\<close>

lemma bit_word_of_nat_small:
  assumes "n < 2 ^ k" and "k \<le> j"
  shows "\<not> bit (word_of_nat n :: 'a::len word) j"
proof -
  have "n < 2 ^ j" using assms by (meson less_le_trans one_le_numeral power_increasing)
  then have "\<not> bit n j" by (simp add: bit_iff_odd)
  then show ?thesis by (simp add: bit_of_nat_iff)
qed

lemma bit_low_mask: "bit (0x3FF :: u64) n \<longleftrightarrow> n < 10" "bit (0x7FF :: u64) n \<longleftrightarrow> n < 11"
proof -
  have "(0x3FF :: u64) = mask 10" by (simp add: mask_eq_exp_minus_1)
  then have "bit (0x3FF :: u64) n \<longleftrightarrow> bit (mask 10 :: u64) n" by (rule arg_cong)
  also have "\<dots> \<longleftrightarrow> n < 10" by (auto simp: bit_mask_iff)
  finally show "bit (0x3FF :: u64) n \<longleftrightarrow> n < 10" .
  have "(0x7FF :: u64) = mask 11" by (simp add: mask_eq_exp_minus_1)
  then have "bit (0x7FF :: u64) n \<longleftrightarrow> bit (mask 11 :: u64) n" by (rule arg_cong)
  also have "\<dots> \<longleftrightarrow> n < 11" by (auto simp: bit_mask_iff)
  finally show "bit (0x7FF :: u64) n \<longleftrightarrow> n < 11" .
qed

lemma pte_set_get:
  assumes "pfn < 2 ^ 54" and "attr AND PA_FLAGS_MASK = attr"
  shows "pte_pfn (pte_set pfn attr) = pfn" "pte_attr (pte_set pfn attr) = attr"
proof -
  have bits: "bit PA_FLAGS_MASK n \<longleftrightarrow> n < 10" for n by (simp only: PA_FLAGS_MASK_def bit_low_mask)
  have low: "bit attr n \<Longrightarrow> n < 10" for n
    using arg_cong [OF assms(2), of "\<lambda>w. bit w n"] by (auto simp: bit_and_iff bits)
  have "drop_bit 10 (pte_set pfn attr) = word_of_nat pfn"
  proof (rule bit_word_eqI)
    fix n assume "n < LENGTH(64)"
    then show "bit (drop_bit 10 (pte_set pfn attr)) n = bit (word_of_nat pfn :: u64) n"
      using low [of "n + 10"] bit_word_of_nat_small [OF assms(1), of n, where 'a = 64]
      by (cases "n < 54") (auto simp: pte_set_def PA_SHIFT_def bit_simps add.commute)
  qed
  then show "pte_pfn (pte_set pfn attr) = pfn"
    using assms(1) by (simp add: pte_pfn_def PA_SHIFT_def unat_of_nat)
  show "pte_attr (pte_set pfn attr) = attr"
  proof (rule bit_word_eqI)
    fix n assume "n < LENGTH(64)"
    then show "bit (pte_attr (pte_set pfn attr)) n = bit attr n"
      using low [of n] by (auto simp: pte_attr_def pte_set_def PA_SHIFT_def bit_simps bits)
  qed
qed

text \<open>The table that an entry points to, if it is a present table entry.\<close>

definition table_of :: "u64 \<Rightarrow> nat option" where
  "table_of e = (case as_table_attr (pte_attr e) of
     Some a \<Rightarrow> if has_flag a TA_PRESENT then Some (pte_pfn e) else None | None \<Rightarrow> None)"

definition is_huge :: "u64 \<Rightarrow> bool" where
  "is_huge e \<longleftrightarrow> as_table_attr (pte_attr e) = None"

lemma table_of_0 [simp]: "table_of 0 = None" "\<not> is_huge 0"
  by (simp_all add: table_of_def is_huge_def as_table_attr_def pte_attr_def has_flag_def bit_if_def ta_defs)

lemma raw_of_table_attrs [simp]:
  "raw_of_table_attr user_table_attrs = Inr PA_V"
  "raw_of_table_attr kernel_table_attrs = Inr (PA_V OR PA_G)"
  by (simp_all add: raw_of_table_attr_def user_table_attrs_def kernel_table_attrs_def has_flag_def bit_if_def ta_defs)

text \<open>The attributes that an iterator can create tables with.\<close>

definition table_attrs_ok :: "u64 \<Rightarrow> bool" where
  "table_attrs_ok attrs \<longleftrightarrow> attrs = user_table_attrs \<or> attrs = kernel_table_attrs"

lemma new_table_entry:
  assumes "table_attrs_ok attrs" and "q < 2 ^ 54"
  obtains raw where "raw_of_table_attr attrs = Inr raw" "table_of (pte_set q raw) = Some q" "\<not> is_huge (pte_set q raw)"
proof -
  obtain raw where raw: "raw_of_table_attr attrs = Inr raw" and cases: "raw = PA_V \<or> raw = PA_V OR PA_G"
    using assms(1) by (auto simp: table_attrs_ok_def)
  have "raw AND PA_FLAGS_MASK = raw" using cases by (auto simp: pa_defs PA_FLAGS_MASK_def)
  note get = pte_set_get [OF assms(2) this]
  have "as_table_attr raw = Some TA_PRESENT \<or> as_table_attr raw = Some (TA_PRESENT OR TA_GLOBAL)"
    using cases by (auto simp: as_table_attr_def bit_if_def pa_defs ta_defs)
  then have "table_of (pte_set q raw) = Some q" "\<not> is_huge (pte_set q raw)"
    unfolding table_of_def is_huge_def get by (auto simp: has_flag_def ta_defs)
  with raw show ?thesis by (rule that)
qed

lemma get_page_table_cases:
  "get_page_table alloc attrs st mem p i =
     (if is_huge (mem p i) then Inl Panic
      else case table_of (mem p i) of
        Some q \<Rightarrow> Inr (st, mem, q)
      | None \<Rightarrow> rbind (alloc st) (\<lambda>(st, q). rbind (raw_of_table_attr attrs) (\<lambda>raw.
          Inr (st, ptmem_set p i (pte_set q raw) (mem(q := (\<lambda>_. 0))), q))))"
  by (cases "as_table_attr (pte_attr (mem p i))")
    (auto simp: get_page_table_def is_huge_def table_of_def Let_def)

lemma has_flag_bit: "has_flag a (push_bit k 1 :: u64) \<longleftrightarrow> k < 64 \<longrightarrow> bit a k"
proof
  assume h: "has_flag a (push_bit k 1)"
  show "k < 64 \<longrightarrow> bit a k"
    using arg_cong [OF h [unfolded has_flag_def], of "\<lambda>w. bit w k"] by (auto simp: bit_simps)
next
  assume h: "k < 64 \<longrightarrow> bit a k"
  show "has_flag a (push_bit k 1)" unfolding has_flag_def
    by (rule bit_eqI) (use h in \<open>auto simp: bit_simps\<close>)
qed

lemma and_bit: "k < 64 \<Longrightarrow> a AND (push_bit k 1 :: u64) \<noteq> 0 \<longleftrightarrow> bit a k"
  by (simp add: bit_iff_and_push_bit_not_eq_0)

section \<open>Walks and the view of a page table\<close>

text \<open>The entry that hardware and software reach for an address by following table entries.\<close>

fun walk :: "ptmem \<Rightarrow> page_table_level list \<Rightarrow> nat \<Rightarrow> usize \<Rightarrow> (nat \<times> nat) option" where
  "walk mem [] p va = None"
| "walk mem [l] p va = Some (p, index_of l va)"
| "walk mem (l # l' # ls) p va =
     (case table_of (mem p (index_of l va)) of Some q \<Rightarrow> walk mem (l' # ls) q va | None \<Rightarrow> None)"

text \<open>The leaf entry of an address; an address without tables has the null entry.\<close>

definition leaf :: "ptmem \<Rightarrow> page_table_level list \<Rightarrow> nat \<Rightarrow> usize \<Rightarrow> u64" where
  "leaf mem ls p va = (case walk mem ls p va of Some (q, i) \<Rightarrow> mem q i | None \<Rightarrow> 0)"

definition pt_view :: "ptmem \<Rightarrow> nat \<Rightarrow> nat \<Rightarrow> u64" where
  "pt_view mem root vpn = leaf mem LEVELS root (vpn * 4096)"

text \<open>The tables of the user half form a tree without huge pages: every table has one path of indices
  from the root. The kernel half of the root (indices from 256 on) is not constrained.\<close>

definition user_path :: "nat list \<Rightarrow> nat \<Rightarrow> bool" where
  "user_path is i \<longleftrightarrow> length is < 3 \<and> i < 512 \<and> hd (is @ [i]) < 256"

definition pt_ok :: "(nat \<Rightarrow> nat list option) \<Rightarrow> nat \<Rightarrow> ptmem \<Rightarrow> bool" where
  "pt_ok path root mem \<longleftrightarrow> path root = Some [] \<and>
     (\<forall>p is i. path p = Some is \<and> user_path is i \<longrightarrow>
        \<not> is_huge (mem p i) \<and> (\<forall>q. table_of (mem p i) = Some q \<longrightarrow> path q = Some (is @ [i])))"

lemma pt_okD:
  "pt_ok path root mem \<Longrightarrow> path root = Some []"
  "pt_ok path root mem \<Longrightarrow> path p = Some is \<Longrightarrow> user_path is i \<Longrightarrow> table_of (mem p i) = Some q \<Longrightarrow> path q = Some (is @ [i])"
  "pt_ok path root mem \<Longrightarrow> path p = Some is \<Longrightarrow> user_path is i \<Longrightarrow> \<not> is_huge (mem p i)"
  by (auto simp: pt_ok_def)

text \<open>The remaining levels \<open>ls\<close> below a table with path \<open>is\<close>, on the way to a user address.\<close>

definition below :: "nat list \<Rightarrow> page_table_level list \<Rightarrow> usize \<Rightarrow> bool" where
  "below is ls va \<longleftrightarrow> length is + length ls = 4 \<and> (\<forall>l\<in>set ls. snd l = 9) \<and>
     hd (is @ map (\<lambda>l. index_of l va) ls) < 256"

lemma belowD:
  assumes "below is (l # l' # ls) va"
  shows "user_path is (index_of l va)" "below (is @ [index_of l va]) (l' # ls) va"
  using assms by (auto simp: below_def user_path_def index_of_def hd_append)

lemma walk_path:
  assumes ok: "pt_ok path root mem"
  shows "path p = Some is \<Longrightarrow> below is ls va \<Longrightarrow> walk mem ls p va = Some (q, i) \<Longrightarrow>
    path q = Some (is @ map (\<lambda>l. index_of l va) (butlast ls)) \<and> i = index_of (last ls) va"
proof (induction ls arbitrary: p "is")
  case (Cons l ls)
  show ?case
  proof (cases ls)
    case (Cons l' ls')
    obtain r where r: "table_of (mem p (index_of l va)) = Some r" "walk mem ls r va = Some (q, i)"
      using Cons.prems(3) Cons by (auto split: option.splits)
    note b = belowD [OF Cons.prems(2) [unfolded Cons]]
    have "path r = Some (is @ [index_of l va])" by (rule pt_okD(2) [OF ok Cons.prems(1) b(1) r(1)])
    from Cons.IH [OF this _ r(2)] show ?thesis using Cons b(2) by simp
  qed (use Cons.prems in auto)
qed simp

lemma leaf_zero_table: "ls \<noteq> [] \<Longrightarrow> mem q = (\<lambda>_. 0) \<Longrightarrow> leaf mem ls q va = 0"
  by (cases ls; cases "tl ls") (auto simp: leaf_def)

lemma leaf_Cons:
  "leaf mem (l # l' # ls) p va =
     (case table_of (mem p (index_of l va)) of Some q \<Rightarrow> leaf mem (l' # ls) q va | None \<Rightarrow> 0)"
  by (auto simp: leaf_def split: option.splits)

text \<open>A new, empty table changes no leaf entry.\<close>

lemma leaf_new_table:
  assumes ok: "pt_ok path root mem" and p: "path p = Some is" "length is < 3"
    and old: "table_of (mem p i) = None" and q: "path q = None" and e: "table_of e = Some q"
  defines "mem' \<equiv> ptmem_set p i e (mem(q := (\<lambda>_. 0)))"
  shows "path r = Some js \<Longrightarrow> below js ls va \<Longrightarrow> ls \<noteq> [] \<Longrightarrow> leaf mem' ls r va = leaf mem ls r va"
proof (induction ls arbitrary: r js)
  case (Cons l ls)
  have other: "mem' r' j = mem r' j" if "path r' \<noteq> None" "(r', j) \<noteq> (p, i)" for r' j
    using that q by (auto simp: mem'_def ptmem_set_def)
  show ?case
  proof (cases ls)
    case Nil
    then have "length js = 3" using Cons.prems by (simp add: below_def)
    then have "(r, index_of l va) \<noteq> (p, i)" using p Cons.prems(1) by auto
    then show ?thesis using Nil other [of r] Cons.prems(1) by (simp add: leaf_def)
  next
    case (Cons l' ls')
    note b = belowD [OF Cons.prems(2) [unfolded Cons]]
    show ?thesis
    proof (cases "(r, index_of l va) = (p, i)")
      case True
      have "mem' p i = e" "mem' q = (\<lambda>_. 0)" using p q by (auto simp: mem'_def ptmem_set_def)
      then show ?thesis using True e old Cons leaf_zero_table [of "l' # ls'" mem' q va]
        by (simp add: leaf_Cons)
    next
      case False
      then have same: "mem' r (index_of l va) = mem r (index_of l va)" using other Cons.prems(1) by auto
      show ?thesis
      proof (cases "table_of (mem r (index_of l va))")
        case None
        then show ?thesis using same Cons by (simp add: leaf_Cons)
      next
        case (Some t)
        from Cons.IH [OF pt_okD(2) [OF ok Cons.prems(1) b(1) Some]] b(2)
        show ?thesis using same Some Cons by (simp add: leaf_Cons)
      qed
    qed
  qed
qed simp

lemma pt_ok_new_table:
  assumes ok: "pt_ok path root mem" and p: "path p = Some is"
    and q: "path q = None" and e: "table_of e = Some q" "\<not> is_huge e"
  shows "pt_ok (path(q \<mapsto> is @ [i])) root (ptmem_set p i e (mem(q := (\<lambda>_. 0))))"
proof -
  have "root \<noteq> q" "p \<noteq> q" using pt_okD(1) [OF ok] p q by auto
  then show ?thesis
    using ok p q e unfolding pt_ok_def by (auto simp: ptmem_set_def split: if_splits)
qed

text \<open>Changing a leaf entry changes the leaf of its own page only.\<close>

lemma walk_leaf_update:
  assumes ok: "pt_ok path root mem" and p: "path p = Some is" "length is = 3"
  shows "path r = Some js \<Longrightarrow> below js ls va \<Longrightarrow> walk (ptmem_set p i e mem) ls r va = walk mem ls r va"
proof (induction ls arbitrary: r js)
  case (Cons l ls)
  show ?case
  proof (cases ls)
    case (Cons l' ls')
    note b = belowD [OF Cons.prems(2) [unfolded Cons]]
    have same: "ptmem_set p i e mem r = mem r"
      using Cons.prems(1) p b(1) by (auto simp: ptmem_set_def user_path_def)
    have step: "walk (ptmem_set p i e mem) (l' # ls') t va = walk mem (l' # ls') t va"
      if "table_of (mem r (index_of l va)) = Some t" for t
      using Cons.IH [OF pt_okD(2) [OF ok Cons.prems(1) b(1) that]] b(2) Cons by simp
    then show ?thesis using Cons same by (auto split: option.splits)
  qed simp
qed simp

lemma pt_ok_leaf_update:
  assumes ok: "pt_ok path root mem" and p: "path p = Some is" "length is = 3"
  shows "pt_ok path root (ptmem_set p i e mem)"
  using ok p unfolding pt_ok_def user_path_def by (auto simp: ptmem_set_def split: if_splits)

section \<open>The indices of consecutive pages\<close>

text \<open>The index of page number \<open>vpn\<close> at level \<open>k\<close>.\<close>

definition dig :: "nat \<Rightarrow> nat \<Rightarrow> nat" where
  "dig vpn k = index_of (LEVELS ! k) (vpn * 4096)"

lemma dig_simps:
  "dig vpn 3 = vpn mod 512" "dig vpn 2 = vpn div 512 mod 512"
  "dig vpn 1 = vpn div 512 div 512 mod 512" "dig vpn 0 = vpn div 512 div 512 div 512 mod 512"
proof -
  have "vpn * 4096 div (4096 * m) = vpn div m" for m by (simp add: mult.commute)
  from this [of 1] this [of 512] this [of "512 * 512"] this [of "512 * 512 * 512"]
  show "dig vpn 3 = vpn mod 512" "dig vpn 2 = vpn div 512 mod 512"
    "dig vpn 1 = vpn div 512 div 512 mod 512" "dig vpn 0 = vpn div 512 div 512 div 512 mod 512"
    by (simp_all add: dig_def index_of_def LEVELS_def div_mult2_eq [symmetric])
qed

definition vpn_of :: "nat \<Rightarrow> nat \<Rightarrow> nat \<Rightarrow> nat \<Rightarrow> nat" where
  "vpn_of a b c d = ((a * 512 + b) * 512 + c) * 512 + d"

lemma dig_vpn_of:
  assumes "a < 512" "b < 512" "c < 512" "d < 512"
  shows "dig (vpn_of a b c d) 0 = a" "dig (vpn_of a b c d) 1 = b" "dig (vpn_of a b c d) 2 = c" "dig (vpn_of a b c d) 3 = d"
proof -
  have s: "y < 512 \<Longrightarrow> (x * 512 + y) div 512 = x" "y < 512 \<Longrightarrow> (x * 512 + y) mod 512 = y" for x y :: nat by simp_all
  show "dig (vpn_of a b c d) 0 = a" "dig (vpn_of a b c d) 1 = b" "dig (vpn_of a b c d) 2 = c" "dig (vpn_of a b c d) 3 = d"
    unfolding dig_simps vpn_of_def s [OF assms(4)] s [OF assms(3)] s [OF assms(2)]
    using assms(1) by (simp_all only: mod_less)
qed

lemma vpn_of_dig:
  assumes "vpn < 512 ^ 4"
  shows "vpn_of (dig vpn 0) (dig vpn 1) (dig vpn 2) (dig vpn 3) = vpn"
proof -
  have "vpn div 512 div 512 div 512 < 512" using assms by (simp add: div_mult2_eq [symmetric] less_mult_imp_div_less)
  then have "vpn div 512 div 512 div 512 mod 512 = vpn div 512 div 512 div 512" by (simp only: mod_less)
  then show ?thesis unfolding dig_simps vpn_of_def by (simp only: div_mult_mod_eq)
qed

lemma dig_inject:
  assumes "vpn < 512 ^ 4" and "vpn' < 512 ^ 4" and "\<And>k. k < 4 \<Longrightarrow> dig vpn k = dig vpn' k"
  shows "vpn = vpn'"
proof -
  have e: "dig vpn 0 = dig vpn' 0" "dig vpn 1 = dig vpn' 1" "dig vpn 2 = dig vpn' 2" "dig vpn 3 = dig vpn' 3"
    by (rule assms(3); simp)+
  have "vpn = vpn_of (dig vpn 0) (dig vpn 1) (dig vpn 2) (dig vpn 3)" by (rule vpn_of_dig [OF assms(1), symmetric])
  also have "\<dots> = vpn_of (dig vpn' 0) (dig vpn' 1) (dig vpn' 2) (dig vpn' 3)" by (simp only: e)
  also have "\<dots> = vpn'" by (rule vpn_of_dig [OF assms(2)])
  finally show ?thesis .
qed

lemma dig_less [simp]: "k < 4 \<Longrightarrow> dig vpn k < 512"
proof -
  assume "k < 4"
  then have "k = 0 \<or> k = 1 \<or> k = 2 \<or> k = 3" by linarith
  then show ?thesis by (elim disjE) (simp_all only: dig_simps mod_less_divisor zero_less_numeral)
qed

lemma dig_user: "vpn < 2 ^ 35 \<Longrightarrow> dig vpn 0 < 256"
  by (simp add: dig_simps div_mult2_eq [symmetric] less_mult_imp_div_less)

text \<open>Stepping to the next page: the last index that is not at its maximum is incremented, those
  behind it become zero.\<close>

lemma dig_Suc:
  assumes "Suc vpn < 512 ^ 4" and "i < 4" and "dig vpn i \<noteq> 511" and "\<And>j. i < j \<Longrightarrow> j < 4 \<Longrightarrow> dig vpn j = 511" and "k < 4"
  shows "dig (Suc vpn) k = (if k = i then dig vpn k + 1 else if i < k then 0 else dig vpn k)"
proof -
  obtain a b c d where abcd: "a = dig vpn 0" "b = dig vpn 1" "c = dig vpn 2" "d = dig vpn 3" by blast
  have less: "a < 512" "b < 512" "c < 512" "d < 512" unfolding abcd by simp_all
  have vpn: "vpn = vpn_of a b c d" using vpn_of_dig [of vpn] assms(1) abcd by simp
  have ik: "i = 0 \<or> i = 1 \<or> i = 2 \<or> i = 3" "k = 0 \<or> k = 1 \<or> k = 2 \<or> k = 3" using assms(2,5) by auto
  from ik(1) show ?thesis
  proof (elim disjE)
    assume i: "i = 0"
    then have "b = 511" "c = 511" "d = 511" "a \<noteq> 511" using assms(3,4) abcd by auto
    then have "Suc vpn = vpn_of (a + 1) 0 0 0" "a + 1 < 512" using vpn less by (simp_all add: vpn_of_def)
    then show ?thesis using ik(2) i dig_vpn_of [of "a + 1" 0 0 0] abcd by auto
  next
    assume i: "i = 1"
    then have "c = 511" "d = 511" "b \<noteq> 511" using assms(3,4) abcd by auto
    then have "Suc vpn = vpn_of a (b + 1) 0 0" "b + 1 < 512" using vpn less by (simp_all add: vpn_of_def)
    then show ?thesis using ik(2) i dig_vpn_of [of a "b + 1" 0 0] less abcd by auto
  next
    assume i: "i = 2"
    then have "d = 511" "c \<noteq> 511" using assms(3,4) abcd by auto
    then have "Suc vpn = vpn_of a b (c + 1) 0" "c + 1 < 512" using vpn less by (simp_all add: vpn_of_def)
    then show ?thesis using ik(2) i dig_vpn_of [of a b "c + 1" 0] less abcd by auto
  next
    assume i: "i = 3"
    then have "d \<noteq> 511" using assms(3) abcd by auto
    then have "Suc vpn = vpn_of a b c (d + 1)" "d + 1 < 512" using vpn less by (simp_all add: vpn_of_def)
    then show ?thesis using ik(2) i dig_vpn_of [of a b c "d + 1"] less abcd by auto
  qed
qed

lemma dig_not_all_max:
  assumes "Suc vpn < 512 ^ 4"
  shows "\<exists>i<4. dig vpn i \<noteq> 511"
proof (rule ccontr)
  assume "\<not> ?thesis"
  then have "dig vpn 0 = 511" "dig vpn 1 = 511" "dig vpn 2 = 511" "dig vpn 3 = 511" by auto
  then show False using vpn_of_dig [of vpn] assms by (simp add: vpn_of_def)
qed

section \<open>The iterator visits the pages of the range\<close>

lemma LEVELS_simps [simp]:
  "length LEVELS = 4" "LEVELS \<noteq> []" "level_page_size (last LEVELS) = 4096"
  by (simp_all add: LEVELS_def level_page_size_def)

lemma max_index_LEVELS [simp]: "k < 4 \<Longrightarrow> max_index (LEVELS ! k) = 511"
proof -
  assume "k < 4"
  then have "k = 0 \<or> k = 1 \<or> k = 2 \<or> k = 3" by linarith
  then show ?thesis by (elim disjE) (simp_all add: LEVELS_def max_index_def)
qed

lemma user_path_dig:
  assumes "vpn < 2 ^ 35" and "k < 3"
  shows "user_path (map (dig vpn) [0..<k]) (dig vpn k)"
  using assms dig_user [OF assms(1)] by (cases k) (auto simp: user_path_def hd_append hd_map simp del: upt_Suc)

lemma below_LEVELS: "vpn < 2 ^ 35 \<Longrightarrow> below [] LEVELS (vpn * 4096)"
  using dig_user [of vpn] by (auto simp: below_def dig_def LEVELS_def)

text \<open>The tables of the iterator down to level \<open>m\<close> are those on the path of page \<open>vpn\<close>.\<close>

definition parsed :: "(nat \<Rightarrow> nat list option) \<Rightarrow> nat \<Rightarrow> ptmem \<Rightarrow> pt_iter \<Rightarrow> nat \<Rightarrow> nat \<Rightarrow> bool" where
  "parsed path root mem it vpn m \<longleftrightarrow> it_levels it = LEVELS \<and> it_tables it 0 = Some root \<and>
     (\<forall>k<4. it_indicies it k = dig vpn k) \<and>
     (\<forall>k\<le>m. \<exists>p. it_tables it k = Some p \<and> path p = Some (map (dig vpn) [0..<k])) \<and>
     (\<forall>k<m. table_of (mem (the (it_tables it k)) (dig vpn k)) = it_tables it (Suc k))"

lemma parsed_walk:
  assumes "parsed path root mem it vpn 3"
  shows "walk mem LEVELS root (vpn * 4096) = Some (the (it_tables it 3), dig vpn 3)"
    "path (the (it_tables it 3)) = Some (map (dig vpn) [0..<3])"
proof -
  have t: "it_tables it 0 = Some root" "table_of (mem (the (it_tables it k)) (dig vpn k)) = it_tables it (Suc k)" if "k < 3" for k
    using assms that by (auto simp: parsed_def)
  have s: "\<exists>p. it_tables it k = Some p \<and> path p = Some (map (dig vpn) [0..<k])" if "k \<le> 3" for k
    using assms that by (auto simp: parsed_def)
  obtain p1 p2 p3 where p: "it_tables it 1 = Some p1" "it_tables it 2 = Some p2" "it_tables it 3 = Some p3"
    using s [of 1] s [of 2] s [of 3] by auto
  have "table_of (mem root (dig vpn 0)) = Some p1" "table_of (mem p1 (dig vpn 1)) = Some p2" "table_of (mem p2 (dig vpn 2)) = Some p3"
    using t [of 0] t(2) [of 1] t(2) [of 2] p by (simp_all add: numeral_2_eq_2 numeral_3_eq_3)
  then show "walk mem LEVELS root (vpn * 4096) = Some (the (it_tables it 3), dig vpn 3)"
    using p by (simp add: LEVELS_def dig_def)
  show "path (the (it_tables it 3)) = Some (map (dig vpn) [0..<3])" using s [of 3] by auto
qed

lemma pt_view_update:
  assumes ok: "pt_ok path root mem" and w: "walk mem LEVELS root (vpn * 4096) = Some (p, i)"
    and v: "vpn < 2 ^ 35" "u < 2 ^ 35"
  shows "pt_view (ptmem_set p i e mem) root u = (if u = vpn then e else pt_view mem root u)"
proof -
  have at: "path q = Some (map (dig w) [0..<3]) \<and> j = dig w 3" if "walk mem LEVELS root (w * 4096) = Some (q, j)" "w < 2 ^ 35" for w q j
  proof -
    have "map (\<lambda>l. index_of l (w * 4096)) (butlast LEVELS) = map (dig w) [0..<3]" "index_of (last LEVELS) (w * 4096) = dig w 3"
      by (simp_all add: LEVELS_def dig_def numeral_3_eq_3)
    then show ?thesis using walk_path [OF ok pt_okD(1) [OF ok] below_LEVELS [OF that(2)] that(1)] by simp
  qed
  have p: "path p = Some (map (dig vpn) [0..<3])" "i = dig vpn 3" using at [OF w v(1)] by auto
  have walk: "walk (ptmem_set p i e mem) LEVELS root (u * 4096) = walk mem LEVELS root (u * 4096)"
    by (rule walk_leaf_update [OF ok p(1) _ pt_okD(1) [OF ok] below_LEVELS [OF v(2)]]) simp
  show ?thesis
  proof (cases "u = vpn")
    case True
    then show ?thesis using walk w by (simp add: pt_view_def leaf_def ptmem_set_def)
  next
    case False
    have "(q, j) \<noteq> (p, i)" if "walk mem LEVELS root (u * 4096) = Some (q, j)" for q j
    proof
      assume "(q, j) = (p, i)"
      then have "map (dig u) [0..<3] = map (dig vpn) [0..<3]" "dig u 3 = dig vpn 3"
        using at [OF that v(2)] p by auto
      then have same: "dig u k = dig vpn k" if "k < 4" for k
        using that by (cases "k = 3") (simp, simp only: map_eq_conv, simp)
      have "u < 512 ^ 4" "vpn < 512 ^ 4" using v by simp_all
      from dig_inject [OF this same] False show False by simp
    qed
    then have "ptmem_set p i e mem q j = mem q j" if "walk mem LEVELS root (u * 4096) = Some (q, j)" for q j
      using that by (auto simp: ptmem_set_def)
    then show ?thesis using False walk by (auto simp: pt_view_def leaf_def split: option.splits)
  qed
qed

text \<open>A loop over the entries of consecutive pages, on the view of the page table.\<close>

fun view_for :: "(u64 \<Rightarrow> 's \<Rightarrow> (u64 \<times> 's) res) \<Rightarrow> nat \<Rightarrow> nat \<Rightarrow> (nat \<Rightarrow> u64) \<Rightarrow> 's \<Rightarrow> ((nat \<Rightarrow> u64) \<times> 's) res" where
  "view_for body vpn 0 v s = Inr (v, s)"
| "view_for body vpn (Suc n) v s = rbind (body (v vpn) s) (\<lambda>(e, s). view_for body (Suc vpn) n (v(vpn := e)) s)"

text \<open>What the page tables need of the page allocator: a page is not held twice.\<close>

locale page_source =
  fixes alloc :: "'a page_allocator" and held :: "'a \<Rightarrow> nat set \<Rightarrow> bool"
  assumes alloc_fresh: "held st T \<Longrightarrow> alloc st = Inr (st', p) \<Longrightarrow> p \<notin> T \<and> p < 2 ^ 54 \<and> held st' (insert p T)"
begin

lemma get_page_table_ok:
  assumes "pt_ok path root mem" and "held st (dom path)" and "path p = Some is" and "user_path is i" and "table_attrs_ok attrs"
  shows "case get_page_table alloc attrs st mem p i of
      Inl e \<Rightarrow> \<exists>st. alloc st = Inl e
    | Inr (st', mem', q) \<Rightarrow> \<exists>path'. path \<subseteq>\<^sub>m path' \<and> pt_ok path' root mem' \<and> held st' (dom path') \<and>
        path' q = Some (is @ [i]) \<and> table_of (mem' p i) = Some q \<and>
        (\<forall>r j. path r \<noteq> None \<and> ((r, j) \<noteq> (p, i) \<or> table_of (mem r j) \<noteq> None) \<longrightarrow> mem' r j = mem r j) \<and>
        (\<forall>v<2 ^ 35. pt_view mem' root v = pt_view mem root v)"
proof (cases "table_of (mem p i)")
  case (Some q)
  then show ?thesis
    using pt_okD [OF assms(1)] assms by (auto simp: get_page_table_cases intro: exI [of _ path])
next
  case None
  have nh: "\<not> is_huge (mem p i)" by (rule pt_okD(3) [OF assms(1,3,4)])
  show ?thesis
  proof (cases "alloc st")
    case (Inl e)
    then show ?thesis using None nh by (auto simp: get_page_table_cases)
  next
    case (Inr x)
    obtain st' q where x: "x = (st', q)" by fastforce
    have q: "q \<notin> dom path" "q < 2 ^ 54" "held st' (insert q (dom path))"
      using alloc_fresh [OF assms(2)] Inr x by auto
    obtain raw where raw: "raw_of_table_attr attrs = Inr raw" "table_of (pte_set q raw) = Some q" "\<not> is_huge (pte_set q raw)"
      using new_table_entry [OF assms(5) q(2)] by blast
    let ?mem = "ptmem_set p i (pte_set q raw) (mem(q := (\<lambda>_. 0)))" and ?path = "path(q \<mapsto> is @ [i])"
    have qn: "path q = None" using q(1) by auto
    have eq: "get_page_table alloc attrs st mem p i = Inr (st', ?mem, q)"
      using None nh Inr x raw by (simp add: get_page_table_cases)
    have view: "pt_view ?mem root v = pt_view mem root v" if "v < 2 ^ 35" for v
      unfolding pt_view_def
      using leaf_new_table [OF assms(1,3) _ None qn raw(2) pt_okD(1) [OF assms(1)] below_LEVELS [OF that]] assms(4)
      by (simp add: user_path_def)
    have ok: "pt_ok ?path root ?mem" by (rule pt_ok_new_table [OF assms(1,3) qn raw(2,3)])
    have "path \<subseteq>\<^sub>m ?path" using qn by (auto simp: map_le_def)
    moreover have "\<forall>r j. path r \<noteq> None \<and> ((r, j) \<noteq> (p, i) \<or> table_of (mem r j) \<noteq> None) \<longrightarrow> ?mem r j = mem r j"
      using qn None by (auto simp: ptmem_set_def)
    moreover have "?mem p i = pte_set q raw" by (simp add: ptmem_set_def)
    ultimately show ?thesis unfolding eq using ok q(3) raw(2) view
      by (auto intro!: exI [of _ ?path])
  qed
qed

lemma parse_tables_ok:
  assumes "m \<le> 3" and "pt_ok path root mem" and "held st (dom path)" and "parsed path root mem it vpn m"
    and "vpn < 2 ^ 35" and "table_attrs_ok attrs"
  shows "case parse_tables_loop alloc attrs [m..<3] st mem it of
      Inl e \<Rightarrow> \<exists>st. alloc st = Inl e
    | Inr (st', mem', it') \<Rightarrow> \<exists>path'. path \<subseteq>\<^sub>m path' \<and> pt_ok path' root mem' \<and> held st' (dom path') \<and> parsed path' root mem' it' vpn 3 \<and>
        it_remaining it' = it_remaining it \<and> (\<forall>v<2 ^ 35. pt_view mem' root v = pt_view mem root v) \<and>
        (\<forall>p j. path p \<noteq> None \<and> table_of (mem p j) \<noteq> None \<longrightarrow> mem' p j = mem p j)"
  using assms(1-4)
proof (induction "3 - m" arbitrary: m path mem st it)
  case 0
  then show ?case by (auto intro!: exI [of _ path])
next
  case (Suc n)
  then have m: "m < 3" by simp
  obtain p where p: "it_tables it m = Some p" "path p = Some (map (dig vpn) [0..<m])" "it_indicies it m = dig vpn m"
    using Suc.prems(4) m by (auto simp: parsed_def)
  note up = user_path_dig [OF assms(5) m]
  note g = get_page_table_ok [OF Suc.prems(2,3) p(2) up assms(6)]
  have loop: "parse_tables_loop alloc attrs [m..<3] st mem it =
      rbind (get_page_table alloc attrs st mem p (dig vpn m)) (\<lambda>(st, mem, q).
        parse_tables_loop alloc attrs [Suc m..<3] st mem (it\<lparr>it_tables := (it_tables it)(m + 1 := Some q)\<rparr>))"
    using m p by (simp add: upt_conv_Cons)
  show ?case
  proof (cases "get_page_table alloc attrs st mem p (dig vpn m)")
    case (Inl e)
    then show ?thesis using g by (simp add: loop)
  next
    case (Inr x)
    obtain st1 mem1 q where x: "x = (st1, mem1, q)" by (metis prod_cases3)
    from g [unfolded Inr x] obtain path1 where
      1: "path \<subseteq>\<^sub>m path1" "pt_ok path1 root mem1" "held st1 (dom path1)" "path1 q = Some (map (dig vpn) [0..<m] @ [dig vpn m])"
        "table_of (mem1 p (dig vpn m)) = Some q" "\<forall>r j. path r \<noteq> None \<and> ((r, j) \<noteq> (p, dig vpn m) \<or> table_of (mem r j) \<noteq> None) \<longrightarrow> mem1 r j = mem r j"
        "\<forall>v<2 ^ 35. pt_view mem1 root v = pt_view mem root v"
      by auto
    let ?it = "it\<lparr>it_tables := (it_tables it)(m + 1 := Some q)\<rparr>"
    have P: "\<And>k. k \<le> m \<Longrightarrow> \<exists>r. it_tables it k = Some r \<and> path r = Some (map (dig vpn) [0..<k])"
      "\<And>k. k < m \<Longrightarrow> table_of (mem (the (it_tables it k)) (dig vpn k)) = it_tables it (Suc k)"
      using Suc.prems(4) by (auto simp: parsed_def)
    have tab: "\<exists>r. it_tables ?it k = Some r \<and> path1 r = Some (map (dig vpn) [0..<k])" if k: "k \<le> Suc m" for k
    proof (cases "k = Suc m")
      case True
      then show ?thesis using 1(4) by simp
    next
      case False
      then obtain r where "it_tables it k = Some r" "path r = Some (map (dig vpn) [0..<k])" using P(1) [of k] k by auto
      then show ?thesis using False 1(1) k by (auto simp: map_le_def dom_def)
    qed
    have chain: "table_of (mem1 (the (it_tables ?it k)) (dig vpn k)) = it_tables ?it (Suc k)" if km: "k < Suc m" for k
    proof (cases "k = m")
      case True
      then show ?thesis using 1(5) p(1) by simp
    next
      case False
      with km have k: "k < m" by simp
      obtain r where r: "it_tables it k = Some r" "path r = Some (map (dig vpn) [0..<k])" using P(1) [of k] k by auto
      have "r \<noteq> p"
      proof
        assume "r = p"
        then have "length (map (dig vpn) [0..<k]) = length (map (dig vpn) [0..<m])" using r(2) p(2) by simp
        with k show False by simp
      qed
      then have "mem1 r (dig vpn k) = mem r (dig vpn k)" using 1(6) r(2) by auto
      then show ?thesis using P(2) [OF k] r(1) k by simp
    qed
    have "parsed path1 root mem1 ?it vpn (Suc m)"
      using Suc.prems(4) tab chain by (simp add: parsed_def)
    moreover have "n = 3 - Suc m" "Suc m \<le> 3" using Suc.hyps(2) m by simp_all
    ultimately have ih: "case parse_tables_loop alloc attrs [Suc m..<3] st1 mem1 ?it of
        Inl e \<Rightarrow> \<exists>st. alloc st = Inl e
      | Inr (st', mem', it') \<Rightarrow> \<exists>path'. path1 \<subseteq>\<^sub>m path' \<and> pt_ok path' root mem' \<and> held st' (dom path') \<and> parsed path' root mem' it' vpn 3 \<and>
          it_remaining it' = it_remaining ?it \<and> (\<forall>v<2 ^ 35. pt_view mem' root v = pt_view mem1 root v) \<and>
          (\<forall>p j. path1 p \<noteq> None \<and> table_of (mem1 p j) \<noteq> None \<longrightarrow> mem' p j = mem1 p j)"
      using Suc.hyps(1) 1(2,3) by blast
    have l3: "mem1 r j = mem r j" if "path r \<noteq> None" "table_of (mem r j) \<noteq> None" for r j
      using 1(6) that by blast
    show ?thesis
    proof (cases "parse_tables_loop alloc attrs [Suc m..<3] st1 mem1 ?it")
      case (Inl e)
      then show ?thesis using ih \<open>get_page_table alloc attrs st mem p (dig vpn m) = Inr x\<close> x by (simp add: loop)
    next
      case (Inr y)
      obtain st2 mem2 it2 where y: "y = (st2, mem2, it2)" by (metis prod_cases3)
      obtain path2 where "path1 \<subseteq>\<^sub>m path2" "pt_ok path2 root mem2" "held st2 (dom path2)" "parsed path2 root mem2 it2 vpn 3"
        "it_remaining it2 = it_remaining ?it" "\<forall>v<2 ^ 35. pt_view mem2 root v = pt_view mem1 root v"
        "\<forall>p j. path1 p \<noteq> None \<and> table_of (mem1 p j) \<noteq> None \<longrightarrow> mem2 p j = mem1 p j"
        using ih unfolding Inr y by auto
      moreover have "path1 r \<noteq> None" if "path r \<noteq> None" for r using 1(1) that by (auto simp: map_le_def dom_def)
      ultimately show ?thesis
        using \<open>get_page_table alloc attrs st mem p (dig vpn m) = Inr x\<close> x Inr y l3 1(1,7) map_le_trans [OF 1(1)]
        by (auto simp: loop intro!: exI [of _ path2])
    qed
  qed
qed

lemma iter_next_ok:
  assumes ok: "pt_ok path root mem" "held st (dom path)" and it: "parsed path root mem it vpn 3" "it_remaining it = Suc n"
    and v: "Suc vpn < 2 ^ 35" and attrs: "table_attrs_ok attrs"
  shows "case iter_next alloc attrs st mem it of
      Inl e \<Rightarrow> \<exists>st. alloc st = Inl e
    | Inr (st', mem', it', r) \<Rightarrow> \<exists>path' p i. r = Some (p, i) \<and> walk mem' LEVELS root (vpn * 4096) = Some (p, i) \<and>
        pt_ok path' root mem' \<and> held st' (dom path') \<and> parsed path' root mem' it' (Suc vpn) 3 \<and> it_remaining it' = n \<and>
        (\<forall>v<2 ^ 35. pt_view mem' root v = pt_view mem root v)"
proof -
  let ?P = "\<lambda>i. dig vpn i \<noteq> 511"
  define i where "i = last (filter ?P [0..<4])"
  have lev: "it_levels it = LEVELS" and ind: "\<And>k. k < 4 \<Longrightarrow> it_indicies it k = dig vpn k" using it(1) by (auto simp: parsed_def)
  obtain p where p: "it_tables it 3 = Some p" using it(1) by (auto simp: parsed_def)
  have cand: "filter (\<lambda>i. it_indicies it i \<noteq> max_index (LEVELS ! i)) [0..<4] = filter ?P [0..<4]"
    by (rule filter_cong) (auto simp: ind)
  have big: "Suc vpn < 512 ^ 4" using v by simp
  have ne: "filter ?P [0..<4] \<noteq> []" using dig_not_all_max [OF big] by (auto simp: filter_empty_conv)
  note i = last_filter_upt [OF ne, folded i_def]
  let ?it = "it\<lparr>it_remaining := n, it_indicies := (\<lambda>k. if k = i then it_indicies it k + 1
                    else if i < k \<and> k \<le> 3 then 0 else it_indicies it k)\<rparr>"
  have nx: "iter_next alloc attrs st mem it =
      rmap (\<lambda>(st, mem, it). (st, mem, it, Some (p, dig vpn 3))) (parse_tables_loop alloc attrs [i..<3] st mem ?it)"
    using it(2) lev p ne ind [of 3]
    by (simp add: iter_next_def Let_def cand i_def [symmetric] parse_tables_starting_from_def cong: if_cong)
  have dig: "dig (Suc vpn) k = (if k = i then dig vpn k + 1 else if i < k then 0 else dig vpn k)" if "k < 4" for k
    using dig_Suc [OF big _ _ _ that, of i] i by auto
  have low: "map (dig (Suc vpn)) [0..<k] = map (dig vpn) [0..<k]" if "k \<le> i" for k
    using that i dig by auto
  have "\<exists>q. it_tables ?it k = Some q \<and> path q = Some (map (dig (Suc vpn)) [0..<k])" if "k \<le> i" for k
  proof -
    have "k \<le> 3" using that i by simp
    then show ?thesis unfolding low [OF that] using it(1) unfolding parsed_def by simp
  qed
  moreover have "table_of (mem (the (it_tables ?it k)) (dig (Suc vpn) k)) = it_tables ?it (Suc k)" if "k < i" for k
  proof -
    have "k < 3" "dig (Suc vpn) k = dig vpn k" using that i dig [of k] by simp_all
    then show ?thesis using it(1) unfolding parsed_def by simp
  qed
  moreover have "it_indicies ?it k = dig (Suc vpn) k" if "k < 4" for k using that dig ind by simp
  ultimately have "parsed path root mem ?it (Suc vpn) i"
    using it(1) unfolding parsed_def by simp
  moreover have "i \<le> 3" using i by simp
  ultimately have parse: "case parse_tables_loop alloc attrs [i..<3] st mem ?it of
      Inl e \<Rightarrow> \<exists>st. alloc st = Inl e
    | Inr (st', mem', it') \<Rightarrow> \<exists>path'. path \<subseteq>\<^sub>m path' \<and> pt_ok path' root mem' \<and> held st' (dom path') \<and> parsed path' root mem' it' (Suc vpn) 3 \<and>
        it_remaining it' = it_remaining ?it \<and> (\<forall>v<2 ^ 35. pt_view mem' root v = pt_view mem root v) \<and>
        (\<forall>p j. path p \<noteq> None \<and> table_of (mem p j) \<noteq> None \<longrightarrow> mem' p j = mem p j)"
    using parse_tables_ok [OF _ ok _ v attrs] by blast
  show ?thesis
  proof (cases "parse_tables_loop alloc attrs [i..<3] st mem ?it")
    case (Inl e)
    then show ?thesis using parse by (simp add: nx)
  next
    case (Inr x)
    obtain st' mem' it' where x: "x = (st', mem', it')" by (metis prod_cases3)
    from parse [unfolded Inr x] obtain path' where
      r: "path \<subseteq>\<^sub>m path'" "pt_ok path' root mem'" "held st' (dom path')" "parsed path' root mem' it' (Suc vpn) 3"
        "it_remaining it' = n" "\<forall>v<2 ^ 35. pt_view mem' root v = pt_view mem root v"
        "\<forall>p j. path p \<noteq> None \<and> table_of (mem p j) \<noteq> None \<longrightarrow> mem' p j = mem p j"
      by auto
    have mono: "path' q = Some is" if "path q = Some is" for q "is" using r(1) that by (auto simp: map_le_def dom_def)
    have tab: "\<exists>q. it_tables it k = Some q \<and> path q = Some (map (dig vpn) [0..<k])" if "k \<le> 3" for k
      using it(1) that by (auto simp: parsed_def)
    have chain: "table_of (mem' (the (it_tables it k)) (dig vpn k)) = it_tables it (Suc k)" if k: "k < 3" for k
    proof -
      obtain q q' where q: "it_tables it k = Some q" "path q \<noteq> None" "it_tables it (Suc k) = Some q'"
        using tab [of k] tab [of "Suc k"] k by auto
      have t: "table_of (mem q (dig vpn k)) = Some q'" using it(1) k q by (auto simp: parsed_def)
      then have "mem' q (dig vpn k) = mem q (dig vpn k)" using r(7) q(2) by auto
      then show ?thesis using q t by simp
    qed
    have "\<exists>q. it_tables it k = Some q \<and> path' q = Some (map (dig vpn) [0..<k])" if "k \<le> 3" for k
      using tab [OF that] mono by blast
    then have "parsed path' root mem' it vpn 3" using it(1) chain unfolding parsed_def by simp
    from parsed_walk(1) [OF this] p have "walk mem' LEVELS root (vpn * 4096) = Some (p, dig vpn 3)" by simp
    then show ?thesis using r Inr x by (auto simp: nx)
  qed
qed

lemma iter_for_ok:
  assumes "pt_ok path root mem" and "held st (dom path)" and "parsed path root mem it vpn 3" and "it_remaining it = n"
    and "vpn + n < 2 ^ 35" and attrs: "table_attrs_ok attrs" and "\<And>u. u < 2 ^ 35 \<Longrightarrow> pt_view mem root u = v u"
  shows "case iter_for alloc attrs body (n + 1) st mem it s of
      Inl e \<Rightarrow> (\<exists>st. alloc st = Inl e) \<or> view_for body vpn n v s = Inl e
    | Inr (st', mem', s') \<Rightarrow> \<exists>path' v'. view_for body vpn n v s = Inr (v', s') \<and> pt_ok path' root mem' \<and> held st' (dom path') \<and>
        (\<forall>u<2 ^ 35. pt_view mem' root u = v' u)"
  using assms(1-5,7)
proof (induction n arbitrary: path mem st it vpn v s)
  case 0
  then show ?case by (auto simp: iter_next_def)
next
  case (Suc n)
  have sv: "Suc vpn < 2 ^ 35" "vpn < 2 ^ 35" "Suc vpn + n < 2 ^ 35" using Suc.prems(5) by simp_all
  note nx = iter_next_ok [OF Suc.prems(1-4) sv(1) attrs]
  show ?case
  proof (cases "iter_next alloc attrs st mem it")
    case (Inl e)
    then show ?thesis using nx by simp
  next
    case (Inr x)
    obtain st1 mem1 it1 r where x: "x = (st1, mem1, it1, r)" by (metis prod_cases4)
    from nx [unfolded Inr x] obtain path1 p i where
      1: "r = Some (p, i)" "walk mem1 LEVELS root (vpn * 4096) = Some (p, i)" "pt_ok path1 root mem1" "held st1 (dom path1)"
        "parsed path1 root mem1 it1 (Suc vpn) 3" "it_remaining it1 = n" "\<forall>u<2 ^ 35. pt_view mem1 root u = pt_view mem root u"
      by auto
    have e0: "mem1 p i = v vpn"
    proof -
      have "mem1 p i = pt_view mem1 root vpn" using 1(2) by (simp add: pt_view_def leaf_def)
      then show ?thesis using 1(7) Suc.prems(6) sv(2) by simp
    qed
    have step: "iter_for alloc attrs body (Suc n + 1) st mem it s =
        rbind (body (v vpn) s) (\<lambda>(e, s). iter_for alloc attrs body (n + 1) st1 (ptmem_set p i e mem1) it1 s)"
      unfolding Suc_eq_plus1 [symmetric]
      by (subst iter_for.simps(2)) (simp add: Inr x 1(1) e0 del: iter_for.simps)
    show ?thesis
    proof (cases "body (v vpn) s")
      case (Inl e)
      then show ?thesis unfolding step by simp
    next
      case (Inr y)
      obtain e s1 where y: "y = (e, s1)" by fastforce
      let ?mem = "ptmem_set p i e mem1" and ?v = "v(vpn := e)"
      have pp: "path1 p = Some (map (dig vpn) [0..<3])"
      proof -
        have "map (\<lambda>l. index_of l (vpn * 4096)) (butlast LEVELS) = map (dig vpn) [0..<3]"
          by (simp add: LEVELS_def dig_def numeral_3_eq_3)
        then show ?thesis using walk_path [OF 1(3) pt_okD(1) [OF 1(3)] below_LEVELS [OF sv(2)] 1(2)] by simp
      qed
      have ok2: "pt_ok path1 root ?mem" by (rule pt_ok_leaf_update [OF 1(3) pp]) simp
      have "parsed path1 root ?mem it1 (Suc vpn) 3"
      proof -
        have "ptmem_set p i e mem1 q = mem1 q" if "path1 q = Some (map (dig (Suc vpn)) [0..<k])" "k < 3" for q k
        proof -
          have "q \<noteq> p"
          proof
            assume "q = p"
            then have "length (map (dig (Suc vpn)) [0..<k]) = length (map (dig vpn) [0..<3])" using that(1) pp by simp
            with that(2) show False by simp
          qed
          then show ?thesis by (simp add: ptmem_set_def)
        qed
        then show ?thesis using 1(5) unfolding parsed_def by (metis less_imp_le option.sel)
      qed
      moreover have "pt_view ?mem root u = ?v u" if "u < 2 ^ 35" for u
        using pt_view_update [OF 1(3,2) sv(2) that] 1(7) Suc.prems(6) that by simp
      ultimately have ih: "case iter_for alloc attrs body (n + 1) st1 ?mem it1 s1 of
          Inl e \<Rightarrow> (\<exists>st. alloc st = Inl e) \<or> view_for body (Suc vpn) n ?v s1 = Inl e
        | Inr (st', mem', s') \<Rightarrow> \<exists>path' v'. view_for body (Suc vpn) n ?v s1 = Inr (v', s') \<and> pt_ok path' root mem' \<and>
            held st' (dom path') \<and> (\<forall>u<2 ^ 35. pt_view mem' root u = v' u)"
        using Suc.IH [OF ok2 1(4) _ 1(6) sv(3)] by blast
      have "view_for body vpn (Suc n) v s = view_for body (Suc vpn) n ?v s1" using Inr y by simp
      then show ?thesis using ih unfolding step Inr y by (simp only: rbind_simps prod.case)
    qed
  qed
qed

end

section \<open>The page allocator of the kernel\<close>

text \<open>The pages of \<open>T\<close> are among the single pages that are held.\<close>

definition palloc_held :: "palloc \<Rightarrow> nat set \<Rightarrow> bool" where
  "palloc_held st T \<longleftrightarrow> (\<exists>H G A M U. page_inv st H G A M U \<and> pc_batch st = BATCH_SIZE \<and> M \<subseteq> {..<2 ^ 54} \<and>
     (\<forall>p\<in>T. (p, 0) \<in> U))"

definition alloc_page :: "palloc page_allocator" where
  "alloc_page st = page_alloc_order_in st 0"

lemma alloc_page_held:
  assumes "page_inv st H G A M U" and "pc_batch st = BATCH_SIZE" and "M \<subseteq> {..<2 ^ 54}" and "\<forall>p\<in>T. (p, 0) \<in> U"
    and "alloc_page st = Inr (st', p)"
  shows "p \<notin> T \<and> p < 2 ^ 54 \<and> palloc_held st' (insert p T)"
proof -
  have "can_alloc G 0"
    using global_alloc_core [OF assms(1,2), of 0] assms(5)
    by (auto simp: alloc_page_def page_alloc_order_in_def split: if_splits)
  then obtain q G' A' where q: "global_alloc_order st 0 = Inr (st', Some q)" "page_inv st' H G' A' M (insert (q, 0) U)"
    "(q, 0) \<notin> U" "client_rest st' = client_rest st" and "q = p"
    using global_alloc_core [OF assms(1,2), of 0] assms(5) by (auto simp: alloc_page_def page_alloc_order_in_def)
  have "(q, 0) \<in> A'" using q(2) by (auto simp: page_inv_def)
  moreover have "\<Union> (blk ` (fblocks G' \<union> A')) = M" using q(2) by (auto simp: page_inv_def zone_inv_def dest: zc_cover)
  ultimately have "q \<in> M" using blk_mem [of q 0] by blast
  moreover have "pc_batch st' = BATCH_SIZE" using q(4) assms(2) by (simp add: client_rest_def)
  ultimately show ?thesis using q(2,3) assms(3,4) \<open>q = p\<close> unfolding palloc_held_def by blast
qed

interpretation kpages: page_source alloc_page palloc_held
proof
  fix st T st' p
  assume "palloc_held st T" and alloc: "alloc_page st = Inr (st', p)"
  then obtain H G A M U where "page_inv st H G A M U" "pc_batch st = BATCH_SIZE" "M \<subseteq> {..<2 ^ 54}" "\<forall>p\<in>T. (p, 0) \<in> U"
    unfolding palloc_held_def by blast
  from alloc_page_held [OF this alloc] show "p \<notin> T \<and> p < 2 ^ 54 \<and> palloc_held st' (insert p T)" .
qed

section \<open>Properties\<close>

lemma div_ceil_page: "div_ceil n 4096 * 4096 < n + 4096"
proof -
  define q r where "q = n div 4096" and "r = n mod 4096"
  have "n = q * 4096 + r" unfolding q_def r_def by simp
  then show ?thesis unfolding div_ceil_def q_def [symmetric] r_def [symmetric] by simp
qed

lemma iter_start:
  assumes "start \<le> fin" and "fin < 2 ^ 47"
  shows "iter_with_levels alloc attrs LEVELS root \<lparr>ar_start = start, ar_end = fin\<rparr> st mem =
    parse_tables_loop alloc attrs [0..<3] st mem
      \<lparr>it_levels = LEVELS, it_remaining = div_ceil fin 4096 - start div 4096,
       it_indicies = (\<lambda>i. if i < 4 then dig (start div 4096) i else 0), it_tables = (\<lambda>_. None)(0 := Some root)\<rparr>"
proof -
  have "start div 4096 * 4096 \<le> div_ceil fin 4096 * 4096" using assms(1) by (auto simp: div_ceil_def div_le_mono intro: le_SucI)
  moreover have "div_ceil fin 4096 * 4096 < usize_mod" using div_ceil_page [of fin] assms(2) by (simp add: usize_mod_def)
  ultimately have "usub (div_ceil fin 4096 * 4096) (start div 4096 * 4096) = div_ceil fin 4096 * 4096 - start div 4096 * 4096"
    by (simp add: usub_eq)
  then have "usub (div_ceil fin 4096 * 4096) (start div 4096 * 4096) div 4096 = div_ceil fin 4096 - start div 4096"
    by (simp add: diff_mult_distrib [symmetric])
  then show ?thesis
    using div_ceil_page [of fin] assms(2)
    by (simp add: iter_with_levels_def parse_tables_starting_from_def Let_def page_floor_def page_ceil_def floor_to_def
        ceil_to_def PAGE_SIZE_def umul_eq usize_mod_def dig_def cong: if_cong)
qed


lemma sample_root:
  obtains st root where "palloc_held st {root}"
proof -
  have held: "palloc_held sample_free {}"
    unfolding palloc_held_def using sample_free_page_inv by (force simp: blk_def)
  have "can_alloc ((\<lambda>_. [])(AreaHead 2 := [4])) 0" by (auto simp: can_alloc_def MAX_ORDER_def)
  then obtain st p where "alloc_page sample_free = Inr (st, p)"
    using global_alloc_core [OF sample_free_page_inv, of 0] by (auto simp: alloc_page_def page_alloc_order_in_def)
  from kpages.alloc_fresh [OF held this] show ?thesis using that by blast
qed

lemma empty_table_ok: "pt_ok [root \<mapsto> []] root (\<lambda>_ _. 0)"
  by (simp add: pt_ok_def)


lemma bit_bit_if [simp]: "bit (bit_if b f) n \<longleftrightarrow> b \<and> bit f n"
  by (simp add: bit_if_def)

lemma attr_push_bit:
  "PRESENT = push_bit 0 1" "READ = push_bit 1 1" "WRITE = push_bit 2 1" "EXECUTE = push_bit 3 1" "USER = push_bit 4 1"
  "ACCESSED = push_bit 5 1" "DIRTY = push_bit 6 1" "GLOBAL = push_bit 7 1" "COPY_ON_WRITE = push_bit 8 1" "MAPPED = push_bit 9 1"
  by (simp_all add: attr_defs push_bit_eq_mult)

lemma bit_push_one: "k < 64 \<Longrightarrow> bit (push_bit k 1 :: u64) n \<longleftrightarrow> n = k"
  by (auto simp: bit_simps)

text \<open>The attribute sets that an entry can hold.\<close>

definition attr_ok :: "u64 \<Rightarrow> bool" where
  "attr_ok a \<longleftrightarrow> a AND NOT 0x3FF = 0 \<and>
     (has_flag a PRESENT \<longrightarrow> has_flag a READ \<or> has_flag a WRITE \<or> has_flag a EXECUTE)"

lemma pte_encode:
  assumes "pfn < 2 ^ 54" and "attr_ok a"
  shows "\<exists>raw. raw_of_page_attr a = Inr raw \<and> pte_get (pte_set pfn raw) = (pfn, raw) \<and> as_page_attr raw = Some a"
proof -
  have ok: "a AND NOT 0x3FF = 0" "has_flag a PRESENT \<longrightarrow> has_flag a READ \<or> has_flag a WRITE \<or> has_flag a EXECUTE"
    using assms(2) by (auto simp: attr_ok_def)
  define raw where "raw = bit_if (has_flag a PRESENT) PA_V OR bit_if (has_flag a READ) PA_R OR
             bit_if (has_flag a WRITE) PA_W OR bit_if (has_flag a EXECUTE) PA_X OR
             bit_if (has_flag a USER) PA_U OR bit_if (has_flag a ACCESSED) PA_A OR
             bit_if (has_flag a DIRTY) PA_D OR bit_if (has_flag a GLOBAL) PA_G OR
             bit_if (has_flag a COPY_ON_WRITE) PA_COW OR bit_if (has_flag a MAPPED) PA_MMAP"
  have low: "n < 10" if b: "bit a n" for n
  proof -
    have "n < 64" using bit_imp_le_length [OF b] by simp
    moreover have "bit (a AND NOT 0x3FF) n = False" unfolding ok(1) by simp
    ultimately show ?thesis using b unfolding bit_and_iff bit_not_iff bit_low_mask by (simp add: possible_bit_word)
  qed
  have raw_bit: "bit raw n \<longleftrightarrow> n = 0 \<and> bit a 0 \<or> n = 1 \<and> bit a 1 \<or> n = 2 \<and> bit a 2 \<or> n = 3 \<and> bit a 3 \<or>
      n = 4 \<and> bit a 4 \<or> n = 6 \<and> bit a 5 \<or> n = 7 \<and> bit a 6 \<or> n = 5 \<and> bit a 7 \<or> n = 8 \<and> bit a 8 \<or> n = 9 \<and> bit a 9" for n
    unfolding raw_def attr_push_bit pa_defs bit_or_iff bit_bit_if has_flag_bit
    by (simp only: bit_push_one) auto
  have "bit (a AND NOT 0x7FF) n = bit (0 :: u64) n" for n
    using low [of n] unfolding bit_and_iff bit_not_iff bit_low_mask by auto
  then have "a AND NOT 0x7FF = 0" by (rule bit_eqI)
  then have r: "raw_of_page_attr a = Inr raw" by (simp add: raw_of_page_attr_def raw_def)
  have m: "raw AND PA_FLAGS_MASK = raw"
    by (rule bit_eqI) (simp only: bit_and_iff raw_bit PA_FLAGS_MASK_def bit_low_mask, auto)
  have ab: "(raw AND PA_V \<noteq> 0) = bit raw 0" "(raw AND PA_R \<noteq> 0) = bit raw 1" "(raw AND PA_W \<noteq> 0) = bit raw 2"
    "(raw AND PA_X \<noteq> 0) = bit raw 3" "(raw AND PA_U \<noteq> 0) = bit raw 4" "(raw AND PA_G \<noteq> 0) = bit raw 5"
    "(raw AND PA_A \<noteq> 0) = bit raw 6" "(raw AND PA_D \<noteq> 0) = bit raw 7" "(raw AND PA_COW \<noteq> 0) = bit raw 8"
    "(raw AND PA_MMAP \<noteq> 0) = bit raw 9"
    by (unfold pa_defs, (rule and_bit, simp)+)
  have "bit raw 0 \<Longrightarrow> bit raw 1 \<or> bit raw 2 \<or> bit raw 3"
    using ok(2) unfolding attr_push_bit has_flag_bit raw_bit by simp
  then have some: "\<not> (raw AND PA_V \<noteq> 0 \<and> raw AND (PA_R OR PA_W OR PA_X) = 0)"
    unfolding ab(1) bit.conj_disj_distrib or_eq_0_iff using ab(2-4) by blast
  have whole: "bit_if (raw AND PA_V \<noteq> 0) PRESENT OR bit_if (raw AND PA_R \<noteq> 0) READ OR
                 bit_if (raw AND PA_W \<noteq> 0) WRITE OR bit_if (raw AND PA_X \<noteq> 0) EXECUTE OR
                 bit_if (raw AND PA_U \<noteq> 0) USER OR bit_if (raw AND PA_A \<noteq> 0) ACCESSED OR
                 bit_if (raw AND PA_D \<noteq> 0) DIRTY OR bit_if (raw AND PA_G \<noteq> 0) GLOBAL OR
                 bit_if (raw AND PA_COW \<noteq> 0) COPY_ON_WRITE OR bit_if (raw AND PA_MMAP \<noteq> 0) MAPPED = a" (is "?d = a")
  proof (rule bit_eqI)
    fix n
    have bp: "bit (push_bit 0 1 :: u64) n = (n = 0)" "bit (push_bit 1 1 :: u64) n = (n = 1)" "bit (push_bit 2 1 :: u64) n = (n = 2)"
      "bit (push_bit 3 1 :: u64) n = (n = 3)" "bit (push_bit 4 1 :: u64) n = (n = 4)" "bit (push_bit 5 1 :: u64) n = (n = 5)"
      "bit (push_bit 6 1 :: u64) n = (n = 6)" "bit (push_bit 7 1 :: u64) n = (n = 7)" "bit (push_bit 8 1 :: u64) n = (n = 8)"
      "bit (push_bit 9 1 :: u64) n = (n = 9)"
      by (rule bit_push_one, simp)+
    have ten: "n < 10 \<Longrightarrow> n = 0 \<or> n = 1 \<or> n = 2 \<or> n = 3 \<or> n = 4 \<or> n = 5 \<or> n = 6 \<or> n = 7 \<or> n = 8 \<or> n = 9"
      by (simp add: less_Suc_eq numeral_eq_Suc) 
    have rb: "bit raw 0 = bit a 0" "bit raw 1 = bit a 1" "bit raw 2 = bit a 2" "bit raw 3 = bit a 3" "bit raw 4 = bit a 4"
      "bit raw 6 = bit a 5" "bit raw 7 = bit a 6" "bit raw 5 = bit a 7" "bit raw 8 = bit a 8" "bit raw 9 = bit a 9"
      by (simp_all add: raw_bit)
    have eq: "bit ?d n \<longleftrightarrow> bit a 0 \<and> n = 0 \<or> bit a 1 \<and> n = 1 \<or> bit a 2 \<and> n = 2 \<or> bit a 3 \<and> n = 3 \<or> bit a 4 \<and> n = 4 \<or>
        bit a 5 \<and> n = 5 \<or> bit a 6 \<and> n = 6 \<or> bit a 7 \<and> n = 7 \<or> bit a 8 \<and> n = 8 \<or> bit a 9 \<and> n = 9"
      unfolding ab attr_push_bit bit_or_iff bit_bit_if rb bp by blast
    have "bit ?d n \<longleftrightarrow> n < 10 \<and> bit a n"
    proof (cases "n < 10")
      case True
      from ten [OF this] show ?thesis unfolding eq by (elim disjE) simp_all
    next
      case False
      then show ?thesis unfolding eq by auto
    qed
    then show "bit ?d n = bit a n" using low by auto
  qed
  have dec: "as_page_attr raw = Some a" unfolding as_page_attr_def if_not_P [OF some] whole by (rule refl)
  show ?thesis using r dec pte_set_get [OF assms(1) m] by (simp add: pte_get_def)
qed

text \<open>C26: encoding and decoding of page table entries. For every frame number of a physical address and every
  attribute set without \<open>ANONYMOUS\<close> and \<open>HUGE\<close> (a present page being readable, writable or
  executable), the raw entry holds both: \<open>get\<close> returns the frame and raw attributes that were \<open>set\<close>,
  and they decode to the same attribute set.\<close>

theorem pte_roundtrip:
  assumes "pfn < 2 ^ 54" and "a AND NOT 0x3FF = 0"
    and "has_flag a PRESENT \<longrightarrow> has_flag a READ \<or> has_flag a WRITE \<or> has_flag a EXECUTE"
  shows "\<exists>raw. raw_of_page_attr a = Inr raw \<and> pte_get (pte_set pfn raw) = (pfn, raw) \<and> as_page_attr raw = Some a"
  by (rule pte_encode) (use assms in \<open>simp_all add: attr_ok_def\<close>)

theorem pte_roundtrip_witness:
  "\<exists>raw. raw_of_page_attr (PRESENT OR READ OR USER OR DIRTY) = Inr raw \<and> pte_get (pte_set 0x80200 raw) = (0x80200, raw) \<and>
     as_page_attr raw = Some (PRESENT OR READ OR USER OR DIRTY)"
  by (rule pte_roundtrip) (simp_all add: attr_defs has_flag_def)

section \<open>Dropping a page table\<close>

text \<open>An entry that \<open>drop_page_table_recursive\<close> passes over.\<close>

definition drop_skips :: "u64 \<Rightarrow> bool" where
  "drop_skips e \<longleftrightarrow> (\<forall>a. as_table_attr (pte_attr e) = Some a \<longrightarrow> \<not> has_flag a (TA_PRESENT OR TA_USER))"

lemma drop_skips_zero [simp]: "drop_skips 0" "drop_skips (pte_set 0 0)"
proof -
  show zero: "drop_skips 0"
    by (simp add: drop_skips_def as_table_attr_def pte_attr_def has_flag_def bit_if_def ta_defs)
  have "pte_set 0 0 = 0" by (simp add: pte_set_def)
  with zero show "drop_skips (pte_set 0 0)" by simp
qed

lemma drop_skips_new_table:
  assumes "table_attrs_ok attrs" and "raw_of_table_attr attrs = Inr raw" and "pfn < 2 ^ 54"
  shows "drop_skips (pte_set pfn raw)"
proof -
  have raw: "raw = PA_V \<or> raw = PA_V OR PA_G" using assms(1,2) by (auto simp: table_attrs_ok_def)
  have "raw AND PA_FLAGS_MASK = raw" using raw by (auto simp: pa_defs PA_FLAGS_MASK_def)
  note get = pte_set_get [OF assms(3) this]
  show ?thesis using raw unfolding drop_skips_def get
    by (auto simp: as_table_attr_def bit_if_def pa_defs ta_defs has_flag_def)
qed

lemma drop_fold_skips:
  assumes "\<forall>i. drop_skips (mem p i)"
  shows "snd (fold (\<lambda>i (mem, dropped).
          let ((pfn, raw), e) = pte_take (mem p i);
              mem = ptmem_set p i e mem
          in case as_table_attr raw of
               None \<Rightarrow> (mem, dropped)
             | Some attr \<Rightarrow>
                 if \<not> has_flag attr (TA_PRESENT OR TA_USER) then (mem, dropped)
                 else case f pfn mem of (mem, sub) \<Rightarrow> (mem, dropped @ sub @ [pfn]))
          is (mem, dropped)) = dropped"
  using assms
proof (induction "is" arbitrary: mem)
  case (Cons i "is")
  have "\<forall>j. drop_skips (ptmem_set p i (pte_set 0 0) mem p j)"
    using Cons.prems by (simp add: ptmem_set_def)
  note step = Cons.IH [where mem = "ptmem_set p i (pte_set 0 0) mem", OF this]
  show ?case
  proof (cases "as_table_attr (pte_attr (mem p i))")
    case None
    then show ?thesis using step by (simp add: pte_take_def pte_get_def)
  next
    case (Some a)
    then have "\<not> has_flag a (TA_PRESENT OR TA_USER)" using Cons.prems by (auto simp: drop_skips_def)
    then show ?thesis using step Some by (simp add: pte_take_def pte_get_def)
  qed
qed simp



end
