(* ===== verification/Page_Own.thy ===== *)
theory Page_Own
  imports Page_Alloc "HOL-Library.Multiset"
begin

text \<open>
  References to single pages. The kernel keeps \<open>Page\<close>s as raw frame numbers in page table entries
  and in the page cache; each such number stands for one unit of the reference count of the page
  (\<open>Page::into_raw\<close>, \<open>Page::from_raw\<close>, \<open>Page::clone\<close> and \<open>Drop for Page\<close> of
  \<open>crates/dlutos_mm/src/paging/page.rs\<close>). The locale \<open>page_owner\<close> is the contract between that
  code and its clients: a state owns a multiset of references, and every operation changes the
  multiset in a known way. It is interpreted on the page allocator.
\<close>

fun drop_pages :: "('s \<Rightarrow> nat \<Rightarrow> 's res) \<Rightarrow> 's \<Rightarrow> nat list \<Rightarrow> 's res" where
  "drop_pages release st [] = Inr st"
| "drop_pages release st (p # ps) = rbind (release st p) (\<lambda>st. drop_pages release st ps)"

locale page_owner =
  fixes own :: "'s \<Rightarrow> nat multiset \<Rightarrow> bool"
    and from_raw :: "'s \<Rightarrow> nat \<Rightarrow> nat res"
    and release :: "'s \<Rightarrow> nat \<Rightarrow> 's res"
    and share :: "'s \<Rightarrow> nat \<Rightarrow> 's"
    and refs :: "'s \<Rightarrow> nat \<Rightarrow> nat"
  assumes own_from_raw: "own st M \<Longrightarrow> p \<in># M \<Longrightarrow> from_raw st p = Inr p"
    and own_release: "own st (add_mset p M) \<Longrightarrow> \<exists>st'. release st p = Inr st' \<and> own st' M"
    and own_share: "own st M \<Longrightarrow> p \<in># M \<Longrightarrow> refs st p + 1 < usize_mod \<Longrightarrow> own (share st p) (add_mset p M)"
    and refs_share: "refs st p + 1 < usize_mod \<Longrightarrow> refs (share st p) q = (if q = p then refs st p + 1 else refs st q)"
    and own_sub: "own st (N + M) \<Longrightarrow> own st M"
begin

lemma own_drop_pages:
  "own st (mset ps + M) \<Longrightarrow> \<exists>st'. drop_pages release st ps = Inr st' \<and> own st' M"
proof (induction ps arbitrary: st)
  case (Cons p ps)
  then have "own st (add_mset p (mset ps + M))" by simp
  then obtain st1 where "release st p = Inr st1" "own st1 (mset ps + M)" using own_release by blast
  with Cons.IH show ?case by simp
qed simp

lemma own_share_many:
  assumes "own st M" and "p \<in># M" and "refs st p + n < usize_mod"
  shows "own (((\<lambda>st. share st p) ^^ n) st) (replicate_mset n p + M) \<and>
    refs (((\<lambda>st. share st p) ^^ n) st) p = refs st p + n"
  using assms(3)
proof (induction n)
  case (Suc n)
  let ?st = "((\<lambda>st. share st p) ^^ n) st"
  have ih: "own ?st (replicate_mset n p + M)" "refs ?st p = refs st p + n" using Suc by simp_all
  have r: "refs ?st p + 1 < usize_mod" using ih(2) Suc.prems by simp
  have "own (share ?st p) (add_mset p (replicate_mset n p + M))" using own_share [OF ih(1) _ r] assms(2) by simp
  moreover have "refs (share ?st p) p = refs st p + Suc n" using refs_share [OF r, of p] ih(2) by simp
  ultimately show ?case by simp
qed (use assms(1) in simp)

end

section \<open>The page allocator as the owner\<close>

definition pages_own :: "'a palloc_scheme \<Rightarrow> nat multiset \<Rightarrow> bool" where
  "pages_own st Ms \<longleftrightarrow> pc_batch st = BATCH_SIZE \<and> (\<exists>H G A M U. page_inv st H G A M U \<and>
     (\<forall>p. p \<in># Ms \<longrightarrow> (p, 0) \<in> U \<and> count Ms p \<le> page_refcount st p \<and> page_refcount st p < usize_mod))"

lemma pages_ownE:
  assumes "pages_own st Ms"
  obtains H G A M U where "page_inv st H G A M U" "pc_batch st = BATCH_SIZE"
    "\<forall>p. p \<in># Ms \<longrightarrow> (p, 0) \<in> U" "\<forall>p. count Ms p \<le> page_refcount st p"
    "\<forall>p. p \<in># Ms \<longrightarrow> page_refcount st p < usize_mod"
proof -
  obtain H G A M U where i: "page_inv st H G A M U" and all: "\<forall>p. p \<in># Ms \<longrightarrow> (p, 0) \<in> U \<and> count Ms p \<le> page_refcount st p \<and>
      page_refcount st p < usize_mod" and b: "pc_batch st = BATCH_SIZE"
    using assms unfolding pages_own_def by blast
  have "count Ms p \<le> page_refcount st p" for p using all by (cases "p \<in># Ms") (auto simp: not_in_iff)
  with i b all show ?thesis by (intro that) auto
qed

lemma pages_ownI:
  assumes "page_inv st H G A M U" and "pc_batch st = BATCH_SIZE" and "\<And>p. p \<in># Ms \<Longrightarrow> (p, 0) \<in> U"
    and "\<And>p. p \<in># Ms \<Longrightarrow> count Ms p \<le> page_refcount st p" and "\<And>p. p \<in># Ms \<Longrightarrow> page_refcount st p < usize_mod"
  shows "pages_own st Ms"
  unfolding pages_own_def using assms by blast

lemma pages_own_sub: "pages_own st (N + M) \<Longrightarrow> pages_own st M"
  by (erule pages_ownE, rule pages_ownI) (auto intro: add_leD2)

lemma pages_own_from_raw:
  assumes "pages_own st Ms" and "p \<in># Ms"
  shows "page_from_raw_in st p = Inr p"
proof -
  obtain H G A M U where i: "page_inv st H G A M U" and "\<forall>p. p \<in># Ms \<longrightarrow> (p, 0) \<in> U"
    using assms(1) by (rule pages_ownE) blast
  then have "has_management_over (set_refcount p (page_refcount st p) st) p" using held_managed(1) assms(2) by blast
  moreover have "set_refcount p (page_refcount st p) st = st"
    by (simp add: set_refcount_def page_refcount_def upd_page_def fun_upd_idem)
  ultimately show ?thesis by (simp add: page_from_raw_in_def)
qed

lemma pages_own_clone:
  assumes "pages_own st Ms" and "p \<in># Ms" and "page_refcount st p + 1 < usize_mod"
  shows "pages_own (page_clone st p) (add_mset p Ms)"
proof -
  obtain H G A M U where i: "page_inv st H G A M U" "pc_batch st = BATCH_SIZE" "\<forall>p. p \<in># Ms \<longrightarrow> (p, 0) \<in> U"
    "\<forall>p. count Ms p \<le> page_refcount st p" "\<forall>p. p \<in># Ms \<longrightarrow> page_refcount st p < usize_mod"
    using assms(1) by (rule pages_ownE) blast
  have c: "page_clone st p = set_refcount p (page_refcount st p + 1) st"
    using assms(3) by (simp add: page_clone_def uadd_eq)
  have "page_inv (page_clone st p) H G A M U"
    unfolding c by (rule page_inv_set_refcount(2) [OF i(1)]) (use i(3) assms(2) in auto)
  then show ?thesis
    by (rule pages_ownI) (use i assms in \<open>auto simp: c intro: le_SucI\<close>)
qed

lemma page_clone_refs:
  "page_refcount st p + 1 < usize_mod \<Longrightarrow>
   page_refcount (page_clone st p) q = (if q = p then page_refcount st p + 1 else page_refcount st q)"
  by (simp add: page_clone_def uadd_eq)

text \<open>The last reference to a single page goes to the cache of the processor.\<close>

lemma drop_last_single:
  assumes inv: "page_inv st H G A M U" and p: "(p, 0) \<in> U" and one: "page_refcount st p = 1"
  obtains st' G' where "page_drop st p = Inr st'" "page_inv st' H G' A M (U - {(p, 0)})"
    "\<forall>q. page_refcount st' q = page_refcount st q" "client_rest st' = client_rest st"
proof -
  let ?st = "set_refcount p 1 (set_refcount p 0 st)" and ?U = "U - {(p, 0)}"
  have i1: "page_inv ?st H G A M ?U"
    using page_inv_set_refcount(1) [OF inv p, of 1] by (simp add: set_refcount_def upd_page_def)
  have k: "0 \<le> COSTLY_ORDER" by simp
  have lists: "p \<notin> set (G hn)" if "hn \<in> H" for hn by (rule pi_free [OF inv p that])
  have loc: "page_has ?st p PF_LOCAL" using pi_local [OF inv, of p 0] p by simp
  have one': "page_refcount ?st p = 1" by simp
  have out: "(p, 0) \<notin> ?U" by simp
  obtain st' where ins: "percpu_insert_free_pages ?st p 0 = Inr st'"
    and i: "page_inv st' H (G(CpuHead 0 := p # G (CpuHead 0))) A M ?U" and r: "client_rest st' = client_rest ?st"
    and refs: "\<forall>q. page_refcount st' q = page_refcount ?st q"
    by (rule insert_core [OF i1 k pi_sub(1) [OF inv p] out lists one' loc]) blast+
  have "page_drop st p = global_dealloc (set_refcount p 0 st) p"
    using one held_managed(1) [OF inv p] by (simp add: page_drop_def Let_def usub_def usize_mod_def)
  moreover have "global_dealloc (set_refcount p 0 st) p = percpu_insert_free_pages ?st p 0"
    using held_managed(2) [OF inv p] by (simp add: global_dealloc_def percpu_free_pages_def)
  ultimately have "page_drop st p = Inr st'" using ins by simp
  moreover have "\<forall>q. page_refcount st' q = page_refcount st q" using refs one by auto
  moreover have "client_rest st' = client_rest st" using r by simp
  ultimately show ?thesis using that i by blast
qed

lemma pages_own_drop:
  assumes "pages_own st (add_mset p Ms)"
  shows "\<exists>st'. page_drop st p = Inr st' \<and> pages_own st' Ms \<and> client_rest st' = client_rest st \<and>
    (\<forall>q. q \<noteq> p \<longrightarrow> page_refcount st' q = page_refcount st q)"
proof -
  obtain H G A M U where i: "page_inv st H G A M U" "pc_batch st = BATCH_SIZE"
    and U: "\<forall>q. q \<in># add_mset p Ms \<longrightarrow> (q, 0) \<in> U"
    and c: "\<forall>q. count (add_mset p Ms) q \<le> page_refcount st q"
    and l: "\<forall>q. q \<in># add_mset p Ms \<longrightarrow> page_refcount st q < usize_mod"
    using assms by (rule pages_ownE) blast
  have p: "(p, 0) \<in> U" using U by simp
  show ?thesis
  proof (cases "page_refcount st p = 1")
    case True
    obtain st' G' where st': "page_drop st p = Inr st'" "page_inv st' H G' A M (U - {(p, 0)})"
      and refs: "\<forall>q. page_refcount st' q = page_refcount st q" and r: "client_rest st' = client_rest st"
      by (rule drop_last_single [OF i(1) p True])
    have "p \<notin># Ms" using c [rule_format, of p] True by (simp add: not_in_iff)
    have "pages_own st' Ms"
    proof (rule pages_ownI [OF st'(2)])
      show "pc_batch st' = BATCH_SIZE" using r i(2) by (simp add: client_rest_def)
      fix q assume q: "q \<in># Ms"
      show "(q, 0) \<in> U - {(p, 0)}" using U q \<open>p \<notin># Ms\<close> by auto
      show "count Ms q \<le> page_refcount st' q" using c [rule_format, of q] refs q \<open>p \<notin># Ms\<close> by (auto split: if_splits)
      show "page_refcount st' q < usize_mod" using l [rule_format, of q] refs q by simp
    qed
    with st'(1) r refs show ?thesis by blast
  next
    case False
    let ?c = "page_refcount st p - 1"
    have pos: "0 < page_refcount st p" by (rule pi_ref [OF i(1) p])
    with False have c0: "0 < ?c" by simp
    have "page_drop st p = Inr (set_refcount p ?c st)"
      using False pos l [rule_format, of p] by (simp add: page_drop_def Let_def usub_eq)
    moreover have "pages_own (set_refcount p ?c st) Ms"
    proof (rule pages_ownI [OF page_inv_set_refcount(2) [OF i(1) p c0]])
      fix q assume q: "q \<in># Ms"
      show "(q, 0) \<in> U" using U q by simp
      show "count Ms q \<le> page_refcount (set_refcount p ?c st) q" using c [rule_format, of q] by (cases "q = p") auto
      show "page_refcount (set_refcount p ?c st) q < usize_mod" using l [rule_format, of q] q by (cases "q = p") auto
    qed (use i(2) in simp)
    ultimately show ?thesis by auto
  qed
qed

interpretation pown: page_owner pages_own page_from_raw_in page_drop page_clone page_refcount
  by unfold_locales
    (auto intro: pages_own_from_raw pages_own_clone pages_own_sub simp: page_clone_refs dest: pages_own_drop)

text \<open>Allocation of a single page: the new reference is to a page that was not owned.\<close>

lemma pages_own_alloc:
  assumes "pages_own st Ms" and "page_alloc_order_in st 0 = Inr (st', p)"
  shows "p \<notin># Ms" "pages_own st' (add_mset p Ms)" "page_refcount st' p = 1" "client_rest st' = client_rest st"
proof -
  obtain H G A M U where i: "page_inv st H G A M U" "pc_batch st = BATCH_SIZE"
    and U: "\<forall>q. q \<in># Ms \<longrightarrow> (q, 0) \<in> U" and c: "\<forall>q. count Ms q \<le> page_refcount st q"
    and l: "\<forall>q. q \<in># Ms \<longrightarrow> page_refcount st q < usize_mod"
    using assms(1) by (rule pages_ownE) blast
  have "can_alloc G 0"
    using global_alloc_core [OF i, of 0] assms(2)
    by (auto simp: page_alloc_order_in_def split: if_splits)
  then obtain q G' A' where q: "global_alloc_order st 0 = Inr (st', Some q)" "page_inv st' H G' A' M (insert (q, 0) U)"
    "(q, 0) \<notin> U" "page_refcount st' q = 1" "client_rest st' = client_rest st" "q = p"
    and same: "\<forall>r j. (r, j) \<in> U \<longrightarrow> page_refcount st' r = page_refcount st r"
    using global_alloc_core [OF i, of 0] assms(2) by (auto simp: page_alloc_order_in_def)
  show new: "p \<notin># Ms" using U q(3,6) by blast
  show "page_refcount st' p = 1" "client_rest st' = client_rest st" using q by simp_all
  have ne: "r \<noteq> p" "page_refcount st' r = page_refcount st r" if "r \<in># Ms" for r using U that q(3,6) same by auto
  show "pages_own st' (add_mset p Ms)"
  proof (rule pages_ownI [OF q(2)])
    show "pc_batch st' = BATCH_SIZE" using q(5) i(2) by (simp add: client_rest_def)
    fix r assume r: "r \<in># add_mset p Ms"
    show "(r, 0) \<in> insert (q, 0) U" using r U q(6) by auto
    show "count (add_mset p Ms) r \<le> page_refcount st' r"
      using r c [rule_format, of r] ne q(4,6) new by (auto simp: not_in_iff)
    show "page_refcount st' r < usize_mod" using r l [rule_format, of r] ne q(4,6) by (auto simp: usize_mod_def)
  qed
qed

end
