(* ===== verification/Mm_Area.thy ===== *)
theory Mm_Area
  imports Page_Own Page_Table Io
begin

unbundle bit_operations_syntax

text \<open>
  Memory areas: \<open>src/kernel/mem/mm_area.rs\<close>, \<open>src/kernel/mem/mm_list/mapping.rs\<close> and the
  extension trait \<open>PTEExt\<close> of \<open>src/kernel/mem/mm_list.rs\<close>.

  The state \<open>frames\<close> extends the state of the page allocator with the contents of the frames and
  the frame of the static \<open>EMPTY_PAGE\<close>. A file (\<open>Arc<dyn Inode>\<close>) is a number, and the method
  \<open>page_cache().with_page\<close> of the trait object is the argument \<open>with_page\<close>: it gives the frame of the
  cached page, or nothing behind the end of the file.
\<close>

record permission =
  pm_read :: bool
  pm_write :: bool
  pm_execute :: bool

record file_mapping =
  fm_file :: nat
  fm_offset :: usize
  fm_length :: usize

datatype mapping = Anonymous | FileMap file_mapping

record mm_area =
  ma_range :: addr_range
  ma_mapping :: mapping
  ma_permission :: permission
  ma_shared :: bool

record frames = palloc +
  fr_data :: "nat \<Rightarrow> u8 list"
  fr_empty :: nat

section \<open>Mappings and areas\<close>

definition fm_new :: "nat \<Rightarrow> usize \<Rightarrow> usize \<Rightarrow> file_mapping res" where
  "fm_new file off len = rassert (off AND (PAGE_SIZE - 1) = 0) (Inr \<lparr>fm_file = file, fm_offset = off, fm_length = len\<rparr>)"

definition fm_offset_by :: "file_mapping \<Rightarrow> usize \<Rightarrow> file_mapping res" where
  "fm_offset_by self off =
     (if fm_length self \<le> off then fm_new (fm_file self) (uadd (fm_offset self) (fm_length self)) 0
      else fm_new (fm_file self) (uadd (fm_offset self) off) (fm_length self - off))"

definition ma_new :: "addr_range \<Rightarrow> mapping \<Rightarrow> permission \<Rightarrow> bool \<Rightarrow> mm_area" where
  "ma_new rng m perm shared = \<lparr>ma_range = rng, ma_mapping = m, ma_permission = perm, ma_shared = shared\<rparr>"

definition ma_split :: "mm_area \<Rightarrow> usize \<Rightarrow> (mm_area option \<times> mm_area option) res" where
  "ma_split self at =
     rassert (is_page_aligned at) (
       case range_cmp (ma_range self) (range_from at) of
         Less \<Rightarrow> Inr (Some self, None)
       | Greater \<Rightarrow> Inr (None, Some self)
       | Equal \<Rightarrow>
           let diff = usub at (ar_start (ma_range self))
           in if diff = 0 then Inr (None, Some self)
              else
                rbind (range_new at (ar_end (ma_range self))) (\<lambda>right_range.
                rbind (case ma_mapping self of
                         Anonymous \<Rightarrow> Inr Anonymous
                       | FileMap m \<Rightarrow> rmap FileMap (fm_offset_by m diff)) (\<lambda>right_mapping.
                rbind (range_shrink (ma_range self) (usub (ar_end (ma_range self)) at)) (\<lambda>new_range.
                  Inr (Some (self\<lparr>ma_range := new_range\<rparr>),
                       Some (self\<lparr>ma_range := right_range, ma_mapping := right_mapping\<rparr>))))))"

section \<open>Page faults\<close>

definition page_zeroed :: "frames \<Rightarrow> (frames \<times> nat) res" where
  "page_zeroed st = rbind (page_alloc_order_in st 0) (\<lambda>(st, p).
     Inr (st\<lparr>fr_data := (fr_data st)(p := replicate PAGE_SIZE 0)\<rparr>, p))"

definition attr_put :: "bool \<Rightarrow> u64 \<Rightarrow> u64 \<Rightarrow> u64" where
  "attr_put b f a = (if b then a OR f else without a f)"

text \<open>The copied \<open>page\<close> is dropped at the end of \<open>handle_cow\<close>.\<close>

definition handle_cow :: "mm_area \<Rightarrow> nat \<Rightarrow> u64 \<Rightarrow> frames \<Rightarrow> (frames \<times> nat \<times> u64) res" where
  "handle_cow self pfn attr st =
     rassert (has_flag attr COPY_ON_WRITE) (
       let attr = attr_put (pm_write (ma_permission self)) WRITE (without attr COPY_ON_WRITE)
       in rbind (page_from_raw_in st pfn) (\<lambda>page.
            if page_is_exclusive st page then Inr (st, pfn, attr)
            else
              rbind (if pfn = fr_empty st then page_zeroed st
                     else rbind (page_alloc_order_in st 0) (\<lambda>(st, new_page).
                            Inr (st\<lparr>fr_data := (fr_data st)(new_page := fr_data st page)\<rparr>, new_page)))
                (\<lambda>(st, new_page).
                   rbind (page_drop st page) (\<lambda>st. Inr (st, new_page, without attr ACCESSED)))))"

text \<open>A private copy of the first \<open>cnt\<close> bytes of a cached page.\<close>

definition private_copy :: "nat \<Rightarrow> nat \<Rightarrow> frames \<Rightarrow> (frames \<times> nat) res" where
  "private_copy page cnt st = rbind (page_zeroed st) (\<lambda>(st, new_page).
     Inr (st\<lparr>fr_data := (fr_data st)(new_page := take cnt (fr_data st page) @ drop cnt (fr_data st new_page))\<rparr>,
          new_page))"

text \<open>The closure that \<open>handle_mmap\<close> hands to \<open>with_page\<close>.\<close>

definition map_cache_page :: "mm_area \<Rightarrow> nat \<Rightarrow> nat \<Rightarrow> bool \<Rightarrow> u64 \<Rightarrow> frames \<Rightarrow> (frames \<times> nat \<times> u64) res" where
  "map_cache_page self page cnt write attr st =
     (if \<not> write then
        if ma_shared self then
          (let st = page_clone st page
           in if pm_write (ma_permission self) then Inr (page_set_flag page PF_DIRTY st, page, attr OR WRITE)
              else Inr (st, page, attr))
        else
          rmap (\<lambda>(st, pfn). (st, pfn, if pm_write (ma_permission self) then attr OR COPY_ON_WRITE else attr))
            (if pm_write (ma_permission self) \<or> cnt < PAGE_SIZE then private_copy page cnt st
             else Inr (page_clone st page, page))
      else
        rmap (\<lambda>(st, pfn). (st, pfn, attr OR WRITE))
          (if ma_shared self then Inr (page_clone (page_set_flag page PF_DIRTY st) page, page)
           else private_copy page cnt st))"

definition handle_mmap ::
  "(nat \<Rightarrow> usize \<Rightarrow> frames \<Rightarrow> frames \<times> nat option res) \<Rightarrow> mm_area \<Rightarrow> nat \<Rightarrow> u64 \<Rightarrow> usize \<Rightarrow> bool \<Rightarrow> frames \<Rightarrow>
   frames \<times> (nat \<times> u64) res" where
  "handle_mmap with_page self pfn attr off write st =
     (case ma_mapping self of
        Anonymous \<Rightarrow> (st, Inl Panic)
      | FileMap m \<Rightarrow>
          if \<not> off < fm_length m then (st, Inl Panic)
          else
            let file_offset = uadd (fm_offset m) off;
                cnt_to_read = min (fm_length m - off) 0x1000
            in case with_page (fm_file m) file_offset st of
                 (st, Inl e) \<Rightarrow> (st, Inl e)
               | (st, Inr None) \<Rightarrow> (st, Inl (Errno EINVAL))
               | (st, Inr (Some page)) \<Rightarrow>
                   (case map_cache_page self page cnt_to_read write attr st of
                      Inl e \<Rightarrow> (st, Inl e)
                    | Inr (st, pfn, attr) \<Rightarrow> (st, Inr (pfn, without (attr OR PRESENT) MAPPED))))"

text \<open>\<open>handle\<close> returns the new entry; on an error the entry stays as it is.\<close>

definition ma_handle ::
  "(nat \<Rightarrow> usize \<Rightarrow> frames \<Rightarrow> frames \<times> nat option res) \<Rightarrow> mm_area \<Rightarrow> u64 \<Rightarrow> usize \<Rightarrow> bool \<Rightarrow> frames \<Rightarrow>
   frames \<times> u64 res" where
  "ma_handle with_page self e off write st =
     (case as_page_attr (pte_attr e) of
        None \<Rightarrow> (st, Inl Panic)
      | Some attr \<Rightarrow>
          (case (if has_flag attr COPY_ON_WRITE then handle_cow self (pte_pfn e) attr st
                 else Inr (st, pte_pfn e, attr)) of
             Inl err \<Rightarrow> (st, Inl err)
           | Inr (st, pfn, attr) \<Rightarrow>
               (case (if has_flag attr MAPPED then handle_mmap with_page self pfn attr off write st
                      else (st, Inr (pfn, attr))) of
                  (st, Inl err) \<Rightarrow> (st, Inl err)
                | (st, Inr (pfn, attr)) \<Rightarrow>
                    let attr = attr OR ACCESSED;
                        attr = (if write then attr OR DIRTY else attr)
                    in (st, rmap (pte_set pfn) (raw_of_page_attr attr)))))"

section \<open>New and copied entries\<close>

definition pte_set_anonymous :: "bool \<Rightarrow> u64 \<Rightarrow> frames \<Rightarrow> (u64 \<times> frames) res" where
  "pte_set_anonymous execute e st =
     (let attr = attr_put execute EXECUTE (PRESENT OR READ OR USER OR COPY_ON_WRITE)
      in rmap (\<lambda>raw. (pte_set (fr_empty st) raw, page_clone st (fr_empty st))) (raw_of_page_attr attr))"

definition pte_set_mapped :: "bool \<Rightarrow> u64 \<Rightarrow> frames \<Rightarrow> (u64 \<times> frames) res" where
  "pte_set_mapped execute e st =
     (let attr = attr_put execute EXECUTE (READ OR USER OR MAPPED)
      in rmap (\<lambda>raw. (pte_set (fr_empty st) raw, page_clone st (fr_empty st))) (raw_of_page_attr attr))"

text \<open>\<open>set_copy_on_write\<close> returns the entry \<open>self\<close> and the entry \<open>from\<close>.\<close>

definition pte_set_copy_on_write :: "u64 \<Rightarrow> u64 \<Rightarrow> frames \<Rightarrow> (u64 \<times> u64 \<times> frames) res" where
  "pte_set_copy_on_write self from st =
     rbind (unwrap (as_page_attr (pte_attr from))) (\<lambda>from_attr.
       if \<not> meets_flag from_attr (PRESENT OR MAPPED) then Inr (self, from, st)
       else
         let from_attr = without from_attr (WRITE OR DIRTY) OR COPY_ON_WRITE
         in rbind (page_from_raw_in st (pte_pfn from)) (\<lambda>page.
            rbind (raw_of_page_attr (without from_attr ACCESSED)) (\<lambda>to_raw.
            rbind (raw_of_page_attr from_attr) (\<lambda>from_raw.
              Inr (pte_set page to_raw, pte_set_attr from_raw from, page_clone st page)))))"

section \<open>Attributes as sets of bits\<close>

lemma flag_bits:
  "bit PRESENT n \<longleftrightarrow> n = 0" "bit READ n \<longleftrightarrow> n = 1" "bit WRITE n \<longleftrightarrow> n = 2" "bit EXECUTE n \<longleftrightarrow> n = 3" "bit USER n \<longleftrightarrow> n = 4"
  "bit ACCESSED n \<longleftrightarrow> n = 5" "bit DIRTY n \<longleftrightarrow> n = 6" "bit GLOBAL n \<longleftrightarrow> n = 7" "bit COPY_ON_WRITE n \<longleftrightarrow> n = 8"
  "bit MAPPED n \<longleftrightarrow> n = 9"
  unfolding attr_push_bit by (rule bit_push_one, simp)+

lemma has_flag_bits:
  "has_flag a PRESENT \<longleftrightarrow> bit a 0" "has_flag a READ \<longleftrightarrow> bit a 1" "has_flag a WRITE \<longleftrightarrow> bit a 2"
  "has_flag a EXECUTE \<longleftrightarrow> bit a 3" "has_flag a USER \<longleftrightarrow> bit a 4" "has_flag a ACCESSED \<longleftrightarrow> bit a 5" "has_flag a DIRTY \<longleftrightarrow> bit a 6"
  "has_flag a GLOBAL \<longleftrightarrow> bit a 7" "has_flag a COPY_ON_WRITE \<longleftrightarrow> bit a 8" "has_flag a MAPPED \<longleftrightarrow> bit a 9"
  unfolding attr_push_bit has_flag_bit by simp_all

lemma bit_without: "bit (without a f) n \<longleftrightarrow> bit a n \<and> \<not> bit f n"
  by (auto simp: without_def bit_and_iff bit_not_iff dest: bit_imp_possible_bit)

lemma bit_attr_put: "bit (attr_put b f a) n \<longleftrightarrow> (if bit f n then b else bit a n)"
  by (auto simp: attr_put_def bit_or_iff bit_without)

lemma meets_flag_bits: "meets_flag a f \<longleftrightarrow> (\<exists>n. bit a n \<and> bit f n)"
  by (auto simp: meets_flag_def bit_eq_iff bit_and_iff dest: bit_imp_le_length)

lemmas attr_bits = flag_bits has_flag_bits bit_without bit_attr_put bit_or_iff

lemma attr_ok_bits: "attr_ok a \<longleftrightarrow> (\<forall>n. bit a n \<longrightarrow> n < 10) \<and> (bit a 0 \<longrightarrow> bit a 1 \<or> bit a 2 \<or> bit a 3)"
proof -
  have "a AND NOT 0x3FF = 0 \<longleftrightarrow> (\<forall>n. bit a n \<longrightarrow> n < 10)"
    using bit_imp_le_length [of a] unfolding bit_eq_iff bit_and_iff bit_not_iff bit_low_mask bit_0_eq
    by (auto dest: bit_imp_possible_bit) fastforce?
  then show ?thesis by (simp add: attr_ok_def has_flag_bits)
qed

lemma pte_pfn_less: "pte_pfn e < 2 ^ 54"
proof -
  have "unat (drop_bit 10 e) = drop_bit 10 (unat e)" by (simp add: unat_drop_bit_eq)
  moreover have "unat e < 2 ^ LENGTH(64)" by (rule unsigned_less)
  ultimately show ?thesis by (simp add: pte_pfn_def PA_SHIFT_def drop_bit_eq_div)
qed

lemma as_page_attr_ok:
  assumes "as_page_attr raw = Some a"
  shows "attr_ok a"
proof -
  have eq: "\<not> c \<and> x = d" if "(if c then None else Some d) = Some x" for c and d x :: u64
    using that by (cases c) simp_all
  note main = eq [OF assms [unfolded as_page_attr_def]]
  note n = conjunct1 [OF main] and a = conjunct2 [OF main]
  have b: "bit a n \<longleftrightarrow> n = 0 \<and> raw AND PA_V \<noteq> 0 \<or> n = 1 \<and> raw AND PA_R \<noteq> 0 \<or> n = 2 \<and> raw AND PA_W \<noteq> 0 \<or>
      n = 3 \<and> raw AND PA_X \<noteq> 0 \<or> n = 4 \<and> raw AND PA_U \<noteq> 0 \<or> n = 5 \<and> raw AND PA_A \<noteq> 0 \<or> n = 6 \<and> raw AND PA_D \<noteq> 0 \<or>
      n = 7 \<and> raw AND PA_G \<noteq> 0 \<or> n = 8 \<and> raw AND PA_COW \<noteq> 0 \<or> n = 9 \<and> raw AND PA_MMAP \<noteq> 0" for n
    unfolding a bit_or_iff bit_bit_if flag_bits by blast
  have "raw AND PA_V \<noteq> 0 \<longrightarrow> raw AND PA_R \<noteq> 0 \<or> raw AND PA_W \<noteq> 0 \<or> raw AND PA_X \<noteq> 0"
    using n unfolding bit.conj_disj_distrib or_eq_0_iff by blast
  then show ?thesis unfolding attr_ok_bits b by auto
qed

text \<open>An entry built from an attribute set gives it back.\<close>

lemma pte_build:
  assumes "p < 2 ^ 54" and "attr_ok a"
  obtains raw where "raw_of_page_attr a = Inr raw" "pte_pfn (pte_set p raw) = p"
    "as_page_attr (pte_attr (pte_set p raw)) = Some a"
  using pte_encode [OF assms] that unfolding pte_get_def by auto

section \<open>Splitting an area\<close>

text \<open>What the kernel keeps of every area with a page in it: the range is a non-empty user range of
  whole pages, and a file mapping is aligned and reaches into the last page.\<close>

definition area_ok :: "mm_area \<Rightarrow> bool" where
  "area_ok x \<longleftrightarrow> ar_start (ma_range x) < ar_end (ma_range x) \<and> 4096 dvd ar_start (ma_range x) \<and>
     4096 dvd ar_end (ma_range x) \<and> ar_end (ma_range x) \<le> USER_SPACE_MEMORY_TOP \<and>
     (case ma_mapping x of Anonymous \<Rightarrow> True
      | FileMap m \<Rightarrow> 4096 dvd fm_offset m \<and> ar_end (ma_range x) - ar_start (ma_range x) < fm_length m + 4096)"

text \<open>What an address of an area means: its permission, whether it is shared, and the file, the place
  in it and the number of bytes left in the mapping.\<close>

definition ma_info :: "mm_area \<Rightarrow> usize \<Rightarrow> permission \<times> bool \<times> (nat \<times> usize \<times> nat) option" where
  "ma_info x a = (ma_permission x, ma_shared x,
     case ma_mapping x of Anonymous \<Rightarrow> None
     | FileMap m \<Rightarrow> Some (fm_file m, uadd (fm_offset m) (a - ar_start (ma_range x)), fm_length m - (a - ar_start (ma_range x))))"

definition ma_mapped :: "mm_area \<Rightarrow> (usize \<times> permission \<times> bool \<times> (nat \<times> usize \<times> nat) option) set" where
  "ma_mapped x = (\<lambda>a. (a, ma_info x a)) ` range_set (ma_range x)"

lemma USER_TOP_less: "USER_SPACE_MEMORY_TOP < usize_mod"
  by (simp add: USER_SPACE_MEMORY_TOP_def usize_mod_def)

lemma area_ok_valid: "area_ok x \<Longrightarrow> valid_range (ma_range x)"
  using USER_TOP_less by (auto simp: area_ok_def valid_range_def)

lemma aligned_and: "n AND (PAGE_SIZE - 1) = 0 \<longleftrightarrow> 4096 dvd n" for n :: nat
proof -
  have "n AND (PAGE_SIZE - 1) = take_bit 12 n" by (simp add: take_bit_eq_mask mask_eq_exp_minus_1)
  then show ?thesis by (simp add: take_bit_eq_mod dvd_eq_mod_eq_0)
qed

lemma dvd_uadd: "4096 dvd a \<Longrightarrow> 4096 dvd b \<Longrightarrow> 4096 dvd uadd a b"
proof -
  assume "4096 dvd a" "4096 dvd b"
  moreover have "(4096 :: nat) dvd usize_mod" by (simp add: usize_mod_def)
  ultimately show ?thesis by (simp add: uadd_def dvd_mod)
qed

lemma dvd_step: "(4096 :: nat) dvd a \<Longrightarrow> 4096 dvd b \<Longrightarrow> a < b \<Longrightarrow> a + 4096 \<le> b"
  by (elim dvdE) (simp add: mult_Suc_right [symmetric] del: mult_Suc_right)

lemma fm_offset_inside:
  assumes "4096 dvd fm_offset m" and "4096 dvd d" and "d < fm_length m"
  shows "fm_offset_by m d = Inr (m\<lparr>fm_offset := uadd (fm_offset m) d, fm_length := fm_length m - d\<rparr>)"
proof -
  have "uadd (fm_offset m) d AND (PAGE_SIZE - 1) = 0" unfolding aligned_and by (rule dvd_uadd [OF assms(1,2)])
  then show ?thesis using assms(3) unfolding fm_offset_by_def fm_new_def by simp
qed

lemma uadd_assoc: "uadd (uadd a b) c = uadd a (b + c)"
  by (simp add: uadd_def mod_simps add.assoc)

text \<open>The two parts of an area that is split at an address inside.\<close>

definition area_left :: "mm_area \<Rightarrow> usize \<Rightarrow> mm_area" where
  "area_left x at = x\<lparr>ma_range := \<lparr>ar_start = ar_start (ma_range x), ar_end = at\<rparr>\<rparr>"

definition area_right :: "mm_area \<Rightarrow> usize \<Rightarrow> mm_area" where
  "area_right x at = x\<lparr>ma_range := \<lparr>ar_start = at, ar_end = ar_end (ma_range x)\<rparr>,
     ma_mapping := (case ma_mapping x of Anonymous \<Rightarrow> Anonymous
       | FileMap m \<Rightarrow> FileMap (m\<lparr>fm_offset := uadd (fm_offset m) (at - ar_start (ma_range x)),
           fm_length := fm_length m - (at - ar_start (ma_range x))\<rparr>))\<rparr>"

lemma area_parts [simp]:
  "ma_range (area_left x at) = \<lparr>ar_start = ar_start (ma_range x), ar_end = at\<rparr>"
  "ma_range (area_right x at) = \<lparr>ar_start = at, ar_end = ar_end (ma_range x)\<rparr>"
  "ma_permission (area_left x at) = ma_permission x" "ma_permission (area_right x at) = ma_permission x"
  "ma_shared (area_left x at) = ma_shared x" "ma_shared (area_right x at) = ma_shared x"
  by (simp_all add: area_left_def area_right_def)

lemma area_right_right:
  "ar_start (ma_range x) \<le> a \<Longrightarrow> a \<le> b \<Longrightarrow> area_right (area_right x a) b = area_right x b"
  by (cases "ma_mapping x") (simp_all add: area_right_def uadd_assoc)

lemma area_left_right:
  "ar_start (ma_range x) \<le> a \<Longrightarrow> a \<le> b \<Longrightarrow> area_left (area_right x a) b = area_right (area_left x b) a"
  by (cases "ma_mapping x") (simp_all add: area_right_def area_left_def)

lemma area_parts_mapped:
  assumes "ar_start (ma_range x) \<le> at" "at \<le> ar_end (ma_range x)"
  shows "ma_mapped (area_left x at) = {(a, i) \<in> ma_mapped x. a < at}"
    and "ma_mapped (area_right x at) = {(a, i) \<in> ma_mapped x. at \<le> a}"
proof -
  have "ma_info (area_left x at) = ma_info x"
    by (cases "ma_mapping x") (simp_all add: ma_info_def area_left_def fun_eq_iff)
  then show "ma_mapped (area_left x at) = {(a, i) \<in> ma_mapped x. a < at}"
    using assms by (auto simp: ma_mapped_def range_set_def)
  have "ma_info (area_right x at) a = ma_info x a" if "at \<le> a" for a
    using that assms by (cases "ma_mapping x") (simp_all add: ma_info_def area_right_def uadd_assoc)
  then show "ma_mapped (area_right x at) = {(a, i) \<in> ma_mapped x. at \<le> a}"
    using assms by (auto simp: ma_mapped_def range_set_def)
qed

lemma area_parts_ok:
  assumes ok: "area_ok x" and at: "ar_start (ma_range x) < at" "at < ar_end (ma_range x)" "4096 dvd at"
  shows "area_ok (area_left x at)" "area_ok (area_right x at)"
proof -
  let ?s = "ar_start (ma_range x)" and ?e = "ar_end (ma_range x)"
  have al: "4096 dvd ?s" "4096 dvd ?e" "4096 dvd at - ?s" "?e \<le> USER_SPACE_MEMORY_TOP"
    using ok at by (auto simp: area_ok_def)
  show "area_ok (area_left x at)" using ok at by (auto simp: area_ok_def area_left_def split: mapping.splits)
  show "area_ok (area_right x at)"
  proof (cases "ma_mapping x")
    case Anonymous
    then show ?thesis using at al by (simp add: area_ok_def area_right_def)
  next
    case (FileMap m)
    then have "4096 dvd fm_offset m" "?e - ?s < fm_length m + 4096" using ok by (auto simp: area_ok_def)
    moreover have "?e - at < fm_length m - (at - ?s) + 4096" using calculation(2) at by linarith
    ultimately show ?thesis using at al FileMap dvd_uadd [of "fm_offset m" "at - ?s"] by (simp add: area_ok_def area_right_def)
  qed
qed

lemma ma_split_inside:
  assumes ok: "area_ok x" and at: "ar_start (ma_range x) < at" "at < ar_end (ma_range x)" "4096 dvd at"
  shows "ma_split x at = Inr (Some (area_left x at), Some (area_right x at))"
proof -
  let ?s = "ar_start (ma_range x)" and ?e = "ar_end (ma_range x)"
  have v: "valid_range (ma_range x)" by (rule area_ok_valid [OF ok])
  have lt: "?e < usize_mod" using v by (simp add: valid_range_def)
  have al: "4096 dvd ?s" "4096 dvd ?e" "4096 dvd at - ?s" using ok at by (auto simp: area_ok_def)
  have fmap: "(case ma_mapping x of Anonymous \<Rightarrow> Inr Anonymous | FileMap m \<Rightarrow> rmap FileMap (fm_offset_by m (at - ?s))) =
      Inr (ma_mapping (area_right x at))"
  proof (cases "ma_mapping x")
    case (FileMap m)
    have "at - ?s + 4096 \<le> ?e - ?s" using dvd_step [OF at(3) al(2) at(2)] at(1) by simp
    then have "at - ?s < fm_length m" "4096 dvd fm_offset m" using ok FileMap by (auto simp: area_ok_def)
    then show ?thesis using FileMap al(3) by (simp add: fm_offset_inside area_right_def)
  qed (simp add: area_right_def)
  have cmp: "range_cmp (ma_range x) (range_from at) = Equal"
    using at by (simp add: range_cmp_point_right [OF v])
  have sub: "usub at ?s = at - ?s" "usub ?e at = ?e - at" using at lt by (simp_all add: usub_eq)
  have shrink: "range_shrink (ma_range x) (?e - at) = Inr \<lparr>ar_start = ?s, ar_end = at\<rparr>"
  proof -
    have "?e - at \<le> ?e - ?s" using at by simp
    then have "?e - at \<le> range_len (ma_range x)" by (simp add: range_len_eq [OF v])
    then show ?thesis using at lt by (simp add: range_shrink_def usub_eq)
  qed
  have "x\<lparr>ma_range := \<lparr>ar_start = at, ar_end = ?e\<rparr>, ma_mapping := ma_mapping (area_right x at)\<rparr> = area_right x at"
    by (simp add: area_right_def)
  then show ?thesis
    using at by (simp add: ma_split_def cmp sub fmap shrink area_left_def Let_def)
qed

section \<open>Copying on write\<close>

lemma client_rest_frames:
  "client_rest st' = client_rest st \<Longrightarrow> fr_data st' = fr_data st \<and> fr_empty st' = fr_empty (st :: frames)"
  by (cases st, cases st') (simp add: client_rest_def)

lemma pages_own_update:
  fixes st :: frames
  assumes "pages_own st Ms"
  shows "pages_own (st\<lparr>fr_data := d\<rparr>) Ms"
proof -
  obtain H G A M U where i: "page_inv st H G A M U" "pc_batch st = BATCH_SIZE" "\<forall>p. p \<in># Ms \<longrightarrow> (p, 0) \<in> U"
    "\<forall>p. count Ms p \<le> page_refcount st p" "\<forall>p. p \<in># Ms \<longrightarrow> page_refcount st p < usize_mod"
    using assms by (rule pages_ownE) blast
  have "page_inv (st\<lparr>fr_data := d\<rparr>) H G A M U"
    by (rule page_inv_cong [OF i(1)]) (simp_all add: page_has_def page_order_def page_refcount_def)
  then show ?thesis by (rule pages_ownI) (use i in \<open>simp_all add: page_refcount_def\<close>)
qed

text \<open>A new page with given contents.\<close>

lemma own_new_page:
  fixes st :: frames
  assumes "pages_own st Ms" and "page_alloc_order_in st 0 = Inr (st1, p)" and "st' = st1\<lparr>fr_data := (fr_data st1)(p := d)\<rparr>"
  shows "p \<notin># Ms" "pages_own st' (add_mset p Ms)" "page_refcount st' p = 1" "fr_data st' = (fr_data st)(p := d)"
    "fr_empty st' = fr_empty st"
  using pages_own_alloc [OF assms(1,2)] client_rest_frames [of st1 st] assms(3)
  by (simp_all add: pages_own_update page_refcount_def)

lemma handle_cow_exclusive:
  assumes "pages_own st (add_mset pfn Ms)" and "has_flag attr COPY_ON_WRITE" and "page_refcount st pfn = 1"
  shows "handle_cow x pfn attr st = Inr (st, pfn, attr_put (pm_write (ma_permission x)) WRITE (without attr COPY_ON_WRITE))"
  using assms pages_own_from_raw [OF assms(1), of pfn] by (simp add: handle_cow_def Let_def page_is_exclusive_def)

lemma handle_cow_copy:
  assumes own: "pages_own st (add_mset pfn Ms)" and cow: "has_flag attr COPY_ON_WRITE" and ne: "page_refcount st pfn \<noteq> 1"
    and al: "page_alloc_order_in st 0 = Inr (st1, p)"
  obtains st' where "handle_cow x pfn attr st = Inr (st', p,
      without (attr_put (pm_write (ma_permission x)) WRITE (without attr COPY_ON_WRITE)) ACCESSED)"
    "p \<notin># add_mset pfn Ms" "pages_own st' (add_mset p Ms)" "page_refcount st' p = 1"
    "fr_data st' = (fr_data st)(p := if pfn = fr_empty st then replicate PAGE_SIZE 0 else fr_data st pfn)"
    "fr_empty st' = fr_empty st"
proof -
  define d where "d = (if pfn = fr_empty st then replicate PAGE_SIZE 0 else fr_data st pfn)"
  define st2 where "st2 = st1\<lparr>fr_data := (fr_data st1)(p := d)\<rparr>"
  note new = own_new_page [OF own al st2_def]
  have same: "fr_data st1 = fr_data st" using client_rest_frames pages_own_alloc(4) [OF own al] by blast
  have copy: "(if pfn = fr_empty st then page_zeroed st
      else rbind (page_alloc_order_in st 0) (\<lambda>(st, new_page).
             Inr (st\<lparr>fr_data := (fr_data st)(new_page := fr_data st pfn)\<rparr>, new_page))) = Inr (st2, p)"
    using al same by (simp add: page_zeroed_def st2_def d_def)
  have "pages_own st2 (add_mset pfn (add_mset p Ms))" using new(2) by (simp add: add_mset_commute)
  then obtain st' where st': "page_drop st2 pfn = Inr st'" "pages_own st' (add_mset p Ms)" "client_rest st' = client_rest st2"
    "\<forall>q. q \<noteq> pfn \<longrightarrow> page_refcount st' q = page_refcount st2 q"
    using pages_own_drop by blast
  have "handle_cow x pfn attr st = Inr (st', p,
      without (attr_put (pm_write (ma_permission x)) WRITE (without attr COPY_ON_WRITE)) ACCESSED)"
    using cow ne pages_own_from_raw [OF own, of pfn] copy st'(1)
    unfolding handle_cow_def Let_def page_is_exclusive_def by (simp add: ne)
  moreover have "page_refcount st' p = 1" using st'(4) new(1,3) by auto
  moreover have "fr_data st' = (fr_data st)(p := d)" "fr_empty st' = fr_empty st"
    using client_rest_frames [OF st'(3)] new(4,5) by simp_all
  ultimately show ?thesis using that new(1) st'(2) unfolding d_def by blast
qed

lemma cow_attr:
  "has_flag (attr_put b WRITE (without a COPY_ON_WRITE)) WRITE = b"
  "\<not> has_flag (attr_put b WRITE (without a COPY_ON_WRITE)) COPY_ON_WRITE"
  "has_flag (without (attr_put b WRITE (without a COPY_ON_WRITE)) ACCESSED) WRITE = b"
  "\<not> has_flag (without (attr_put b WRITE (without a COPY_ON_WRITE)) ACCESSED) COPY_ON_WRITE"
  by (simp_all add: attr_bits)


text \<open>A concrete state: a page is allocated and serves as the empty page.\<close>

definition sample_frames0 :: frames where
  "sample_frames0 = palloc.extend sample_free (frames.fields (\<lambda>_. []) 0)"

lemma sample_frames0_own: "pages_own sample_frames0 {#}"
proof -
  have "page_inv sample_frames0 palloc_heads ((\<lambda>_. [])(AreaHead 2 := [4])) {} (blk (4, 2)) {}"
    by (rule page_inv_cong [OF sample_free_page_inv])
      (simp_all add: sample_frames0_def palloc.defs page_has_def page_order_def page_refcount_def)
  then show ?thesis by (rule pages_ownI) (simp_all add: sample_frames0_def palloc.defs)
qed

lemma sample_frames_alloc: "\<exists>st p. page_alloc_order_in sample_frames0 0 = Inr (st, p)"
proof -
  have i: "page_inv sample_frames0 palloc_heads ((\<lambda>_. [])(AreaHead 2 := [4])) {} (blk (4, 2)) {}"
    by (rule page_inv_cong [OF sample_free_page_inv])
      (simp_all add: sample_frames0_def palloc.defs page_has_def page_order_def page_refcount_def)
  have b: "pc_batch sample_frames0 = BATCH_SIZE" by (simp add: sample_frames0_def palloc.defs)
  have "can_alloc ((\<lambda>_. [])(AreaHead 2 := [4])) 0" by (auto simp: can_alloc_def MAX_ORDER_def)
  then show ?thesis using global_alloc_core [OF i b, of 0] by (auto simp: page_alloc_order_in_def)
qed

lemma sample_frames:
  obtains st :: frames where "pages_own st {#fr_empty st#}" "page_refcount st (fr_empty st) = 1"
proof -
  obtain st p where al: "page_alloc_order_in sample_frames0 0 = Inr (st, p)" using sample_frames_alloc by blast
  note a = pages_own_alloc [OF sample_frames0_own al]
  obtain H G A M U where i: "page_inv st H G A M U" "pc_batch st = BATCH_SIZE" "\<forall>q. q \<in># {#p#} \<longrightarrow> (q, 0) \<in> U"
    "\<forall>q. count {#p#} q \<le> page_refcount st q" "\<forall>q. q \<in># {#p#} \<longrightarrow> page_refcount st q < usize_mod"
    using a(2) by (rule pages_ownE) blast
  let ?st = "st\<lparr>fr_empty := p\<rparr>"
  have "page_inv ?st H G A M U"
    by (rule page_inv_cong [OF i(1)]) (simp_all add: page_has_def page_order_def page_refcount_def)
  then have "pages_own ?st {#p#}" by (rule pages_ownI) (use i in \<open>auto simp: page_refcount_def split: if_splits\<close>)
  moreover have "page_refcount ?st p = 1" using a(3) by (simp add: page_refcount_def)
  ultimately show ?thesis by (intro that [of ?st]) simp_all
qed


end
