(* ===== verification/Mm_List.thy ===== *)
theory Mm_List
  imports Mm_Area Btree
begin

unbundle bit_operations_syntax

text \<open>
  The address space of a process: \<open>src/kernel/mem/mm_list.rs\<close> and
  \<open>src/kernel/mem/mm_list/page_fault.rs\<close>.

  The set of areas is the ordered collection of \<open>Btree\<close>, compared by their ranges. The page table is
  its view as a map from page numbers to entries, on which \<open>iter_user\<close> loops run; the theory
  \<open>Page_Table\<close> shows that loops over the tables refine loops over the view. Each operation runs
  under the lock of the list, so it is one function on the list and the frames.
\<close>

record mm_list =
  ml_areas :: "mm_area list"
  ml_break_start :: "addr_range option"
  ml_break_pos :: "usize option"
  ml_view :: "nat \<Rightarrow> u64"
  ml_user_count :: usize
  ml_active :: bool

definition iter_user ::
  "(u64 \<Rightarrow> 's \<Rightarrow> (u64 \<times> 's) res) \<Rightarrow> addr_range \<Rightarrow> (nat \<Rightarrow> u64) \<Rightarrow> 's \<Rightarrow> ((nat \<Rightarrow> u64) \<times> 's) res" where
  "iter_user body rng v s =
     view_for body (ar_start rng div PAGE_SIZE) (div_ceil (ar_end rng) PAGE_SIZE - ar_start rng div PAGE_SIZE) v s"

section \<open>The set of areas\<close>

definition area_cmp :: "mm_area \<Rightarrow> mm_area \<Rightarrow> ordering" where
  "area_cmp x y = range_cmp (ma_range x) (ma_range y)"

definition key_cmp :: "addr_range \<Rightarrow> mm_area \<Rightarrow> ordering" where
  "key_cmp k x = range_cmp k (ma_range x)"

definition overlapping_addr :: "mm_area list \<Rightarrow> usize \<Rightarrow> mm_area option" where
  "overlapping_addr areas addr = bt_get key_cmp (range_from addr) areas"

definition check_overlapping_addr :: "mm_area list \<Rightarrow> usize \<Rightarrow> bool" where
  "check_overlapping_addr areas addr \<longleftrightarrow> addr_is_user addr \<and> overlapping_addr areas addr = None"

definition overlapping_range :: "mm_area list \<Rightarrow> addr_range \<Rightarrow> mm_area list" where
  "overlapping_range areas rng = bt_range key_cmp (fst (into_bounds rng)) (snd (into_bounds rng)) areas"

definition check_overlapping_range :: "mm_area list \<Rightarrow> addr_range \<Rightarrow> bool" where
  "check_overlapping_range areas rng \<longleftrightarrow> range_is_user rng \<and> overlapping_range areas rng = []"

definition random_start :: usize where "random_start = 0x1234000"

text \<open>The loop of \<open>find_available\<close>; \<open>None\<close> is a loop that does not end.\<close>

partial_function (option) find_loop :: "mm_area list \<Rightarrow> usize \<Rightarrow> addr_range \<Rightarrow> usize option res option" where
  "find_loop areas len rng =
     (if \<not> range_is_user rng then Some (Inr None)
      else if overlapping_range areas rng = [] then Some (Inr (Some (ar_start rng)))
      else
        case range_grow (range_from (page_ceil (ar_end (ma_range (last (overlapping_range areas rng)))))) len of
          Inl e \<Rightarrow> Some (Inl e)
        | Inr rng \<Rightarrow> find_loop areas len rng)"

definition find_available :: "mm_area list \<Rightarrow> usize \<Rightarrow> usize \<Rightarrow> usize option res option" where
  "find_available areas hint len =
     (let len = umul (div_ceil len PAGE_SIZE) PAGE_SIZE;
          hint = (if hint = 0 then random_start else page_floor hint)
      in case range_grow (range_from hint) len of
           Inl e \<Rightarrow> Some (Inl e)
         | Inr rng \<Rightarrow> find_loop areas len rng)"

section \<open>Unmapping\<close>

definition take_page_to_free :: "u64 \<Rightarrow> frames \<Rightarrow> (u64 \<times> nat option) res" where
  "take_page_to_free e st =
     (let ((pfn, raw), e') = pte_take e
      in case as_page_attr raw of
           None \<Rightarrow> Inr (e', None)
         | Some attr \<Rightarrow>
             if \<not> has_flag attr PRESENT \<or> has_flag attr (MAPPED OR GLOBAL) then Inr (e', None)
             else rbind (page_from_raw_in st pfn) (\<lambda>page. Inr (e', Some page)))"

definition unmap_entry :: "bool \<Rightarrow> u64 \<Rightarrow> frames \<times> nat list \<Rightarrow> (u64 \<times> frames \<times> nat list) res" where
  "unmap_entry shared e = (\<lambda>(st, pages_to_free).
     if shared then
       (let ((pfn, raw), e') = pte_take e
        in case as_page_attr raw of
             None \<Rightarrow> Inr (e', st, pages_to_free)
           | Some attr \<Rightarrow>
               if \<not> has_flag attr PRESENT \<or> has_flag attr (MAPPED OR GLOBAL) then Inr (e', st, pages_to_free)
               else rbind (page_from_raw_in st pfn) (\<lambda>page.
                    rbind (page_drop st page) (\<lambda>st. Inr (e', st, pages_to_free))))
     else
       rbind (take_page_to_free e st) (\<lambda>(e', page).
         Inr (e', st, case page of None \<Rightarrow> pages_to_free | Some p \<Rightarrow> pages_to_free @ [p])))"

text \<open>The closure handed to \<open>retain\<close>: whether the area is kept, and the state it changes.\<close>

type_synonym unmap_state = "(nat \<Rightarrow> u64) \<times> (frames \<times> nat list) \<times> mm_area option \<times> mm_area option"

definition unmap_area :: "addr_range \<Rightarrow> mm_area \<Rightarrow> unmap_state \<Rightarrow> (bool \<times> unmap_state) res" where
  "unmap_area range_to_unmap area = (\<lambda>(v, s, left_remaining, right_remaining).
     rbind (mask_with_checked (ma_range area) range_to_unmap) (\<lambda>masked.
       case masked of
         None \<Rightarrow> Inr (True, v, s, left_remaining, right_remaining)
       | Some (left, mid, right) \<Rightarrow>
           rbind (iter_user (unmap_entry (ma_shared area)) mid v s) (\<lambda>(v, s).
             case (left, right) of
               (None, None) \<Rightarrow> Inr (False, v, s, left_remaining, right_remaining)
             | (Some left, None) \<Rightarrow>
                 rassert (left_remaining = None) (
                 rbind (ma_split area (ar_end left)) (\<lambda>(l, _).
                 rbind (unwrap l) (\<lambda>l. Inr (False, v, s, Some l, right_remaining))))
             | (None, Some right) \<Rightarrow>
                 rassert (right_remaining = None) (
                 rbind (ma_split area (ar_start right)) (\<lambda>(_, r).
                 rbind (unwrap r) (\<lambda>r. Inr (False, v, s, left_remaining, Some r))))
             | (Some left, Some right) \<Rightarrow>
                 rassert (left_remaining = None) (
                 rassert (right_remaining = None) (
                 rbind (ma_split area (ar_end left)) (\<lambda>(l, m).
                 rbind (unwrap l) (\<lambda>l.
                 rbind (unwrap m) (\<lambda>m.
                 rbind (ma_split m (ar_start right)) (\<lambda>(_, r).
                 rbind (unwrap r) (\<lambda>r. Inr (False, v, s, Some l, Some r)))))))))))"

fun unmap_retain :: "addr_range \<Rightarrow> mm_area list \<Rightarrow> unmap_state \<Rightarrow> (mm_area list \<times> unmap_state) res" where
  "unmap_retain rng [] s = Inr ([], s)"
| "unmap_retain rng (x # xs) s =
     rbind (unmap_area rng x s) (\<lambda>(keep, s).
     rbind (unmap_retain rng xs s) (\<lambda>(ys, s). Inr (if keep then x # ys else ys, s)))"

definition insert_remaining :: "mm_area option \<Rightarrow> mm_area list \<Rightarrow> mm_area list" where
  "insert_remaining r areas = (case r of None \<Rightarrow> areas | Some x \<Rightarrow> bt_insert area_cmp x areas)"

definition inner_unmap :: "usize \<Rightarrow> usize \<Rightarrow> mm_list \<Rightarrow> frames \<Rightarrow> (mm_list \<times> frames \<times> nat list) res" where
  "inner_unmap start len mm st =
     rassert (page_floor start = start) (
     rbind (range_new start (page_ceil (uadd start len))) (\<lambda>range_to_unmap.
       if \<not> range_is_user range_to_unmap then Inl (Errno EINVAL)
       else
         rbind (unmap_retain range_to_unmap (ml_areas mm) (ml_view mm, (st, []), None, None))
           (\<lambda>(areas, v, (st, pages_to_free), left_remaining, right_remaining).
              Inr (mm\<lparr>ml_areas := insert_remaining right_remaining (insert_remaining left_remaining areas), ml_view := v\<rparr>,
                   st, pages_to_free))))"

text \<open>\<open>flush_user_tlbs\<close>: a flush on other processors is \<open>todo!()\<close>.\<close>

definition flush_user_tlbs :: "mm_list \<Rightarrow> unit res" where
  "flush_user_tlbs mm =
     (if ml_user_count mm = 0 then Inr ()
      else if ml_user_count mm = 1 then rassert (ml_active mm) (Inr ())
      else Inl Panic)"

definition mm_unmap :: "usize \<Rightarrow> usize \<Rightarrow> mm_list \<Rightarrow> frames \<Rightarrow> (mm_list \<times> frames) res" where
  "mm_unmap start len mm st =
     rbind (inner_unmap start len mm st) (\<lambda>(mm, st, pages_to_free).
     rbind (flush_user_tlbs mm) (\<lambda>_.
     rbind (drop_pages page_drop st pages_to_free) (\<lambda>st. Inr (mm, st))))"

section \<open>Protecting\<close>

definition protect_entry :: "permission \<Rightarrow> u64 \<Rightarrow> unit \<Rightarrow> (u64 \<times> unit) res" where
  "protect_entry perm e u =
     rbind (unwrap (as_page_attr (pte_attr e))) (\<lambda>page_attr.
       if \<not> pm_read perm \<and> \<not> pm_write perm \<and> \<not> pm_execute perm then
         rmap (\<lambda>raw. (pte_set_attr raw e, u)) (raw_of_page_attr (without page_attr (PRESENT OR READ OR WRITE OR EXECUTE)))
       else
         let page_attr = attr_put (pm_read perm) READ page_attr;
             page_attr = (if \<not> has_flag page_attr COPY_ON_WRITE then attr_put (pm_write perm) WRITE page_attr else page_attr);
             page_attr = attr_put (pm_execute perm) EXECUTE page_attr
         in rmap (\<lambda>raw. (pte_set_attr raw e, u)) (raw_of_page_attr page_attr))"

text \<open>One round of the loop over the old areas.\<close>

definition protect_area ::
  "addr_range \<Rightarrow> permission \<Rightarrow> mm_area \<Rightarrow> mm_area list \<times> (nat \<Rightarrow> u64) \<times> bool \<Rightarrow> (mm_area list \<times> (nat \<Rightarrow> u64) \<times> bool) res" where
  "protect_area range_to_protect perm area = (\<lambda>(areas, v, found).
     rbind (mask_with_checked (ma_range area) range_to_protect) (\<lambda>masked.
       case masked of
         None \<Rightarrow> Inr (bt_insert area_cmp area areas, v, found)
       | Some (left, mid, right) \<Rightarrow>
           rbind (case left of
                    None \<Rightarrow> Inr (areas, area)
                  | Some left \<Rightarrow>
                      rbind (ma_split area (ar_end left)) (\<lambda>(l, r).
                      rbind (unwrap l) (\<lambda>l. rbind (unwrap r) (\<lambda>r. Inr (bt_insert area_cmp l areas, r)))))
             (\<lambda>(areas, area).
           rbind (case right of
                    None \<Rightarrow> Inr (areas, area)
                  | Some right \<Rightarrow>
                      rbind (ma_split area (ar_start right)) (\<lambda>(l, r).
                      rbind (unwrap l) (\<lambda>l. rbind (unwrap r) (\<lambda>r. Inr (bt_insert area_cmp r areas, l)))))
             (\<lambda>(areas, area).
           rbind (iter_user (protect_entry perm) mid v ()) (\<lambda>(v, _).
             Inr (bt_insert area_cmp (area\<lparr>ma_permission := perm\<rparr>) areas, v, True))))))"

fun protect_areas ::
  "addr_range \<Rightarrow> permission \<Rightarrow> mm_area list \<Rightarrow> mm_area list \<times> (nat \<Rightarrow> u64) \<times> bool \<Rightarrow> (mm_area list \<times> (nat \<Rightarrow> u64) \<times> bool) res" where
  "protect_areas rng perm [] s = Inr s"
| "protect_areas rng perm (x # xs) s = rbind (protect_area rng perm x s) (protect_areas rng perm xs)"

definition inner_protect :: "usize \<Rightarrow> usize \<Rightarrow> permission \<Rightarrow> mm_list \<Rightarrow> mm_list res" where
  "inner_protect start len perm mm =
     rassert (page_floor start = start) (
     rassert (len \<noteq> 0) (
     rbind (range_new start (page_ceil (uadd start len))) (\<lambda>range_to_protect.
       if \<not> range_is_user range_to_protect then Inl (Errno EINVAL)
       else
         rbind (protect_areas range_to_protect perm (ml_areas mm) ([], ml_view mm, False)) (\<lambda>(areas, v, found).
           if \<not> found then Inl (Errno ENOMEM)
           else Inr (mm\<lparr>ml_areas := areas, ml_view := v\<rparr>)))))"

definition mm_protect :: "usize \<Rightarrow> usize \<Rightarrow> permission \<Rightarrow> mm_list \<Rightarrow> mm_list res" where
  "mm_protect start len perm mm =
     rbind (inner_protect start len perm mm) (\<lambda>mm. rbind (flush_user_tlbs mm) (\<lambda>_. Inr mm))"

section \<open>Mapping\<close>

definition set_anonymous :: "addr_range \<Rightarrow> permission \<Rightarrow> (nat \<Rightarrow> u64) \<Rightarrow> frames \<Rightarrow> ((nat \<Rightarrow> u64) \<times> frames) res" where
  "set_anonymous rng perm = iter_user (pte_set_anonymous (pm_execute perm)) rng"

definition set_mmapped :: "addr_range \<Rightarrow> permission \<Rightarrow> (nat \<Rightarrow> u64) \<Rightarrow> frames \<Rightarrow> ((nat \<Rightarrow> u64) \<times> frames) res" where
  "set_mmapped rng perm = iter_user (pte_set_mapped (pm_execute perm)) rng"

definition inner_mmap ::
  "usize \<Rightarrow> usize \<Rightarrow> mapping \<Rightarrow> permission \<Rightarrow> bool \<Rightarrow> mm_list \<Rightarrow> frames \<Rightarrow> (mm_list \<times> frames) res" where
  "inner_mmap at len m perm shared mm st =
     rassert (page_floor at = at) (
     rassert (len AND (PAGE_SIZE - 1) = 0) (
     rbind (range_new at (uadd at len)) (\<lambda>rng.
       if len = 0 \<and> \<not> check_overlapping_addr (ml_areas mm) at \<or> \<not> check_overlapping_range (ml_areas mm) rng
       then Inl (Errno EEXIST)
       else
         rbind (case m of
                  Anonymous \<Rightarrow> set_anonymous rng perm (ml_view mm) st
                | FileMap _ \<Rightarrow> set_mmapped rng perm (ml_view mm) st) (\<lambda>(v, st).
           Inr (mm\<lparr>ml_areas := bt_insert area_cmp (ma_new rng m perm shared) (ml_areas mm), ml_view := v\<rparr>, st)))))"

definition mmap_fixed ::
  "usize \<Rightarrow> usize \<Rightarrow> mapping \<Rightarrow> permission \<Rightarrow> bool \<Rightarrow> mm_list \<Rightarrow> frames \<Rightarrow> (mm_list \<times> frames \<times> usize) res" where
  "mmap_fixed at len m perm shared mm st = rmap (\<lambda>(mm, st). (mm, st, at)) (inner_mmap at len m perm shared mm st)"

definition mmap_available ::
  "usize \<Rightarrow> usize \<Rightarrow> mapping \<Rightarrow> permission \<Rightarrow> bool \<Rightarrow> mm_list \<Rightarrow> frames \<Rightarrow> (mm_list \<times> frames \<times> usize) res option" where
  "mmap_available hint len m perm shared mm st =
     map_option (\<lambda>r. rbind r (\<lambda>at. rbind (ok_or at ENOMEM) (\<lambda>at. mmap_fixed at len m perm shared mm st)))
       (find_available (ml_areas mm) hint len)"

definition mmap_hint ::
  "usize \<Rightarrow> usize \<Rightarrow> mapping \<Rightarrow> permission \<Rightarrow> bool \<Rightarrow> mm_list \<Rightarrow> frames \<Rightarrow> (mm_list \<times> frames \<times> usize) res option" where
  "mmap_hint hint len m perm shared mm st =
     (if hint = 0 then mmap_available hint len m perm shared mm st
      else
        case inner_mmap hint len m perm shared mm st of
          Inr (mm, st) \<Rightarrow> Some (Inr (mm, st, hint))
        | Inl e \<Rightarrow> if e = Errno EEXIST then mmap_available hint len m perm shared mm st else Some (Inl e))"

section \<open>The program break\<close>

definition set_break :: "usize option \<Rightarrow> mm_list \<Rightarrow> frames \<Rightarrow> (mm_list \<times> frames \<times> usize) res" where
  "set_break pos mm st =
     rassert (ml_break_start mm \<noteq> None \<and> ml_break_pos mm \<noteq> None) (
     rbind (unwrap (ml_break_pos mm)) (\<lambda>current_break.
       case pos of
         None \<Rightarrow> Inr (mm, st, current_break)
       | Some pos \<Rightarrow>
           let pos = page_ceil pos
           in if current_break > pos then Inr (mm, st, current_break)
              else
                rbind (range_new current_break pos) (\<lambda>rng.
                  if \<not> check_overlapping_range (ml_areas mm) rng then Inr (mm, st, current_break)
                  else
                    case mmap_fixed current_break (usub pos current_break) Anonymous
                           \<lparr>pm_read = True, pm_write = True, pm_execute = False\<rparr> False (mm\<lparr>ml_break_pos := Some pos\<rparr>) st of
                      Inl e \<Rightarrow> Inl Panic
                    | Inr (mm, st, _) \<Rightarrow> Inr (mm, st, pos))))"

definition register_break :: "usize \<Rightarrow> mm_list \<Rightarrow> mm_list res" where
  "register_break start mm =
     rassert (ml_break_start mm = None \<and> ml_break_pos mm = None) (
       Inr (mm\<lparr>ml_break_start := Some (range_from start), ml_break_pos := Some start\<rparr>))"

section \<open>Loops over entries\<close>

lemma view_for_rule:
  assumes "P 0 s"
    and "\<And>k s. k < n \<Longrightarrow> P k s \<Longrightarrow> \<exists>s'. body (v (vpn + k)) s = Inr (f (v (vpn + k)), s') \<and> P (Suc k) s'"
  shows "\<exists>s'. view_for body vpn n v s = Inr ((\<lambda>u. if vpn \<le> u \<and> u < vpn + n then f (v u) else v u), s') \<and> P n s'"
  using assms
proof (induction n arbitrary: vpn v s P)
  case 0
  have "(\<lambda>u. if vpn \<le> u \<and> u < vpn + 0 then f (v u) else v u) = v" by (rule ext) auto
  with 0 show ?case by simp
next
  case (Suc n)
  obtain s1 where s1: "body (v vpn) s = Inr (f (v vpn), s1)" "P (Suc 0) s1"
    using Suc.prems(2) [of 0 s] Suc.prems(1) by auto
  let ?v = "v(vpn := f (v vpn))"
  have "\<exists>s'. view_for body (Suc vpn) n ?v s1 =
      Inr ((\<lambda>u. if Suc vpn \<le> u \<and> u < Suc vpn + n then f (?v u) else ?v u), s') \<and> P (Suc n) s'"
    by (rule Suc.IH [of "\<lambda>k. P (Suc k)"]) (use s1 Suc.prems(2) [of "Suc _"] in auto)
  moreover have "(\<lambda>u. if Suc vpn \<le> u \<and> u < Suc vpn + n then f (?v u) else ?v u) =
      (\<lambda>u. if vpn \<le> u \<and> u < vpn + Suc n then f (v u) else v u)"
    by (rule ext) auto
  ultimately show ?case using s1(1) by simp
qed

text \<open>The pages of a range.\<close>

definition pages_of :: "addr_range \<Rightarrow> nat list" where
  "pages_of r = [ar_start r div 4096..<ar_end r div 4096]"

lemma iter_user_rule:
  assumes "4096 dvd ar_end rng" and "P 0 s"
    and "\<And>k s. k < length (pages_of rng) \<Longrightarrow> P k s \<Longrightarrow>
      \<exists>s'. body (v (pages_of rng ! k)) s = Inr (f (v (pages_of rng ! k)), s') \<and> P (Suc k) s'"
  shows "\<exists>s'. iter_user body rng v s = Inr ((\<lambda>u. if u \<in> set (pages_of rng) then f (v u) else v u), s') \<and>
    P (length (pages_of rng)) s'"
proof -
  let ?vpn = "ar_start rng div 4096" and ?n = "ar_end rng div 4096 - ar_start rng div 4096"
  have "div_ceil (ar_end rng) PAGE_SIZE = ar_end rng div 4096"
    using assms(1) by (simp add: div_ceil_def dvd_eq_mod_eq_0)
  then have it: "iter_user body rng v s = view_for body ?vpn ?n v s" by (simp add: iter_user_def)
  have "\<exists>s'. view_for body ?vpn ?n v s = Inr ((\<lambda>u. if ?vpn \<le> u \<and> u < ?vpn + ?n then f (v u) else v u), s') \<and> P ?n s'"
    by (rule view_for_rule) (use assms(2,3) in \<open>auto simp: pages_of_def\<close>)
  moreover have "(\<lambda>u. if ?vpn \<le> u \<and> u < ?vpn + ?n then f (v u) else v u) =
      (\<lambda>u. if u \<in> set (pages_of rng) then f (v u) else v u)"
    by (rule ext) (auto simp: pages_of_def)
  ultimately show ?thesis unfolding it by (simp add: pages_of_def)
qed

text \<open>The references to pages that entries hold and that unmapping gives up.\<close>

definition pte_owns :: "u64 \<Rightarrow> bool" where
  "pte_owns e = (case as_page_attr (pte_attr e) of None \<Rightarrow> False
     | Some attr \<Rightarrow> has_flag attr PRESENT \<and> \<not> has_flag attr (MAPPED OR GLOBAL))"

definition owned :: "(nat \<Rightarrow> u64) \<Rightarrow> nat list \<Rightarrow> nat list" where
  "owned v us = map (\<lambda>u. pte_pfn (v u)) (filter (\<lambda>u. pte_owns (v u)) us)"

lemma owned_simps [simp]:
  "owned v [] = []" "owned v (u # us) = (if pte_owns (v u) then pte_pfn (v u) # owned v us else owned v us)"
  "owned v (us @ ws) = owned v us @ owned v ws"
  by (simp_all add: owned_def)

lemma owned_cong: "(\<And>u. u \<in> set us \<Longrightarrow> v u = w u) \<Longrightarrow> owned v us = owned w us"
  by (induction us) auto

lemma pte_set_zero [simp]: "pte_set 0 0 = 0"
  by (simp add: pte_set_def)

lemma take_page_to_free_eq:
  assumes "pages_own st M" and "pte_owns e \<Longrightarrow> pte_pfn e \<in># M"
  shows "take_page_to_free e st = Inr (0, if pte_owns e then Some (pte_pfn e) else None)"
  using assms pages_own_from_raw [OF assms(1), of "pte_pfn e"]
  by (auto simp: take_page_to_free_def pte_take_def pte_get_def pte_owns_def split: option.splits if_splits)

lemma unmap_entry_step:
  assumes "pages_own st (mset pages + mset (owned v [u]) + M)"
  shows "\<exists>st' pages'. unmap_entry shared (v u) (st, pages) = Inr (0, st', pages') \<and> pages_own st' (mset pages' + M)"
proof (cases "pte_owns (v u)")
  case False
  then have "unmap_entry shared (v u) (st, pages) = Inr (0, st, pages)"
    using take_page_to_free_eq [OF assms, of "v u"]
    by (auto simp: unmap_entry_def pte_take_def pte_get_def pte_owns_def split: option.splits)
  with False assms show ?thesis by simp
next
  case True
  let ?p = "pte_pfn (v u)"
  have own: "pages_own st (add_mset ?p (mset pages + M))" using True assms by simp
  note raw = pages_own_from_raw [OF own, of ?p]
  show ?thesis
  proof (cases shared)
    case sh: True
    obtain st' where "page_drop st ?p = Inr st'" "pages_own st' (mset pages + M)" using pages_own_drop [OF own] by blast
    moreover have "unmap_entry shared (v u) (st, pages) = rbind (page_drop st ?p) (\<lambda>st. Inr (0, st, pages))"
      using True sh raw by (auto simp: unmap_entry_def pte_take_def pte_get_def pte_owns_def split: option.splits)
    ultimately show ?thesis by auto
  next
    case sh: False
    have "unmap_entry shared (v u) (st, pages) = Inr (0, st, pages @ [?p])"
      using True sh take_page_to_free_eq [OF own, of "v u"] by (simp add: unmap_entry_def)
    then show ?thesis using own by simp
  qed
qed

lemma unmap_entries:
  assumes "4096 dvd ar_end rng" and "pages_own st (mset pages + mset (owned v (pages_of rng)) + M)"
  shows "\<exists>st' pages'. iter_user (unmap_entry shared) rng v (st, pages) =
      Inr ((\<lambda>u. if u \<in> set (pages_of rng) then 0 else v u), st', pages') \<and> pages_own st' (mset pages' + M)"
proof -
  let ?us = "pages_of rng"
  define P where "P k s = (case s of (st, pages) \<Rightarrow> pages_own st (mset pages + mset (owned v (drop k ?us)) + M))" for k and s :: "frames \<times> nat list"
  have "\<exists>s'. iter_user (unmap_entry shared) rng v (st, pages) =
      Inr ((\<lambda>u. if u \<in> set ?us then 0 else v u), s') \<and> P (length ?us) s'"
  proof (rule iter_user_rule [OF assms(1)])
    show "P 0 (st, pages)" using assms(2) by (simp add: P_def)
  next
    fix k s
    assume k: "k < length ?us" and P: "P k s"
    obtain st pages where s: "s = (st, pages)" by fastforce
    have "drop k ?us = ?us ! k # drop (Suc k) ?us" using k by (simp add: Cons_nth_drop_Suc)
    then have "pages_own st (mset pages + mset (owned v [?us ! k]) + (mset (owned v (drop (Suc k) ?us)) + M))"
      using P s by (auto simp: P_def ac_simps)
    from unmap_entry_step [OF this, of shared]
    show "\<exists>s'. unmap_entry shared (v (?us ! k)) s = Inr (0, s') \<and> P (Suc k) s'"
      by (auto simp: s P_def ac_simps)
  qed
  then show ?thesis by (auto simp: P_def)
qed

section \<open>The invariant of the areas\<close>

definition area_before :: "mm_area \<Rightarrow> mm_area \<Rightarrow> bool" where
  "area_before x y \<longleftrightarrow> range_before (ma_range x) (ma_range y)"

definition areas_ok :: "mm_area list \<Rightarrow> bool" where
  "areas_ok areas \<longleftrightarrow> sorted_wrt area_before areas \<and> (\<forall>x\<in>set areas. area_ok x)"

text \<open>What the address space means to the process: which addresses are mapped, and to what.\<close>

definition mapped :: "mm_area list \<Rightarrow> (usize \<times> permission \<times> bool \<times> (nat \<times> usize \<times> nat) option) set" where
  "mapped areas = (\<Union>x\<in>set areas. ma_mapped x)"

definition overlaps :: "addr_range \<Rightarrow> mm_area \<Rightarrow> bool" where
  "overlaps rng x \<longleftrightarrow> overlap_with (ma_range x) rng"

definition meet :: "addr_range \<Rightarrow> mm_area \<Rightarrow> addr_range" where
  "meet rng x = \<lparr>ar_start = max (ar_start (ma_range x)) (ar_start rng), ar_end = min (ar_end (ma_range x)) (ar_end rng)\<rparr>"

definition pages_in :: "mm_area list \<Rightarrow> addr_range \<Rightarrow> nat list" where
  "pages_in areas rng = concat (map (\<lambda>x. pages_of (meet rng x)) (filter (overlaps rng) areas))"

lemma pages_in_simps [simp]:
  "pages_in [] rng = []"
  "pages_in (x # xs) rng = (if overlaps rng x then pages_of (meet rng x) @ pages_in xs rng else pages_in xs rng)"
  by (simp_all add: pages_in_def)

lemma area_before_trans: "area_before x y \<Longrightarrow> area_before y z \<Longrightarrow> area_before x z"
  unfolding area_before_def by (rule range_before_trans)

lemma area_before_cmp: "area_before x y \<Longrightarrow> area_cmp y x = Greater \<and> area_cmp x y = Less"
  using range_before_cmp by (auto simp: area_before_def area_cmp_def)

lemma areas_order:
  assumes "areas_ok areas" and "x \<in> set areas" and "y \<in> set areas" and "x \<noteq> y"
  shows "area_before x y \<or> area_before y x"
proof -
  have "sorted_wrt area_before zs \<Longrightarrow> x \<in> set zs \<Longrightarrow> y \<in> set zs \<Longrightarrow> area_before x y \<or> area_before y x" for zs
    using assms(4) by (induction zs) auto
  then show ?thesis using assms by (auto simp: areas_ok_def)
qed

text \<open>Inserting an area that lies between the others.\<close>

lemma insert_area_ok:
  assumes "areas_ok areas" and "area_ok x" and "\<forall>y\<in>set areas. area_before y x \<or> area_before x y"
  shows "areas_ok (bt_insert area_cmp x areas)" "set (bt_insert area_cmp x areas) = insert x (set areas)"
proof -
  have "\<forall>y\<in>set areas. (area_before y x \<and> area_cmp x y = Greater) \<or> (area_before x y \<and> area_cmp x y = Less)"
    using assms(3) area_before_cmp by blast
  from bt_insert_sorted [where before = area_before and cmp = area_cmp, OF _ area_before_trans this] assms(1,2)
  show "areas_ok (bt_insert area_cmp x areas)" "set (bt_insert area_cmp x areas) = insert x (set areas)"
    by (auto simp: areas_ok_def)
qed

text \<open>A search by address is exact, because the areas are ordered by their ranges.\<close>

definition point_cmp :: "usize \<Rightarrow> mm_area \<Rightarrow> ordering" where
  "point_cmp a x = key_cmp (range_from a) x"

lemma point_cmp_eq:
  "area_ok x \<Longrightarrow> point_cmp a x = (if a < ar_start (ma_range x) then Less else if a < ar_end (ma_range x) then Equal else Greater)"
  using range_cmp_point [OF area_ok_valid, of x a] by (auto simp: point_cmp_def key_cmp_def area_ok_def)

interpretation areas: search_order point_cmp area_before
proof
  fix x y k
  assume "area_before x y" "point_cmp k x \<noteq> Greater"
  then show "point_cmp k y = Less"
    using range_cmp_point [of "ma_range x" k] range_cmp_point [of "ma_range y" k]
    by (auto simp: area_before_def range_before_def point_cmp_def key_cmp_def split: if_splits)
qed

lemma bt_get_point: "bt_get key_cmp (range_from a) areas = bt_get point_cmp a areas"
  by (induction areas) (auto simp: point_cmp_def split: ordering.splits)

lemma bt_range_point:
  "bt_range key_cmp (range_from a) (range_from b) areas = bt_range point_cmp a b areas"
proof -
  have "bt_upto key_cmp (range_from b) xs = bt_upto point_cmp b xs" for xs
    by (induction xs) (auto simp: point_cmp_def split: ordering.splits)
  moreover have "bt_from key_cmp (range_from a) xs = bt_from point_cmp a xs" for xs
    by (induction xs) (auto simp: point_cmp_def)
  ultimately show ?thesis by (simp add: bt_range_def)
qed

lemma overlapping_addr_iff:
  assumes "areas_ok areas"
  shows "overlapping_addr areas a = Some x \<longleftrightarrow> x \<in> set areas \<and> a \<in> range_set (ma_range x)"
    "overlapping_addr areas a = None \<longleftrightarrow> (\<forall>x\<in>set areas. a \<notin> range_set (ma_range x))"
proof -
  have eq: "point_cmp a x = Equal \<longleftrightarrow> a \<in> range_set (ma_range x)" if "x \<in> set areas" for x
    using assms that by (auto simp: areas_ok_def point_cmp_eq range_set_def)
  show "overlapping_addr areas a = Some x \<longleftrightarrow> x \<in> set areas \<and> a \<in> range_set (ma_range x)"
    using areas.bt_get_Some_iff [of areas a x] assms eq by (auto simp: areas_ok_def overlapping_addr_def bt_get_point)
  show "overlapping_addr areas a = None \<longleftrightarrow> (\<forall>x\<in>set areas. a \<notin> range_set (ma_range x))"
    using areas.bt_get_None_iff [of areas a] assms eq by (auto simp: areas_ok_def overlapping_addr_def bt_get_point)
qed

lemma overlapping_range_set:
  assumes "areas_ok areas" and "ar_start rng < ar_end rng" and "ar_end rng < usize_mod"
  shows "set (overlapping_range areas rng) = {x \<in> set areas. overlaps rng x}"
proof -
  have "range_len rng \<noteq> 0" "usub (ar_end rng) 1 = ar_end rng - 1"
    using assms(2,3) by (auto simp: range_len_def usub_eq)
  then have b: "into_bounds rng = (range_from (ar_start rng), range_from (ar_end rng - 1))" by (simp add: into_bounds_def)
  have "point_cmp (ar_start rng) x \<noteq> Greater \<and> point_cmp (ar_end rng - 1) x \<noteq> Less \<longleftrightarrow> overlaps rng x" if "x \<in> set areas" for x
  proof -
    have "area_ok x" using assms(1) that by (auto simp: areas_ok_def)
    then show ?thesis using assms(2) by (auto simp: point_cmp_eq overlaps_def overlap_with_def area_ok_def)
  qed
  then show ?thesis using areas.set_bt_range [of areas "ar_start rng" "ar_end rng - 1"] assms(1)
    by (auto simp: overlapping_range_def b bt_range_point areas_ok_def)
qed

section \<open>Correctness of unmapping\<close>

text \<open>Ranges of whole pages in user space.\<close>

definition page_range_ok :: "addr_range \<Rightarrow> bool" where
  "page_range_ok rng \<longleftrightarrow> ar_start rng < ar_end rng \<and> 4096 dvd ar_start rng \<and> 4096 dvd ar_end rng \<and>
     ar_end rng \<le> USER_SPACE_MEMORY_TOP"

lemma page_range_valid: "page_range_ok rng \<Longrightarrow> valid_range rng"
  using USER_TOP_less by (auto simp: page_range_ok_def valid_range_def)

lemma mask_area:
  assumes "area_ok x" and "page_range_ok rng"
  shows "mask_with_checked (ma_range x) rng = Inr (if overlaps rng x then Some
    (if ar_start (ma_range x) < ar_start rng then Some \<lparr>ar_start = ar_start (ma_range x), ar_end = ar_start rng\<rparr> else None,
     meet rng x,
     if ar_end rng < ar_end (ma_range x) then Some \<lparr>ar_start = ar_end rng, ar_end = ar_end (ma_range x)\<rparr> else None)
    else None)"
  using assms mask_with_checked_Some [OF area_ok_valid page_range_valid, of x rng]
    mask_with_checked_None [OF area_ok_valid page_range_valid, of x rng]
  by (auto simp: overlaps_def meet_def page_range_ok_def)

lemma meet_end: "area_ok x \<Longrightarrow> page_range_ok rng \<Longrightarrow> 4096 dvd ar_end (meet rng x)"
  by (simp add: meet_def area_ok_def page_range_ok_def min_def)

text \<open>One area: what stays of it on both sides.\<close>

definition left_part :: "addr_range \<Rightarrow> mm_area \<Rightarrow> bool" where
  "left_part rng x \<longleftrightarrow> overlaps rng x \<and> ar_start (ma_range x) < ar_start rng"

definition right_part :: "addr_range \<Rightarrow> mm_area \<Rightarrow> bool" where
  "right_part rng x \<longleftrightarrow> overlaps rng x \<and> ar_end rng < ar_end (ma_range x)"

lemma left_part_split:
  assumes "area_ok x" and "page_range_ok rng" and "left_part rng x"
  shows "ma_split x (ar_start rng) = Inr (Some (area_left x (ar_start rng)), Some (area_right x (ar_start rng)))"
    "area_ok (area_left x (ar_start rng))" "area_ok (area_right x (ar_start rng))"
  using ma_split_inside [OF assms(1), of "ar_start rng"] area_parts_ok [OF assms(1), of "ar_start rng"] assms
  by (auto simp: left_part_def overlaps_def overlap_with_def page_range_ok_def)

lemma right_part_split:
  assumes "area_ok x" and "page_range_ok rng" and "right_part rng x"
  shows "ma_split x (ar_end rng) = Inr (Some (area_left x (ar_end rng)), Some (area_right x (ar_end rng)))"
    "area_ok (area_left x (ar_end rng))" "area_ok (area_right x (ar_end rng))"
  using ma_split_inside [OF assms(1), of "ar_end rng"] area_parts_ok [OF assms(1), of "ar_end rng"] assms
  by (auto simp: right_part_def overlaps_def overlap_with_def page_range_ok_def)

lemma right_of_right_split:
  assumes "area_ok x" and "page_range_ok rng" and "left_part rng x" and "right_part rng x"
  shows "ma_split (area_right x (ar_start rng)) (ar_end rng) =
      Inr (Some (area_left (area_right x (ar_start rng)) (ar_end rng)), Some (area_right x (ar_end rng)))"
proof -
  let ?m = "area_right x (ar_start rng)"
  have "right_part rng ?m" using assms(2-4) by (auto simp: right_part_def left_part_def overlaps_def overlap_with_def page_range_ok_def)
  moreover have "area_right ?m (ar_end rng) = area_right x (ar_end rng)"
    by (rule area_right_right) (use assms(2,3) in \<open>auto simp: left_part_def page_range_ok_def\<close>)
  ultimately show ?thesis using right_part_split(1) [OF left_part_split(3) [OF assms(1-3)] assms(2)] by simp
qed

lemma unmap_area_skip:
  "area_ok x \<Longrightarrow> page_range_ok rng \<Longrightarrow> \<not> overlaps rng x \<Longrightarrow> unmap_area rng x (v, s, l, r) = Inr (True, v, s, l, r)"
  by (simp add: unmap_area_def mask_area)

lemma unmap_area_cut:
  assumes x: "area_ok x" and rng: "page_range_ok rng" and ov: "overlaps rng x"
    and l: "left_part rng x \<Longrightarrow> l = None" and r: "right_part rng x \<Longrightarrow> r = None"
    and it: "iter_user (unmap_entry (ma_shared x)) (meet rng x) v s = Inr (v', s')"
  shows "unmap_area rng x (v, s, l, r) = Inr (False, v', s',
    if left_part rng x then Some (area_left x (ar_start rng)) else l,
    if right_part rng x then Some (area_right x (ar_end rng)) else r)"
proof (cases "left_part rng x")
  case True
  note L = left_part_split [OF x rng True]
  have lt: "ar_start (ma_range x) < ar_start rng" using True by (simp add: left_part_def)
  show ?thesis
  proof (cases "right_part rng x")
    case R: True
    then have rt: "ar_end rng < ar_end (ma_range x)" by (simp add: right_part_def)
    show ?thesis using True R ov l r it lt rt L(1) right_of_right_split [OF x rng True R]
      by (simp add: unmap_area_def mask_area [OF x rng])
  next
    case R: False
    then have rt: "\<not> ar_end rng < ar_end (ma_range x)" using ov by (simp add: right_part_def)
    show ?thesis using True R ov l it lt rt L(1) by (simp add: unmap_area_def mask_area [OF x rng])
  qed
next
  case L: False
  then have lt: "\<not> ar_start (ma_range x) < ar_start rng" using ov by (simp add: left_part_def)
  show ?thesis
  proof (cases "right_part rng x")
    case R: True
    then have rt: "ar_end rng < ar_end (ma_range x)" by (simp add: right_part_def)
    show ?thesis using L R ov r it lt rt right_part_split(1) [OF x rng R] by (simp add: unmap_area_def mask_area [OF x rng])
  next
    case R: False
    then have rt: "\<not> ar_end rng < ar_end (ma_range x)" using ov by (simp add: right_part_def)
    show ?thesis using L R ov it lt rt by (simp add: unmap_area_def mask_area [OF x rng])
  qed
qed

text \<open>All areas: at most one has a left part and at most one a right part.\<close>

definition lefts :: "addr_range \<Rightarrow> mm_area list \<Rightarrow> mm_area set" where
  "lefts rng xs = {area_left x (ar_start rng) |x. x \<in> set xs \<and> left_part rng x}"

definition rights :: "addr_range \<Rightarrow> mm_area list \<Rightarrow> mm_area set" where
  "rights rng xs = {area_right x (ar_end rng) |x. x \<in> set xs \<and> right_part rng x}"

lemma parts_Cons:
  "lefts rng (x # xs) = (if left_part rng x then insert (area_left x (ar_start rng)) (lefts rng xs) else lefts rng xs)"
  "rights rng (x # xs) = (if right_part rng x then insert (area_right x (ar_end rng)) (rights rng xs) else rights rng xs)"
  by (auto simp: lefts_def rights_def)

lemma left_part_first:
  "overlaps rng x \<Longrightarrow> area_before x y \<Longrightarrow> \<not> left_part rng y"
  by (auto simp: left_part_def overlaps_def overlap_with_def area_before_def range_before_def)

lemma right_part_last:
  "right_part rng x \<Longrightarrow> area_before x y \<Longrightarrow> \<not> overlaps rng y"
  by (auto simp: right_part_def overlaps_def overlap_with_def area_before_def range_before_def)

lemma pages_of_meet:
  assumes "area_ok x"
  shows "set (pages_of (meet rng x)) \<subseteq> {ar_start (ma_range x) div 4096..<ar_end (ma_range x) div 4096}"
proof -
  have "ar_start (ma_range x) div 4096 \<le> ar_start (meet rng x) div 4096"
    "ar_end (meet rng x) div 4096 \<le> ar_end (ma_range x) div 4096"
    by (auto simp: meet_def intro: div_le_mono)
  then show ?thesis by (auto simp: pages_of_def)
qed

lemma pages_disjoint:
  assumes "area_ok x" and "area_ok y" and "area_before x y"
  shows "set (pages_of (meet rng x)) \<inter> set (pages_of (meet rng y)) = {}"
proof -
  have "ar_end (ma_range x) div 4096 \<le> ar_start (ma_range y) div 4096"
    using assms(3) by (auto simp: area_before_def range_before_def intro: div_le_mono)
  then show ?thesis using pages_of_meet [OF assms(1), of rng] pages_of_meet [OF assms(2), of rng] by fastforce
qed

lemma set_pages_in: "set (pages_in xs rng) = (\<Union>x\<in>{x \<in> set xs. overlaps rng x}. set (pages_of (meet rng x)))"
  by (auto simp: pages_in_def)

lemma unmap_retain_ok:
  assumes "areas_ok xs" and rng: "page_range_ok rng"
    and "l \<noteq> None \<Longrightarrow> lefts rng xs = {}" and "r \<noteq> None \<Longrightarrow> rights rng xs = {}"
    and "pages_own st (mset pages + mset (owned v (pages_in xs rng)) + M)"
  shows "\<exists>st' pages' l' r'. unmap_retain rng xs (v, (st, pages), l, r) =
      Inr (filter (\<lambda>x. \<not> overlaps rng x) xs, (\<lambda>u. if u \<in> set (pages_in xs rng) then 0 else v u), (st', pages'), l', r') \<and>
    pages_own st' (mset pages' + M) \<and> set_option l' = set_option l \<union> lefts rng xs \<and> set_option r' = set_option r \<union> rights rng xs"
  using assms(1,3-5)
proof (induction xs arbitrary: v st pages l r)
  case Nil
  then show ?case by (simp add: lefts_def rights_def)
next
  case (Cons x xs)
  have x: "area_ok x" and xs: "areas_ok xs" and before: "\<And>y. y \<in> set xs \<Longrightarrow> area_before x y"
    and oks: "\<And>y. y \<in> set xs \<Longrightarrow> area_ok y"
    using Cons.prems(1) by (auto simp: areas_ok_def)
  show ?case
  proof (cases "overlaps rng x")
    case False
    then have "\<not> left_part rng x" "\<not> right_part rng x" by (auto simp: left_part_def right_part_def)
    then show ?thesis
      using Cons.IH [OF xs, of l r st pages v] Cons.prems(2-4) False unmap_area_skip [OF x rng False]
      by (auto simp: parts_Cons)
  next
    case ov: True
    let ?us = "pages_of (meet rng x)" and ?M = "mset (owned v (pages_in xs rng)) + M"
    have "pages_own st (mset pages + mset (owned v ?us) + ?M)" using Cons.prems(4) ov by (simp add: ac_simps)
    from unmap_entries [OF meet_end [OF x rng] this, of "ma_shared x"] obtain st1 pages1 where
      it: "iter_user (unmap_entry (ma_shared x)) (meet rng x) v (st, pages) =
        Inr ((\<lambda>u. if u \<in> set ?us then 0 else v u), st1, pages1)" and own1: "pages_own st1 (mset pages1 + ?M)" by blast
    let ?v = "\<lambda>u. if u \<in> set ?us then 0 else v u"
    let ?l = "if left_part rng x then Some (area_left x (ar_start rng)) else l"
    let ?r = "if right_part rng x then Some (area_right x (ar_end rng)) else r"
    have cut: "unmap_area rng x (v, (st, pages), l, r) = Inr (False, ?v, (st1, pages1), ?l, ?r)"
    proof (rule unmap_area_cut [OF x rng ov _ _ it])
      show "l = None" if "left_part rng x" using Cons.prems(2) that by (cases l) (auto simp: parts_Cons)
      show "r = None" if "right_part rng x" using Cons.prems(3) that by (cases r) (auto simp: parts_Cons)
    qed
    have nl: "lefts rng xs = {}" using left_part_first [OF ov before] by (auto simp: lefts_def)
    have nr: "rights rng xs = {}" if "right_part rng x"
      using right_part_last [OF that before] by (auto simp: rights_def right_part_def)
    have "owned ?v (pages_in xs rng) = owned v (pages_in xs rng)"
      by (rule owned_cong) (use pages_disjoint [OF x oks before] in \<open>auto simp: set_pages_in\<close>)
    then have "pages_own st1 (mset pages1 + mset (owned ?v (pages_in xs rng)) + M)" using own1 by (simp add: ac_simps)
    moreover have "rights rng xs = {}" if "?r \<noteq> None"
      using that nr Cons.prems(3) by (cases "right_part rng x") (auto simp: parts_Cons)
    ultimately obtain st' pages' l' r' where
      step: "unmap_retain rng xs (?v, (st1, pages1), ?l, ?r) =
        Inr (filter (\<lambda>x. \<not> overlaps rng x) xs, (\<lambda>u. if u \<in> set (pages_in xs rng) then 0 else ?v u), (st', pages'), l', r')"
      and own': "pages_own st' (mset pages' + M)" and l': "set_option l' = set_option ?l \<union> lefts rng xs"
      and r': "set_option r' = set_option ?r \<union> rights rng xs"
      using Cons.IH [OF xs, of ?l ?r st1 pages1 ?v] nl by blast
    have view: "(\<lambda>u. if u \<in> set (pages_in xs rng) then 0 else ?v u) = (\<lambda>u. if u \<in> set (pages_in (x # xs) rng) then 0 else v u)"
      using ov by (auto simp: fun_eq_iff)
    have "set_option l' = set_option l \<union> lefts rng (x # xs)" "set_option r' = set_option r \<union> rights rng (x # xs)"
      using l' r' Cons.prems(2,3) by (auto simp: parts_Cons)
    then show ?thesis using cut step own' ov unfolding view by auto
  qed
qed

lemma page_ceil_user:
  assumes "a \<le> USER_SPACE_MEMORY_TOP"
  shows "4096 dvd page_ceil a" "a \<le> page_ceil a" "page_ceil a \<le> USER_SPACE_MEMORY_TOP" "page_ceil a < a + 4096"
proof -
  have "a + 4096 \<le> usize_mod" using assms by (simp add: USER_SPACE_MEMORY_TOP_def usize_mod_def)
  then have c: "page_ceil a = div_ceil a 4096 * 4096" by (simp add: page_ceil_def ceil_to_nowrap)
  show d: "4096 dvd page_ceil a" unfolding c by simp
  show "a \<le> page_ceil a" unfolding c by (rule div_ceil_ge) simp
  show lt: "page_ceil a < a + 4096" unfolding c by (rule div_ceil_less) simp
  have "4096 dvd USER_SPACE_MEMORY_TOP" by (simp add: USER_SPACE_MEMORY_TOP_def)
  then show "page_ceil a \<le> USER_SPACE_MEMORY_TOP" using dvd_step [OF _ d] assms lt by (meson leD leI order_trans add_le_mono1 less_le_trans)
qed

lemma page_floor_aligned: "4096 dvd a \<Longrightarrow> page_floor a = a"
  by (simp add: page_floor_def floor_to_aligned)

lemma range_of_pages:
  assumes "4096 dvd start" and "0 < len" and "start + len \<le> USER_SPACE_MEMORY_TOP"
  shows "page_range_ok \<lparr>ar_start = start, ar_end = page_ceil (start + len)\<rparr>" "uadd start len = start + len"
    "range_new start (page_ceil (start + len)) = Inr \<lparr>ar_start = start, ar_end = page_ceil (start + len)\<rparr>"
    "range_is_user \<lparr>ar_start = start, ar_end = page_ceil (start + len)\<rparr>"
  using assms page_ceil_user [OF assms(3)] USER_TOP_less
  by (auto simp: page_range_ok_def uadd_eq range_is_user_def)

lemma area_before_sub:
  assumes "area_ok z" and "ar_start (ma_range x) \<le> ar_start (ma_range z)" and "ar_end (ma_range z) \<le> ar_end (ma_range x)"
    and "area_before x y \<or> area_before y x"
  shows "area_before y z \<or> area_before z y"
  using assms area_ok_valid [OF assms(1)] by (auto simp: area_before_def range_before_def area_ok_def)

lemma parts_ok:
  assumes "areas_ok areas" and rng: "page_range_ok rng"
  shows "z \<in> lefts rng areas \<Longrightarrow> area_ok z \<and> ar_end (ma_range z) = ar_start rng \<and>
      (\<forall>y\<in>set areas. \<not> overlaps rng y \<longrightarrow> area_before y z \<or> area_before z y)"
    and "z \<in> rights rng areas \<Longrightarrow> area_ok z \<and> ar_start (ma_range z) = ar_end rng \<and>
      (\<forall>y\<in>set areas. \<not> overlaps rng y \<longrightarrow> area_before y z \<or> area_before z y)"
proof -
  assume "z \<in> lefts rng areas"
  then obtain x where x: "x \<in> set areas" "left_part rng x" "z = area_left x (ar_start rng)" by (auto simp: lefts_def)
  have ok: "area_ok x" using assms(1) x by (auto simp: areas_ok_def)
  have z: "area_ok z" using left_part_split(2) [OF ok rng x(2)] x(3) by simp
  moreover have "area_before y z \<or> area_before z y" if "y \<in> set areas" "\<not> overlaps rng y" for y
    by (rule area_before_sub [OF z, of x])
      (use areas_order [OF assms(1) x(1) that(1)] that(2) x in \<open>auto simp: left_part_def overlaps_def overlap_with_def\<close>)
  ultimately show "area_ok z \<and> ar_end (ma_range z) = ar_start rng \<and>
      (\<forall>y\<in>set areas. \<not> overlaps rng y \<longrightarrow> area_before y z \<or> area_before z y)" using x(3) by auto
next
  assume "z \<in> rights rng areas"
  then obtain x where x: "x \<in> set areas" "right_part rng x" "z = area_right x (ar_end rng)" by (auto simp: rights_def)
  have ok: "area_ok x" using assms(1) x by (auto simp: areas_ok_def)
  have z: "area_ok z" using right_part_split(3) [OF ok rng x(2)] x(3) by simp
  moreover have "area_before y z \<or> area_before z y" if "y \<in> set areas" "\<not> overlaps rng y" for y
    by (rule area_before_sub [OF z, of x])
      (use areas_order [OF assms(1) x(1) that(1)] that(2) x in \<open>auto simp: right_part_def overlaps_def overlap_with_def\<close>)
  ultimately show "area_ok z \<and> ar_start (ma_range z) = ar_end rng \<and>
      (\<forall>y\<in>set areas. \<not> overlaps rng y \<longrightarrow> area_before y z \<or> area_before z y)" using x(3) by auto
qed

lemma areas_ok_filter: "areas_ok areas \<Longrightarrow> areas_ok (filter P areas)"
  by (auto simp: areas_ok_def intro: sorted_wrt_filter)

lemma cut_areas_ok:
  assumes ok: "areas_ok areas" and rng: "page_range_ok rng"
    and l: "set_option l = lefts rng areas" and r: "set_option r = rights rng areas"
  shows "areas_ok (insert_remaining r (insert_remaining l (filter (\<lambda>x. \<not> overlaps rng x) areas)))"
    "set (insert_remaining r (insert_remaining l (filter (\<lambda>x. \<not> overlaps rng x) areas))) =
      {x \<in> set areas. \<not> overlaps rng x} \<union> lefts rng areas \<union> rights rng areas"
proof -
  let ?A = "filter (\<lambda>x. \<not> overlaps rng x) areas"
  have A: "areas_ok ?A" by (rule areas_ok_filter [OF ok])
  have lA: "areas_ok (insert_remaining l ?A)" "set (insert_remaining l ?A) = set ?A \<union> lefts rng areas"
  proof -
    have "areas_ok (insert_remaining l ?A) \<and> set (insert_remaining l ?A) = set ?A \<union> lefts rng areas"
    proof (cases l)
      case None
      then show ?thesis using A l by (auto simp: insert_remaining_def)
    next
      case (Some z)
      then have z: "z \<in> lefts rng areas" using l by auto
      show ?thesis using insert_area_ok [OF A, of z] parts_ok(1) [OF ok rng z] l Some by (auto simp: insert_remaining_def)
    qed
    then show "areas_ok (insert_remaining l ?A)" "set (insert_remaining l ?A) = set ?A \<union> lefts rng areas" by auto
  qed
  have "areas_ok (insert_remaining r (insert_remaining l ?A)) \<and>
      set (insert_remaining r (insert_remaining l ?A)) = set ?A \<union> lefts rng areas \<union> rights rng areas"
  proof (cases r)
    case None
    then show ?thesis using lA r by (auto simp: insert_remaining_def)
  next
    case (Some z)
    then have zr: "z \<in> rights rng areas" using r by auto
    note z = parts_ok(2) [OF ok rng zr]
    have "area_before y z \<or> area_before z y" if y: "y \<in> set (insert_remaining l ?A)" for y
    proof (cases "y \<in> set ?A")
      case False
      then have "y \<in> lefts rng areas" using y lA(2) by auto
      from parts_ok(1) [OF ok rng this] z rng show ?thesis
        using area_ok_valid [of y] area_ok_valid [of z] by (auto simp: area_before_def range_before_def page_range_ok_def area_ok_def)
    qed (use z in auto)
    then show ?thesis using insert_area_ok [OF lA(1), of z] z r Some lA(2) by (auto simp: insert_remaining_def)
  qed
  then show "areas_ok (insert_remaining r (insert_remaining l ?A))"
    "set (insert_remaining r (insert_remaining l ?A)) = {x \<in> set areas. \<not> overlaps rng x} \<union> lefts rng areas \<union> rights rng areas"
    by auto
qed

lemma mapped_inside: "(a, i) \<in> ma_mapped x \<Longrightarrow> ar_start (ma_range x) \<le> a \<and> a < ar_end (ma_range x)"
  by (auto simp: ma_mapped_def range_set_def)

lemma cut_mapped:
  assumes "areas_ok areas" and rng: "page_range_ok rng"
  shows "(\<Union>x\<in>{x \<in> set areas. \<not> overlaps rng x} \<union> lefts rng areas \<union> rights rng areas. ma_mapped x) =
    {(a, i) \<in> mapped areas. a \<notin> range_set rng}" (is "?new = ?old")
proof -
  have L: "ma_mapped (area_left x (ar_start rng)) = {(a, i) \<in> ma_mapped x. a < ar_start rng}" if "left_part rng x" for x
    by (rule area_parts_mapped(1)) (use that in \<open>auto simp: left_part_def overlaps_def overlap_with_def\<close>)
  have R: "ma_mapped (area_right x (ar_end rng)) = {(a, i) \<in> ma_mapped x. ar_end rng \<le> a}" if "right_part rng x" for x
    by (rule area_parts_mapped(2)) (use that in \<open>auto simp: right_part_def overlaps_def overlap_with_def\<close>)
  have "?new \<subseteq> ?old"
  proof
    fix e assume "e \<in> ?new"
    moreover obtain a i where e: "e = (a, i)" by (cases e) blast
    ultimately consider x where "x \<in> set areas" "\<not> overlaps rng x" "(a, i) \<in> ma_mapped x"
      | x where "x \<in> set areas" "left_part rng x" "(a, i) \<in> ma_mapped (area_left x (ar_start rng))"
      | x where "x \<in> set areas" "right_part rng x" "(a, i) \<in> ma_mapped (area_right x (ar_end rng))"
      by (auto simp: lefts_def rights_def)
    then have "(a, i) \<in> mapped areas \<and> a \<notin> range_set rng"
    proof cases
      case 1
      then show ?thesis using mapped_inside [of a i x] by (auto simp: mapped_def overlaps_def overlap_with_def range_set_def)
    next
      case 2
      then show ?thesis using L by (auto simp: mapped_def range_set_def)
    next
      case 3
      then show ?thesis using R by (auto simp: mapped_def range_set_def)
    qed
    then show "e \<in> ?old" using e by auto
  qed
  moreover have "?old \<subseteq> ?new"
  proof
    fix e assume "e \<in> ?old"
    then obtain a i where e: "e = (a, i)" "(a, i) \<in> mapped areas" and out: "a \<notin> range_set rng" by auto
    then obtain x where x: "x \<in> set areas" "(a, i) \<in> ma_mapped x" by (auto simp: mapped_def)
    note ins = mapped_inside [OF x(2)]
    consider "\<not> overlaps rng x" | "left_part rng x" "a < ar_start rng" | "right_part rng x" "ar_end rng \<le> a"
      using out ins by (fastforce simp: left_part_def right_part_def range_set_def)
    then have "(a, i) \<in> ?new"
    proof cases
      case 1
      then show ?thesis using x by auto
    next
      case 2
      then have "(a, i) \<in> ma_mapped (area_left x (ar_start rng))" using L x by auto
      then show ?thesis using x 2 by (auto simp: lefts_def)
    next
      case 3
      then have "(a, i) \<in> ma_mapped (area_right x (ar_end rng))" using R x by auto
      then show ?thesis using x 3 by (auto simp: rights_def)
    qed
    then show "e \<in> ?new" using e(1) by simp
  qed
  ultimately show ?thesis by blast
qed


text \<open>An address space with one anonymous area of four pages.\<close>

definition sample_area :: mm_area where
  "sample_area = \<lparr>ma_range = \<lparr>ar_start = 0x10000, ar_end = 0x14000\<rparr>, ma_mapping = Anonymous,
     ma_permission = \<lparr>pm_read = True, pm_write = True, pm_execute = False\<rparr>, ma_shared = False\<rparr>"

definition sample_mm :: mm_list where
  "sample_mm = \<lparr>ml_areas = [sample_area], ml_break_start = None, ml_break_pos = None, ml_view = (\<lambda>_. 0),
     ml_user_count = 1, ml_active = True\<rparr>"

lemma sample_mm_ok: "areas_ok (ml_areas sample_mm)" "flush_user_tlbs sample_mm = Inr ()"
  by (simp_all add: sample_mm_def sample_area_def areas_ok_def area_ok_def USER_SPACE_MEMORY_TOP_def flush_user_tlbs_def)

lemma zero_not_owned: "owned (\<lambda>_. 0) us = []"
  by (induction us) (simp_all add: pte_owns_def pte_attr_def as_page_attr_def bit_if_def has_flag_bits)

lemma page_ceil_sample: "page_ceil 0x12000 = 0x12000"
  by (simp add: page_ceil_def ceil_to_def div_ceil_def umul_def usize_mod_def)


section \<open>Correctness of protecting\<close>

definition pte_ok :: "u64 \<Rightarrow> bool" where
  "pte_ok e \<longleftrightarrow> as_page_attr (pte_attr e) \<noteq> None"

definition perm_none :: "permission \<Rightarrow> bool" where
  "perm_none perm \<longleftrightarrow> \<not> pm_read perm \<and> \<not> pm_write perm \<and> \<not> pm_execute perm"

text \<open>The attributes that \<open>protect\<close> leaves in an entry.\<close>

definition protect_attr :: "permission \<Rightarrow> u64 \<Rightarrow> u64" where
  "protect_attr perm a =
     (if perm_none perm then without a (PRESENT OR READ OR WRITE OR EXECUTE)
      else attr_put (pm_execute perm) EXECUTE
        (if has_flag a COPY_ON_WRITE then attr_put (pm_read perm) READ a
         else attr_put (pm_write perm) WRITE (attr_put (pm_read perm) READ a)))"

lemma protect_attr_ok:
  assumes "attr_ok a" and "pm_write perm \<longrightarrow> pm_read perm \<or> pm_execute perm"
  shows "attr_ok (protect_attr perm a)"
proof -
  have hi: "bit a n \<Longrightarrow> n < 10" for n using assms(1) by (simp add: attr_ok_bits)
  show ?thesis
  proof (cases "perm_none perm")
    case True
    then show ?thesis unfolding attr_ok_bits protect_attr_def using hi by (simp add: attr_bits)
  next
    case False
    then have "pm_read perm \<or> pm_execute perm" using assms(2) by (auto simp: perm_none_def)
    then show ?thesis using False hi unfolding attr_ok_bits protect_attr_def by (auto simp: attr_bits split: if_splits)
  qed
qed

definition protect_pte :: "permission \<Rightarrow> u64 \<Rightarrow> u64" where
  "protect_pte perm e = (case protect_entry perm e () of Inr (e', _) \<Rightarrow> e' | Inl _ \<Rightarrow> e)"

lemma protect_entry_attr:
  assumes "as_page_attr (pte_attr e) = Some a"
  shows "protect_entry perm e () = rmap (\<lambda>raw. (pte_set_attr raw e, ())) (raw_of_page_attr (protect_attr perm a))"
proof -
  have "has_flag (attr_put (pm_read perm) READ a) COPY_ON_WRITE = has_flag a COPY_ON_WRITE" by (simp add: attr_bits)
  then show ?thesis
    by (simp add: protect_entry_def assms protect_attr_def perm_none_def unwrap_def Let_def)
qed

lemma protect_entry_ok:
  assumes "as_page_attr (pte_attr e) = Some a" and "pm_write perm \<longrightarrow> pm_read perm \<or> pm_execute perm"
  shows "protect_entry perm e () = Inr (protect_pte perm e, ())"
    "as_page_attr (pte_attr (protect_pte perm e)) = Some (protect_attr perm a)" "pte_pfn (protect_pte perm e) = pte_pfn e"
proof -
  obtain raw where raw: "raw_of_page_attr (protect_attr perm a) = Inr raw" "pte_pfn (pte_set (pte_pfn e) raw) = pte_pfn e"
    "as_page_attr (pte_attr (pte_set (pte_pfn e) raw)) = Some (protect_attr perm a)"
    using pte_build [OF pte_pfn_less protect_attr_ok [OF as_page_attr_ok [OF assms(1)] assms(2)]] by blast
  have eq: "protect_entry perm e () = Inr (pte_set (pte_pfn e) raw, ())"
    by (simp add: protect_entry_attr [OF assms(1)] raw(1) pte_set_attr_def)
  show "protect_entry perm e () = Inr (protect_pte perm e, ())"
    "as_page_attr (pte_attr (protect_pte perm e)) = Some (protect_attr perm a)" "pte_pfn (protect_pte perm e) = pte_pfn e"
    using raw by (simp_all add: protect_pte_def eq)
qed

lemma protect_entries:
  assumes "4096 dvd ar_end rng" and "\<forall>u\<in>set (pages_of rng). pte_ok (v u)" and "pm_write perm \<longrightarrow> pm_read perm \<or> pm_execute perm"
  shows "iter_user (protect_entry perm) rng v () = Inr ((\<lambda>u. if u \<in> set (pages_of rng) then protect_pte perm (v u) else v u), ())"
proof -
  have "\<exists>s'. protect_entry perm (v (pages_of rng ! k)) s = Inr (protect_pte perm (v (pages_of rng ! k)), s')"
    if "k < length (pages_of rng)" for k s
  proof -
    have "pte_ok (v (pages_of rng ! k))" using assms(2) that by simp
    then show ?thesis using protect_entry_ok(1) [OF _ assms(3)] by (auto simp: pte_ok_def)
  qed
  then show ?thesis
    using iter_user_rule [OF assms(1), of "\<lambda>_ _. True" "()" "protect_entry perm" v "protect_pte perm"] by auto
qed

end
