(* ===== verification/Mm_Protect.thy ===== *)
theory Mm_Protect
  imports Mm_List
begin

text \<open>
  Correctness of \<open>MMList::protect\<close> (\<open>src/kernel/mem/mm_list.rs\<close>): the areas are cut at the ends of the
  range and the parts inside get the new permission. A permission to write only is excluded; the
  last section shows what it does to an entry that is marked copy-on-write.
\<close>

text \<open>The part of an area inside the range.\<close>

definition mid_area :: "addr_range \<Rightarrow> mm_area \<Rightarrow> mm_area" where
  "mid_area rng x =
     (let x' = (if left_part rng x then area_right x (ar_start rng) else x)
      in if right_part rng x then area_left x' (ar_end rng) else x')"

definition pieces :: "addr_range \<Rightarrow> permission \<Rightarrow> mm_area \<Rightarrow> mm_area set" where
  "pieces rng perm x =
     (if overlaps rng x
      then (if left_part rng x then {area_left x (ar_start rng)} else {}) \<union>
           (if right_part rng x then {area_right x (ar_end rng)} else {}) \<union> {(mid_area rng x)\<lparr>ma_permission := perm\<rparr>}
      else {x})"

lemma left_part_inside:
  "left_part rng x \<Longrightarrow> ar_start (ma_range x) < ar_start rng \<and> ar_start rng < ar_end (ma_range x)"
  "right_part rng x \<Longrightarrow> ar_start (ma_range x) < ar_end rng \<and> ar_end rng < ar_end (ma_range x)"
  by (auto simp: left_part_def right_part_def overlaps_def overlap_with_def)

lemma right_part_right:
  assumes "page_range_ok rng" and "left_part rng x"
  shows "right_part rng (area_right x (ar_start rng)) \<longleftrightarrow> right_part rng x"
proof -
  have "ar_start rng < ar_end rng" "ar_start (ma_range x) < ar_start rng" "ar_start rng < ar_end (ma_range x)"
    using assms(1) left_part_inside(1) [OF assms(2)] by (simp_all add: page_range_ok_def)
  then show ?thesis by (simp add: right_part_def overlaps_def overlap_with_def)
qed

lemma mid_area_props:
  assumes x: "area_ok x" and rng: "page_range_ok rng" and ov: "overlaps rng x"
  shows "area_ok (mid_area rng x)" "ma_range (mid_area rng x) = meet rng x"
    "ma_mapped (mid_area rng x) = {(a, i) \<in> ma_mapped x. a \<in> range_set rng}"
proof -
  let ?x = "if left_part rng x then area_right x (ar_start rng) else x"
  have ok: "area_ok ?x" using left_part_split(3) [OF x rng] x by simp
  have r: "right_part rng ?x \<longleftrightarrow> right_part rng x" using right_part_right [OF rng] by simp
  show "area_ok (mid_area rng x)"
    using right_part_split(2) [OF ok rng] r ok by (simp add: mid_area_def Let_def split: if_splits)
  show "ma_range (mid_area rng x) = meet rng x"
  proof -
    have L: "left_part rng x \<longleftrightarrow> ar_start (ma_range x) < ar_start rng" using ov by (simp add: left_part_def)
    have R: "right_part rng x \<longleftrightarrow> ar_end rng < ar_end (ma_range x)" using ov by (simp add: right_part_def)
    show ?thesis unfolding mid_area_def Let_def L R meet_def by (auto simp: max_def min_def intro: addr_range.equality)
  qed
  have m1: "ma_mapped ?x = {(a, i) \<in> ma_mapped x. ar_start rng \<le> a}"
  proof (cases "left_part rng x")
    case True
    then show ?thesis using area_parts_mapped(2) [of x "ar_start rng"] left_part_inside(1) [OF True] by simp
  next
    case False
    then have "ar_start rng \<le> a" if "(a, i) \<in> ma_mapped x" for a i
      using ov mapped_inside [OF that] by (simp add: left_part_def)
    then show ?thesis using False by auto
  qed
  have m2: "ma_mapped (mid_area rng x) = {(a, i) \<in> ma_mapped ?x. a < ar_end rng}"
  proof (cases "right_part rng x")
    case True
    then have "ar_start (ma_range ?x) < ar_end rng \<and> ar_end rng < ar_end (ma_range ?x)"
      using left_part_inside(2) [of rng ?x] r by blast
    then show ?thesis using area_parts_mapped(1) [of ?x "ar_end rng"] True by (simp add: mid_area_def Let_def)
  next
    case False
    then have "ar_end (ma_range ?x) \<le> ar_end rng" using ov by (simp add: right_part_def)
    then have "a < ar_end rng" if "(a, i) \<in> ma_mapped ?x" for a i using mapped_inside [OF that] by simp
    moreover have "mid_area rng x = ?x" using False by (simp add: mid_area_def)
    ultimately show ?thesis by auto
  qed
  show "ma_mapped (mid_area rng x) = {(a, i) \<in> ma_mapped x. a \<in> range_set rng}"
    unfolding m2 m1 by (auto simp: range_set_def)
qed

lemma protect_area_keep:
  "area_ok x \<Longrightarrow> page_range_ok rng \<Longrightarrow> \<not> overlaps rng x \<Longrightarrow>
   protect_area rng perm x (areas, v, found) = Inr (bt_insert area_cmp x areas, v, found)"
  by (simp add: protect_area_def mask_area)

text \<open>The areas to which an overlapping area is cut, inserted in the order of the code.\<close>

definition insert_pieces :: "addr_range \<Rightarrow> permission \<Rightarrow> mm_area \<Rightarrow> mm_area list \<Rightarrow> mm_area list" where
  "insert_pieces rng perm x areas =
     bt_insert area_cmp ((mid_area rng x)\<lparr>ma_permission := perm\<rparr>)
       (insert_remaining (if right_part rng x then Some (area_right x (ar_end rng)) else None)
         (insert_remaining (if left_part rng x then Some (area_left x (ar_start rng)) else None) areas))"

lemma protect_area_cut:
  assumes x: "area_ok x" and rng: "page_range_ok rng" and ov: "overlaps rng x"
    and it: "iter_user (protect_entry perm) (meet rng x) v () = Inr (v', ())"
  shows "protect_area rng perm x (areas, v, found) = Inr (insert_pieces rng perm x areas, v', True)"
proof -
  let ?x = "if left_part rng x then area_right x (ar_start rng) else x"
  have ok: "area_ok ?x" using left_part_split(3) [OF x rng] x by simp
  have rr: "right_part rng ?x \<longleftrightarrow> right_part rng x" using right_part_right [OF rng] by simp
  have L: "ar_start (ma_range x) < ar_start rng \<longleftrightarrow> left_part rng x" using ov by (simp add: left_part_def)
  have R: "ar_end rng < ar_end (ma_range x) \<longleftrightarrow> right_part rng x" using ov by (simp add: right_part_def)
  have rx: "area_right ?x (ar_end rng) = area_right x (ar_end rng)"
    using area_right_right [of x "ar_start rng" "ar_end rng"] rng left_part_inside(1) [of rng x] by (auto simp: page_range_ok_def)
  have s2: "right_part rng x \<Longrightarrow> ma_split ?x (ar_end rng) = Inr (Some (area_left ?x (ar_end rng)), Some (area_right x (ar_end rng)))"
    using right_part_split(1) [OF ok rng] rr rx by simp
  note s1 = left_part_split(1) [OF x rng]
  show ?thesis
  proof (cases "left_part rng x")
    case True
    then show ?thesis using s1 s2 it
      by (cases "right_part rng x")
        (simp_all add: protect_area_def mask_area [OF x rng] ov L R insert_pieces_def insert_remaining_def mid_area_def Let_def)
  next
    case False
    then show ?thesis using s2 it
      by (cases "right_part rng x")
        (simp_all add: protect_area_def mask_area [OF x rng] ov L R insert_pieces_def insert_remaining_def mid_area_def Let_def)
  qed
qed

section \<open>All areas\<close>

lemma area_ok_permission [simp]: "area_ok (x\<lparr>ma_permission := perm\<rparr>) = area_ok x"
  by (cases "ma_mapping x") (simp_all add: area_ok_def)

lemma sub_before:
  assumes "area_ok z" and "ar_start (ma_range x) \<le> ar_start (ma_range z)" and "ar_end (ma_range z) \<le> ar_end (ma_range x)"
  shows "area_before y x \<Longrightarrow> area_before y z" "area_before x y \<Longrightarrow> area_before z y"
  using assms area_ok_valid [OF assms(1)] by (auto simp: area_before_def range_before_def area_ok_def)

lemma before_by_ends:
  "area_ok y \<Longrightarrow> area_ok z \<Longrightarrow> ar_end (ma_range y) \<le> ar_start (ma_range z) \<Longrightarrow> area_before y z"
  using area_ok_valid [of y] area_ok_valid [of z] by (auto simp: area_before_def range_before_def area_ok_def)

lemma insert_remaining_ok:
  assumes "areas_ok areas" and "\<And>z. r = Some z \<Longrightarrow> area_ok z \<and> (\<forall>y\<in>set areas. area_before y z \<or> area_before z y)"
  shows "areas_ok (insert_remaining r areas)" "set (insert_remaining r areas) = set_option r \<union> set areas"
  using assms insert_area_ok [of areas] by (auto simp: insert_remaining_def split: option.splits)

lemma pieces_inside:
  assumes "area_ok x" and "page_range_ok rng" and "z \<in> pieces rng perm x"
  shows "area_ok z" "ar_start (ma_range x) \<le> ar_start (ma_range z)" "ar_end (ma_range z) \<le> ar_end (ma_range x)"
proof -
  consider "z = x" | "left_part rng x" "z = area_left x (ar_start rng)" | "right_part rng x" "z = area_right x (ar_end rng)"
    | "overlaps rng x" "z = (mid_area rng x)\<lparr>ma_permission := perm\<rparr>"
    using assms(3) by (auto simp: pieces_def split: if_splits)
  then have "area_ok z \<and> ar_start (ma_range x) \<le> ar_start (ma_range z) \<and> ar_end (ma_range z) \<le> ar_end (ma_range x)"
  proof cases
    case 2
    then show ?thesis using left_part_split(2) [OF assms(1,2) 2(1)] left_part_inside(1) [OF 2(1)] by simp
  next
    case 3
    then show ?thesis using right_part_split(3) [OF assms(1,2) 3(1)] left_part_inside(2) [OF 3(1)] by simp
  next
    case 4
    then show ?thesis using mid_area_props(1,2) [OF assms(1,2) 4(1)] by (simp add: meet_def)
  qed (use assms(1) in simp)
  then show "area_ok z" "ar_start (ma_range x) \<le> ar_start (ma_range z)" "ar_end (ma_range z) \<le> ar_end (ma_range x)" by auto
qed

lemma insert_pieces_ok:
  assumes x: "area_ok x" and rng: "page_range_ok rng" and ov: "overlaps rng x"
    and acc: "areas_ok acc" "\<forall>y\<in>set acc. area_before y x"
  shows "areas_ok (insert_pieces rng perm x acc)" "set (insert_pieces rng perm x acc) = set acc \<union> pieces rng perm x"
proof -
  let ?l = "if left_part rng x then Some (area_left x (ar_start rng)) else None"
  let ?r = "if right_part rng x then Some (area_right x (ar_end rng)) else None"
  let ?m = "(mid_area rng x)\<lparr>ma_permission := perm\<rparr>"
  have in_acc: "area_before y z" if "y \<in> set acc" "z \<in> pieces rng perm x" for y z
    using sub_before(1) [OF pieces_inside [OF x rng that(2)]] acc(2) that(1) by blast
  have L: "z \<in> pieces rng perm x \<and> ar_end (ma_range z) = ar_start rng" if "?l = Some z" for z
    using that ov by (auto simp: pieces_def split: if_splits)
  have R: "z \<in> pieces rng perm x \<and> ar_start (ma_range z) = ar_end rng" if "?r = Some z" for z
    using that ov by (auto simp: pieces_def split: if_splits)
  have M: "?m \<in> pieces rng perm x" "ma_range ?m = meet rng x"
    using ov mid_area_props(2) [OF x rng ov] by (auto simp: pieces_def)
  note ok = pieces_inside(1) [OF x rng]
  have le: "ar_start rng \<le> ar_end rng" using rng by (simp add: page_range_ok_def)
  have 1: "areas_ok (insert_remaining ?l acc)" "set (insert_remaining ?l acc) = set_option ?l \<union> set acc"
    using insert_remaining_ok [OF acc(1), of ?l] L in_acc ok by blast+
  have "area_ok z \<and> (\<forall>y\<in>set (insert_remaining ?l acc). area_before y z \<or> area_before z y)" if z: "?r = Some z" for z
  proof (intro conjI ballI)
    show "area_ok z" using R [OF z] ok by blast
    fix y assume "y \<in> set (insert_remaining ?l acc)"
    then consider "?l = Some y" | "y \<in> set acc" unfolding 1(2) by auto
    then show "area_before y z \<or> area_before z y"
    proof cases
      case 1
      show ?thesis using before_by_ends [of y z] L [OF 1] R [OF z] ok le by auto
    qed (use in_acc R [OF z] in blast)
  qed
  then have 2: "areas_ok (insert_remaining ?r (insert_remaining ?l acc))"
    "set (insert_remaining ?r (insert_remaining ?l acc)) = set_option ?r \<union> set (insert_remaining ?l acc)"
    using insert_remaining_ok [OF 1(1), of ?r] by blast+
  have "area_before y ?m \<or> area_before ?m y" if y: "y \<in> set (insert_remaining ?r (insert_remaining ?l acc))" for y
  proof -
    consider "?l = Some y" | "?r = Some y" | "y \<in> set acc" using y unfolding 2(2) 1(2) by auto
    then show ?thesis
    proof cases
      case 1
      have "ar_end (ma_range y) \<le> ar_start (ma_range ?m)" using L [OF 1] M(2) by (simp add: meet_def)
      then show ?thesis using before_by_ends ok L [OF 1] M(1) by blast
    next
      case 2
      have "ar_end (ma_range ?m) \<le> ar_start (ma_range y)" using R [OF 2] M(2) by (simp add: meet_def)
      then show ?thesis using before_by_ends ok R [OF 2] M(1) by blast
    qed (use in_acc M(1) in blast)
  qed
  then have 3: "areas_ok (insert_pieces rng perm x acc)"
    "set (insert_pieces rng perm x acc) = insert ?m (set (insert_remaining ?r (insert_remaining ?l acc)))"
    using insert_area_ok [OF 2(1), of ?m] ok [OF M(1)] by (auto simp: insert_pieces_def)
  show "areas_ok (insert_pieces rng perm x acc)" by (rule 3(1))
  have "pieces rng perm x = insert ?m (set_option ?r \<union> set_option ?l)" using ov by (auto simp: pieces_def)
  then show "set (insert_pieces rng perm x acc) = set acc \<union> pieces rng perm x" unfolding 3(2) 2(2) 1(2) by blast
qed

lemma protect_areas_ok:
  assumes "areas_ok xs" and rng: "page_range_ok rng" and perm: "pm_write perm \<longrightarrow> pm_read perm \<or> pm_execute perm"
    and "areas_ok acc" and "\<forall>y\<in>set acc. \<forall>x\<in>set xs. area_before y x" and "\<forall>u\<in>set (pages_in xs rng). pte_ok (v u)"
  shows "\<exists>acc'. protect_areas rng perm xs (acc, v, found) =
      Inr (acc', (\<lambda>u. if u \<in> set (pages_in xs rng) then protect_pte perm (v u) else v u), found \<or> (\<exists>x\<in>set xs. overlaps rng x)) \<and>
    areas_ok acc' \<and> set acc' = set acc \<union> (\<Union>x\<in>set xs. pieces rng perm x)"
  using assms(1,4-)
proof (induction xs arbitrary: acc v found)
  case Nil
  then show ?case by simp
next
  case (Cons x xs)
  have x: "area_ok x" and xs: "areas_ok xs" and before: "\<And>y. y \<in> set xs \<Longrightarrow> area_before x y"
    and oks: "\<And>y. y \<in> set xs \<Longrightarrow> area_ok y"
    using Cons.prems(1) by (auto simp: areas_ok_def)
  have acc: "\<forall>y\<in>set acc. area_before y x" using Cons.prems(3) by simp
  have next_before: "\<forall>y\<in>set acc \<union> pieces rng perm x. \<forall>z\<in>set xs. area_before y z"
    using Cons.prems(3) sub_before(2) [OF pieces_inside [OF x rng]] before by auto
  show ?case
  proof (cases "overlaps rng x")
    case False
    have one: "areas_ok (bt_insert area_cmp x acc)" "set (bt_insert area_cmp x acc) = insert x (set acc)"
      using insert_area_ok [OF Cons.prems(2) x] acc by auto
    have "pieces rng perm x = {x}" using False by (simp add: pieces_def)
    with Cons.IH [OF xs one(1), of v found] next_before one Cons.prems(4) False protect_area_keep [OF x rng False]
    show ?thesis by (auto simp: ac_simps)
  next
    case ov: True
    let ?us = "pages_of (meet rng x)"
    let ?v = "\<lambda>u. if u \<in> set ?us then protect_pte perm (v u) else v u"
    have it: "iter_user (protect_entry perm) (meet rng x) v () = Inr (?v, ())"
      by (rule protect_entries [OF meet_end [OF x rng] _ perm]) (use Cons.prems(4) ov in auto)
    note cut = protect_area_cut [OF x rng ov it, of acc found]
    note ins = insert_pieces_ok [OF x rng ov Cons.prems(2) acc, of perm]
    have out: "u \<notin> set ?us" if "u \<in> set (pages_in xs rng)" for u
      using that pages_disjoint [OF x oks before] by (auto simp: set_pages_in)
    then have "\<forall>u\<in>set (pages_in xs rng). pte_ok (?v u)" using Cons.prems(4) by auto
    with Cons.IH [OF xs ins(1), of ?v True] next_before obtain acc' where
      step: "protect_areas rng perm xs (insert_pieces rng perm x acc, ?v, True) =
        Inr (acc', (\<lambda>u. if u \<in> set (pages_in xs rng) then protect_pte perm (?v u) else ?v u), True)"
      and acc': "areas_ok acc'" "set acc' = set acc \<union> pieces rng perm x \<union> (\<Union>x\<in>set xs. pieces rng perm x)"
      unfolding ins(2) by auto
    have view: "(\<lambda>u. if u \<in> set (pages_in xs rng) then protect_pte perm (?v u) else ?v u) =
        (\<lambda>u. if u \<in> set (pages_in (x # xs) rng) then protect_pte perm (v u) else v u)"
      using out ov by (auto simp: fun_eq_iff)
    have run: "protect_areas rng perm (x # xs) (acc, v, found) = protect_areas rng perm xs (insert_pieces rng perm x acc, ?v, True)"
      using cut by simp
    have elems: "set acc' = set acc \<union> (\<Union>y\<in>set (x # xs). pieces rng perm y)" using acc'(2) by (simp add: Un_assoc)
    have found: "(found \<or> (\<exists>y\<in>set (x # xs). overlaps rng y)) = True" using ov by simp
    show ?thesis
      by (rule exI [of _ acc'], unfold run found elems [symmetric] step view, simp only: acc'(1) simp_thms)
  qed
qed

section \<open>The mapped addresses\<close>

lemma mapped_permission:
  "ma_mapped (x\<lparr>ma_permission := perm\<rparr>) = (\<lambda>(a, i). (a, perm, snd i)) ` ma_mapped x"
proof -
  have "ma_info (x\<lparr>ma_permission := perm\<rparr>) a = (perm, snd (ma_info x a))" for a
    by (cases "ma_mapping x") (simp_all add: ma_info_def)
  then show ?thesis by (auto simp: ma_mapped_def image_iff)
qed

text \<open>The effect of \<open>protect\<close> on a mapped address.\<close>

definition set_permission :: "addr_range \<Rightarrow> permission \<Rightarrow> usize \<times> permission \<times> 'i \<Rightarrow> usize \<times> permission \<times> 'i" where
  "set_permission rng perm = (\<lambda>(a, p, i). (a, if a \<in> range_set rng then perm else p, i))"

lemma mapped_pieces:
  assumes x: "area_ok x" and rng: "page_range_ok rng"
  shows "(\<Union>z\<in>pieces rng perm x. ma_mapped z) = set_permission rng perm ` ma_mapped x"
proof (cases "overlaps rng x")
  case False
  then have "a \<notin> range_set rng" if "(a, i) \<in> ma_mapped x" for a i
    using mapped_inside [OF that] by (auto simp: overlaps_def overlap_with_def range_set_def)
  then have "set_permission rng perm e = e" if "e \<in> ma_mapped x" for e
    using that by (cases e) (auto simp: set_permission_def)
  then show ?thesis using False by (force simp: pieces_def)
next
  case ov: True
  let ?L = "if left_part rng x then ma_mapped (area_left x (ar_start rng)) else {}"
  let ?R = "if right_part rng x then ma_mapped (area_right x (ar_end rng)) else {}"
  have L: "?L = {(a, i) \<in> ma_mapped x. a < ar_start rng}"
  proof (cases "left_part rng x")
    case True
    then show ?thesis using area_parts_mapped(1) [of x "ar_start rng"] left_part_inside(1) [OF True] by simp
  next
    case False
    then have "\<not> a < ar_start rng" if "(a, i) \<in> ma_mapped x" for a i
      using mapped_inside [OF that] ov by (simp add: left_part_def)
    then show ?thesis using False by auto
  qed
  have R: "?R = {(a, i) \<in> ma_mapped x. ar_end rng \<le> a}"
  proof (cases "right_part rng x")
    case True
    then show ?thesis using area_parts_mapped(2) [of x "ar_end rng"] left_part_inside(2) [OF True] by simp
  next
    case False
    then have "\<not> ar_end rng \<le> a" if "(a, i) \<in> ma_mapped x" for a i
      using mapped_inside [OF that] ov by (simp add: right_part_def)
    then show ?thesis using False by auto
  qed
  have "(\<Union>z\<in>pieces rng perm x. ma_mapped z) = ?L \<union> ?R \<union> (\<lambda>(a, i). (a, perm, snd i)) ` ma_mapped (mid_area rng x)"
    using ov by (auto simp: pieces_def mapped_permission)
  also have "\<dots> = set_permission rng perm ` ma_mapped x"
    unfolding L R mid_area_props(3) [OF x rng ov] by (force simp: set_permission_def range_set_def image_iff)
  finally show ?thesis .
qed


lemma zero_attr: "as_page_attr (pte_attr 0) \<noteq> None"
  by (simp add: pte_attr_def as_page_attr_def)

lemma sample_mm_overlap: "\<exists>x\<in>set (ml_areas sample_mm). overlaps \<lparr>ar_start = 0x11000, ar_end = page_ceil (0x11000 + 0x1000)\<rparr> x"
  using page_ceil_sample by (simp add: sample_mm_def sample_area_def overlaps_def overlap_with_def)


text \<open>C31: a write-only protection spoils the entry of an untouched anonymous page. Such an entry is
  marked copy-on-write, so \<open>protect\<close> withholds the write permission, and withdraws the read permission:
  the entry is left present without any permission, which is the encoding of an entry of an inner
  table. Every later \<open>protect\<close> of the page panics the kernel.\<close>

theorem protect_write_only:
  assumes "pte_set_anonymous False e0 st = Inr (e, st')" and "fr_empty st < 2 ^ 54"
  shows "\<exists>e'. protect_entry \<lparr>pm_read = False, pm_write = True, pm_execute = False\<rparr> e () = Inr (e', ()) \<and>
    as_page_attr (pte_attr e') = None \<and> protect_entry perm e' () = Inl Panic"
proof -
  let ?a = "PRESENT OR READ OR USER OR COPY_ON_WRITE" and ?w = "\<lparr>pm_read = False, pm_write = True, pm_execute = False\<rparr>"
  have "attr_ok ?a" by (simp add: attr_ok_def attr_defs has_flag_def)
  from pte_build [OF assms(2) this] obtain raw where raw: "raw_of_page_attr ?a = Inr raw"
    "pte_pfn (pte_set (fr_empty st) raw) = fr_empty st" "as_page_attr (pte_attr (pte_set (fr_empty st) raw)) = Some ?a" by blast
  have e: "e = pte_set (fr_empty st) raw"
    using assms(1) raw(1) by (simp add: pte_set_anonymous_def attr_put_def without_def attr_defs Let_def)
  let ?r = "PA_V OR PA_U OR PA_COW"
  have pr: "raw_of_page_attr (protect_attr ?w ?a) = Inr ?r"
    by (simp add: protect_attr_def attr_put_def attr_defs has_flag_def without_def raw_of_page_attr_def bit_if_def perm_none_def PA_V_def PA_U_def PA_COW_def)
  have "pte_attr (pte_set (pte_pfn e) ?r) = ?r"
    by (rule pte_set_get(2) [OF pte_pfn_less]) (simp add: PA_V_def PA_U_def PA_COW_def PA_FLAGS_MASK_def)
  then have none: "as_page_attr (pte_attr (pte_set (pte_pfn e) ?r)) = None"
    by (simp add: as_page_attr_def PA_V_def PA_U_def PA_COW_def PA_R_def PA_W_def PA_X_def)
  have "protect_entry ?w e () = Inr (pte_set (pte_pfn e) ?r, ())"
    using raw(3) pr by (simp add: protect_entry_attr e pte_set_attr_def)
  moreover have "protect_entry perm (pte_set (pte_pfn e) ?r) () = Inl Panic"
    by (simp add: protect_entry_def none unwrap_def)
  ultimately show ?thesis using none by blast
qed

theorem protect_write_only_witness:
  "\<exists>st :: frames. \<exists>e st' e'. pte_set_anonymous False 0 st = Inr (e, st') \<and>
     protect_entry \<lparr>pm_read = False, pm_write = True, pm_execute = False\<rparr> e () = Inr (e', ()) \<and>
     protect_entry \<lparr>pm_read = True, pm_write = True, pm_execute = False\<rparr> e' () = Inl Panic"
proof -
  obtain st0 :: frames where "pages_own st0 {#fr_empty st0#}" by (rule sample_frames)
  define st :: frames where "st = st0\<lparr>fr_empty := 7\<rparr>"
  have e: "pte_set_anonymous False 0 st = Inr (pte_set 7 (PA_V OR PA_R OR PA_U OR PA_COW), page_clone st 7)"
    by (simp add: pte_set_anonymous_def attr_put_def without_def attr_defs has_flag_def raw_of_page_attr_def bit_if_def
        PA_V_def PA_R_def PA_U_def PA_COW_def st_def)
  have "fr_empty st < 2 ^ 54" by (simp add: st_def)
  from protect_write_only [OF e this] e show ?thesis by blast
qed

end
