(* ===== verification/Signals.thy ===== *)
theory Signals
  imports User_Mem Address "HOL-Library.Multiset"
begin

unbundle bit_operations_syntax

text \<open>
  Signals (\<open>crates/posix_types/src/signal\<close>, \<open>src/kernel/task/signal.rs\<close>,
  \<open>src/kernel/task/signal/signal_action.rs\<close>) and the system calls on them
  (\<open>src/kernel/syscall/procops.rs\<close>), with the saved user context of RISC-V
  (\<open>trap_context.rs\<close>, \<open>fpu.rs\<close>).

  A signal list belongs to a thread; the dispositions it refers to may be shared, so they are in
  a store and the list has the reference. The binary heap of pending signals is the sorted list of
  its elements. Blocking in \<open>handle\<close> ends the run of the model with the reason; the thread
  continues at the head of the loop.
\<close>

section \<open>Signals and signal sets\<close>

text \<open>A signal is its number, a \<open>u32\<close>.\<close>

type_synonym signal = nat

definition SIGHUP :: signal where "SIGHUP = 1"
definition SIGINT :: signal where "SIGINT = 2"
definition SIGQUIT :: signal where "SIGQUIT = 3"
definition SIGKILL :: signal where "SIGKILL = 9"
definition SIGSEGV :: signal where "SIGSEGV = 11"
definition SIGPIPE :: signal where "SIGPIPE = 13"
definition SIGCHLD :: signal where "SIGCHLD = 17"
definition SIGCONT :: signal where "SIGCONT = 18"
definition SIGSTOP :: signal where "SIGSTOP = 19"
definition SIGTSTP :: signal where "SIGTSTP = 20"
definition SIGTTIN :: signal where "SIGTTIN = 21"
definition SIGTTOU :: signal where "SIGTTOU = 22"
definition SIGURG :: signal where "SIGURG = 23"
definition SIGWINCH :: signal where "SIGWINCH = 28"
definition SIGSYS :: signal where "SIGSYS = 31"
definition SIGNUM_MAX :: nat where "SIGNUM_MAX = 64"

lemmas signal_defs = SIGHUP_def SIGINT_def SIGQUIT_def SIGKILL_def SIGSEGV_def SIGPIPE_def SIGCHLD_def SIGCONT_def
  SIGSTOP_def SIGTSTP_def SIGTTIN_def SIGTTOU_def SIGURG_def SIGWINCH_def SIGSYS_def

definition signal_try_from_raw :: "nat \<Rightarrow> signal res" where
  "signal_try_from_raw signo = (if signo < SIGNUM_MAX then Inr signo else Inl (Errno EINVAL))"

definition signal_ignore :: "signal \<Rightarrow> bool" where
  "signal_ignore s \<longleftrightarrow> s = SIGCHLD \<or> s = SIGURG \<or> s = SIGWINCH"

definition signal_now :: "signal \<Rightarrow> bool" where
  "signal_now s \<longleftrightarrow> s = SIGKILL \<or> s = SIGSTOP"

definition signal_stop :: "signal \<Rightarrow> bool" where
  "signal_stop s \<longleftrightarrow> s = SIGSTOP \<or> s = SIGTSTP \<or> s = SIGTTIN \<or> s = SIGTTOU"

type_synonym sig_set = u64

definition sigset_empty :: sig_set where "sigset_empty = 0"

definition sigset_mask :: "sig_set \<Rightarrow> sig_set \<Rightarrow> sig_set" where
  "sigset_mask self m = self OR m"

definition sigset_unmask :: "sig_set \<Rightarrow> sig_set \<Rightarrow> sig_set" where
  "sigset_unmask self m = self AND NOT m"

text \<open>The difference is a \<open>u32\<close>, and the shift of a \<open>u64\<close> takes its amount modulo 64.\<close>

definition sigset_from :: "signal \<Rightarrow> sig_set" where
  "sigset_from s = sigset_mask sigset_empty (push_bit ((s + 2 ^ 32 - 1) mod 2 ^ 32 mod 64) 1)"

definition sigset_include :: "sig_set \<Rightarrow> signal \<Rightarrow> bool" where
  "sigset_include self s \<longleftrightarrow> self AND sigset_from s \<noteq> 0"

section \<open>Dispositions\<close>

definition HANDLER_DEFAULT :: usize where "HANDLER_DEFAULT = 0"
definition HANDLER_IGNORE :: usize where "HANDLER_IGNORE = 1"
definition SA_SIGINFO :: u64 where "SA_SIGINFO = 4"

record sig_action =
  sa_handler :: usize
  sa_flags :: u64
  sa_mask :: sig_set

definition sa_default :: sig_action where
  "sa_default = \<lparr>sa_handler = HANDLER_DEFAULT, sa_flags = 0, sa_mask = sigset_empty\<rparr>"

definition sa_ignore :: sig_action where
  "sa_ignore = \<lparr>sa_handler = HANDLER_IGNORE, sa_flags = 0, sa_mask = sigset_empty\<rparr>"

definition sa_new :: sig_action where
  "sa_new = \<lparr>sa_handler = 0, sa_flags = 0, sa_mask = sigset_empty\<rparr>"

definition sa_restorer :: "sig_action \<Rightarrow> usize \<Rightarrow> sig_action" where
  "sa_restorer self restorer = self"

record simple_handler =
  sh_handler :: usize
  sh_restorer :: "usize option"
  sh_mask :: sig_set
  sh_siginfo :: bool

datatype signal_action = ActDefault | ActIgnore | ActSimple simple_handler

definition act_new :: signal_action where
  "act_new = ActSimple \<lparr>sh_handler = 0, sh_restorer = None, sh_mask = sigset_empty, sh_siginfo = False\<rparr>"

fun act_set_siginfo :: "signal_action \<Rightarrow> signal_action res" where
  "act_set_siginfo (ActSimple h) = Inr (ActSimple (h\<lparr>sh_siginfo := True\<rparr>))"
| "act_set_siginfo _ = Inl Panic"

fun act_handler :: "signal_action \<Rightarrow> usize \<Rightarrow> signal_action res" where
  "act_handler (ActSimple h) new_handler = Inr (ActSimple (h\<lparr>sh_handler := new_handler\<rparr>))"
| "act_handler _ _ = Inl Panic"

fun act_restorer :: "signal_action \<Rightarrow> usize \<Rightarrow> signal_action res" where
  "act_restorer (ActSimple h) new_restorer = Inr (ActSimple (h\<lparr>sh_restorer := Some new_restorer\<rparr>))"
| "act_restorer _ _ = Inl Panic"

fun act_mask :: "signal_action \<Rightarrow> sig_set \<Rightarrow> signal_action res" where
  "act_mask (ActSimple h) new_mask = Inr (ActSimple (h\<lparr>sh_mask := new_mask\<rparr>))"
| "act_mask _ _ = Inl Panic"

text \<open>\<open>SigAction::try_into\<close> for \<open>SignalAction\<close>.\<close>

definition sa_try_into :: "sig_action \<Rightarrow> signal_action res" where
  "sa_try_into self =
     (if sa_handler self = HANDLER_DEFAULT then Inr ActDefault
      else if sa_handler self = HANDLER_IGNORE then Inr ActIgnore
      else
        rbind (if sa_flags self AND SA_SIGINFO = SA_SIGINFO then act_set_siginfo act_new else Inr act_new) (\<lambda>action.
        rbind (act_handler action (sa_handler self)) (\<lambda>action.
          act_mask action (sa_mask self))))"

fun sa_from :: "signal_action \<Rightarrow> sig_action" where
  "sa_from ActDefault = sa_default"
| "sa_from ActIgnore = sa_ignore"
| "sa_from (ActSimple h) =
     (let action = sa_new\<lparr>sa_handler := sh_handler h, sa_mask := sh_mask h\<rparr>
      in case sh_restorer h of Some restorer \<Rightarrow> sa_restorer action restorer | None \<Rightarrow> action)"

text \<open>\<open>SignalActionList\<close>: the map without its lock. The store holds the shared lists.\<close>

type_synonym action_list = "signal \<Rightarrow> signal_action option"

record action_store =
  as_lists :: "nat \<Rightarrow> action_list"
  as_next :: nat

definition al_new :: action_list where
  "al_new = (\<lambda>_. None)"

definition al_set :: "action_list \<Rightarrow> signal \<Rightarrow> signal_action \<Rightarrow> action_list" where
  "al_set self s action = (case action of ActDefault \<Rightarrow> self(s := None) | _ \<Rightarrow> self(s := Some action))"

definition al_get :: "action_list \<Rightarrow> signal \<Rightarrow> signal_action" where
  "al_get self s = (case self s of None \<Rightarrow> ActDefault | Some action \<Rightarrow> action)"

definition al_remove_non_ignore :: "action_list \<Rightarrow> action_list" where
  "al_remove_non_ignore self = (\<lambda>s. if self s = Some ActIgnore then self s else None)"

definition store_alloc :: "action_list \<Rightarrow> action_store \<Rightarrow> nat \<times> action_store" where
  "store_alloc l st = (as_next st, st\<lparr>as_lists := (as_lists st)(as_next st := l), as_next := as_next st + 1\<rparr>)"

definition al_new_shared :: "nat \<Rightarrow> action_store \<Rightarrow> nat \<times> action_store" where
  "al_new_shared other st = (other, st)"

definition al_new_cloned :: "nat \<Rightarrow> action_store \<Rightarrow> nat \<times> action_store" where
  "al_new_cloned other st = store_alloc (as_lists st other) st"

section \<open>The saved user context\<close>

text \<open>\<open>Registers\<close> in the order of the structure.\<close>

datatype reg = Rtp | Rra | Rsp | Rgp | Ra0 | Ra1 | Ra2 | Ra3 | Ra4 | Rt1 | Ra5 | Ra6 | Ra7 | Rt3 | Rt4 | Rt5 |
  Rt2 | Rt6 | Rs0 | Rs1 | Rs2 | Rs3 | Rs4 | Rs5 | Rs6 | Rs7 | Rs8 | Rs9 | Rs10 | Rs11 | Rt0

definition registers :: "reg list" where
  "registers = [Rtp, Rra, Rsp, Rgp, Ra0, Ra1, Ra2, Ra3, Ra4, Rt1, Ra5, Ra6, Ra7, Rt3, Rt4, Rt5,
     Rt2, Rt6, Rs0, Rs1, Rs2, Rs3, Rs4, Rs5, Rs6, Rs7, Rs8, Rs9, Rs10, Rs11, Rt0]"

fun offset_of :: "reg \<Rightarrow> nat" where
  "offset_of Rtp = 0" | "offset_of Rra = 8" | "offset_of Rsp = 16" | "offset_of Rgp = 24"
| "offset_of Ra0 = 32" | "offset_of Ra1 = 40" | "offset_of Ra2 = 48" | "offset_of Ra3 = 56"
| "offset_of Ra4 = 64" | "offset_of Rt1 = 72" | "offset_of Ra5 = 80" | "offset_of Ra6 = 88"
| "offset_of Ra7 = 96" | "offset_of Rt3 = 104" | "offset_of Rt4 = 112" | "offset_of Rt5 = 120"
| "offset_of Rt2 = 128" | "offset_of Rt6 = 136" | "offset_of Rs0 = 144" | "offset_of Rs1 = 152"
| "offset_of Rs2 = 160" | "offset_of Rs3 = 168" | "offset_of Rs4 = 176" | "offset_of Rs5 = 184"
| "offset_of Rs6 = 192" | "offset_of Rs7 = 200" | "offset_of Rs8 = 208" | "offset_of Rs9 = 216"
| "offset_of Rs10 = 224" | "offset_of Rs11 = 232" | "offset_of Rt0 = 240"

definition OFFSET_SSTATUS :: nat where "OFFSET_SSTATUS = 248"
definition OFFSET_SEPC :: nat where "OFFSET_SEPC = 256"
definition OFFSET_SCAUSE :: nat where "OFFSET_SCAUSE = 264"
definition OFFSET_STVAL :: nat where "OFFSET_STVAL = 272"

record trap_context =
  tc_regs :: "reg \<Rightarrow> u64"
  tc_sstatus :: u64
  tc_sepc :: u64
  tc_scause :: u64
  tc_stval :: u64

record fpu_state =
  fs_f :: "u64 list"
  fs_fcsr :: u32

text \<open>The fields of \<open>sstatus\<close> are read by the package \<open>riscv\<close>: whether \<open>SPP\<close> is user mode, and \<open>SPIE\<close>.\<close>

record sstatus_ops =
  ss_spp_user :: "u64 \<Rightarrow> bool"
  ss_spie :: "u64 \<Rightarrow> bool"

definition set_thread_pointer :: "trap_context \<Rightarrow> u64 \<Rightarrow> trap_context" where
  "set_thread_pointer c tp = c\<lparr>tc_regs := (tc_regs c)(Rtp := tp)\<rparr>"

definition syscall_no :: "trap_context \<Rightarrow> usize" where
  "syscall_no c = unat (tc_regs c Ra7)"

definition syscall_args :: "trap_context \<Rightarrow> usize list" where
  "syscall_args c = map (\<lambda>r. unat (tc_regs c r)) [Ra0, Ra1, Ra2, Ra3, Ra4, Ra5]"

definition get_program_counter :: "trap_context \<Rightarrow> usize" where
  "get_program_counter c = unat (tc_sepc c)"

definition get_stack_pointer :: "trap_context \<Rightarrow> usize" where
  "get_stack_pointer c = unat (tc_regs c Rsp)"

definition set_program_counter :: "trap_context \<Rightarrow> usize \<Rightarrow> trap_context" where
  "set_program_counter c pc = c\<lparr>tc_sepc := of_nat pc\<rparr>"

definition set_stack_pointer :: "trap_context \<Rightarrow> usize \<Rightarrow> trap_context" where
  "set_stack_pointer c sp = c\<lparr>tc_regs := (tc_regs c)(Rsp := of_nat sp)\<rparr>"

definition is_interrupt_enabled :: "sstatus_ops \<Rightarrow> trap_context \<Rightarrow> bool" where
  "is_interrupt_enabled ops c = ss_spie ops (tc_sstatus c)"

definition is_user_mode :: "sstatus_ops \<Rightarrow> trap_context \<Rightarrow> bool" where
  "is_user_mode ops c = ss_spp_user ops (tc_sstatus c)"

definition set_user_return_value :: "trap_context \<Rightarrow> usize \<Rightarrow> trap_context" where
  "set_user_return_value c retval = c\<lparr>tc_regs := (tc_regs c)(Ra0 := of_nat retval)\<rparr>"

fun set_arg_regs :: "(reg \<Rightarrow> u64) \<Rightarrow> usize list \<Rightarrow> reg list \<Rightarrow> (reg \<Rightarrow> u64)" where
  "set_arg_regs regs (a # as) (r # rs) = set_arg_regs (regs(r := of_nat a)) as rs"
| "set_arg_regs regs _ _ = regs"

definition set_user_call_frame ::
  "trap_context \<Rightarrow> usize \<Rightarrow> usize option \<Rightarrow> usize option \<Rightarrow> usize list \<Rightarrow> trap_context" where
  "set_user_call_frame c pc sp ra args =
     (let c = set_program_counter c pc;
          c = (case sp of Some sp \<Rightarrow> set_stack_pointer c sp | None \<Rightarrow> c);
          c = (case ra of Some ra \<Rightarrow> c\<lparr>tc_regs := (tc_regs c)(Rra := of_nat ra)\<rparr> | None \<Rightarrow> c)
      in c\<lparr>tc_regs := set_arg_regs (tc_regs c) args [Ra0, Ra1, Ra2, Ra3, Ra4, Ra5]\<rparr>)"

subsection \<open>Representations\<close>

definition le_bytes :: "nat \<Rightarrow> u64 \<Rightarrow> bytes" where
  "le_bytes n w = map (\<lambda>i. ucast (drop_bit (8 * i) w)) [0..<n]"

fun of_le :: "bytes \<Rightarrow> u64" where
  "of_le [] = 0"
| "of_le (b # bs) = ucast b OR push_bit 8 (of_le bs)"

definition field :: "nat \<Rightarrow> bytes \<Rightarrow> u64" where
  "field off bs = of_le (take 8 (drop off bs))"

text \<open>The structures are aligned to 16 and to 8 bytes; \<open>pad\<close> gives the bytes of the padding.\<close>

definition tc_bytes :: "(nat \<Rightarrow> u8) \<Rightarrow> trap_context \<Rightarrow> bytes" where
  "tc_bytes pad c =
     concat (map (\<lambda>r. le_bytes 8 (tc_regs c r)) registers) @
     le_bytes 8 (tc_sstatus c) @ le_bytes 8 (tc_sepc c) @ le_bytes 8 (tc_scause c) @ le_bytes 8 (tc_stval c) @
     map pad [0..<8]"

definition tc_of_bytes :: "bytes \<Rightarrow> trap_context" where
  "tc_of_bytes bs =
     \<lparr>tc_regs = (\<lambda>r. field (offset_of r) bs), tc_sstatus = field OFFSET_SSTATUS bs, tc_sepc = field OFFSET_SEPC bs,
      tc_scause = field OFFSET_SCAUSE bs, tc_stval = field OFFSET_STVAL bs\<rparr>"

definition fs_bytes :: "(nat \<Rightarrow> u8) \<Rightarrow> fpu_state \<Rightarrow> bytes" where
  "fs_bytes pad f = concat (map (le_bytes 8) (fs_f f)) @ le_bytes 4 (ucast (fs_fcsr f)) @ map pad [0..<4]"

definition fs_of_bytes :: "bytes \<Rightarrow> fpu_state" where
  "fs_of_bytes bs =
     \<lparr>fs_f = map (\<lambda>i. field (8 * i) bs) [0..<32], fs_fcsr = ucast (of_le (take 4 (drop 256 bs)))\<rparr>"

definition SIZE_TRAP_CONTEXT :: nat where "SIZE_TRAP_CONTEXT = 288"
definition SIZE_FPU_STATE :: nat where "SIZE_FPU_STATE = 264"
definition SIZE_SIG_SET :: nat where "SIZE_SIG_SET = 8"

definition SAVED_DATA_SIZE :: nat where
  "SAVED_DATA_SIZE = SIZE_TRAP_CONTEXT + SIZE_FPU_STATE + SIZE_SIG_SET"

section \<open>Delivery to a handler\<close>

text \<open>\<open>buffer.copy(object)?.ok_or(EFAULT)?\<close>. Bytes stored before a fault stay in memory.\<close>

definition ubuf_copy :: "umem \<Rightarrow> user_buffer \<Rightarrow> bytes \<Rightarrow> umem \<times> user_buffer res" where
  "ubuf_copy m b object =
     (case buffer_copy ubuf_fill (m, b) object of
        Inr ((m, b), r) \<Rightarrow> (m, rmap (\<lambda>_. b) (fill_ok_or r EFAULT))
      | Inl e \<Rightarrow> (fst (cup_write m (ubuf_ptr b) (\<lambda>i. object ! i) (min (length object) (ubuf_remaining b))), Inl e))"

text \<open>The three copies of \<open>SignalAction::handle\<close>.\<close>

fun copy_all :: "umem \<Rightarrow> user_buffer \<Rightarrow> bytes list \<Rightarrow> umem \<times> unit res" where
  "copy_all m b [] = (m, Inr ())"
| "copy_all m b (x # xs) =
     (case ubuf_copy m b x of (m, Inl e) \<Rightarrow> (m, Inl e) | (m, Inr b) \<Rightarrow> copy_all m b xs)"

text \<open>\<open>vdso\<close> is the address of the mapped return trampoline.\<close>

definition act_handle ::
  "usize \<Rightarrow> (nat \<Rightarrow> u8) \<Rightarrow> signal_action \<Rightarrow> signal \<Rightarrow> sig_set \<Rightarrow> trap_context \<Rightarrow> fpu_state \<Rightarrow> umem \<Rightarrow>
   umem \<times> trap_context res" where
  "act_handle vdso pad action s old_mask c f m =
     (case action of
        ActSimple h \<Rightarrow>
          let saved_data_addr = floor_to (usub (get_stack_pointer c) SAVED_DATA_SIZE) 16
          in (case ubuf_new saved_data_addr SAVED_DATA_SIZE of
                Inl e \<Rightarrow> (m, Inl e)
              | Inr buf \<Rightarrow>
                  (case copy_all m buf [tc_bytes pad c, fs_bytes pad f, le_bytes 8 old_mask] of
                     (m, Inl e) \<Rightarrow> (m, Inl e)
                   | (m, Inr _) \<Rightarrow>
                       let return_address = (case sh_restorer h of Some restorer \<Rightarrow> restorer | None \<Rightarrow> vdso);
                           args = take (if sh_siginfo h then 3 else 1) [s, 0, 0]
                       in (m, Inr (set_user_call_frame c (sh_handler h) (Some saved_data_addr)
                                     (Some return_address) args))))
      | _ \<Rightarrow> (m, Inl Panic))"

section \<open>The signal list\<close>

record signal_list =
  sl_mask :: sig_set
  sl_pending :: "signal list"
  sl_signal_waker :: bool
  sl_stop_waker :: bool
  sl_actions :: nat

datatype wake = NoWake | WakeSignal | WakeStop

definition sl_new :: "action_store \<Rightarrow> signal_list \<times> action_store" where
  "sl_new st = (case store_alloc al_new st of (a, st) \<Rightarrow>
     (\<lparr>sl_mask = sigset_empty, sl_pending = [], sl_signal_waker = False, sl_stop_waker = False, sl_actions = a\<rparr>, st))"

definition sl_clone :: "signal_list \<Rightarrow> signal_list" where
  "sl_clone self =
     \<lparr>sl_mask = sl_mask self, sl_pending = [], sl_signal_waker = False, sl_stop_waker = False, sl_actions = sl_actions self\<rparr>"

definition sl_new_cloned :: "signal_list \<Rightarrow> action_store \<Rightarrow> signal_list \<times> action_store" where
  "sl_new_cloned other st = (case al_new_cloned (sl_actions other) st of (a, st) \<Rightarrow>
     (\<lparr>sl_mask = sl_mask other, sl_pending = [], sl_signal_waker = False, sl_stop_waker = False, sl_actions = a\<rparr>, st))"

definition sl_new_shared :: "signal_list \<Rightarrow> action_store \<Rightarrow> signal_list \<times> action_store" where
  "sl_new_shared other st = (case al_new_shared (sl_actions other) st of (a, st) \<Rightarrow>
     (\<lparr>sl_mask = sl_mask other, sl_pending = [], sl_signal_waker = False, sl_stop_waker = False, sl_actions = a\<rparr>, st))"

definition sl_pop :: "signal_list \<Rightarrow> signal_list \<times> signal option" where
  "sl_pop self =
     (case sl_pending self of [] \<Rightarrow> (self, None) | s # rest \<Rightarrow> (self\<lparr>sl_pending := rest\<rparr>, Some s))"

definition sl_raise :: "action_store \<Rightarrow> signal \<Rightarrow> signal_list \<Rightarrow> signal_list \<times> wake" where
  "sl_raise st s self =
     (let action = al_get (as_lists st (sl_actions self)) s
      in if action = ActIgnore then (self, NoWake)
         else if signal_ignore s \<and> action = ActDefault then (self, NoWake)
         else
           let self = self\<lparr>sl_mask := sigset_mask (sl_mask self) (sigset_from s),
                           sl_pending := insort s (sl_pending self)\<rparr>
           in if s = SIGCONT then
                (self\<lparr>sl_stop_waker := False\<rparr>, if sl_stop_waker self then WakeStop else NoWake)
              else
                (self\<lparr>sl_signal_waker := False\<rparr>, if sl_signal_waker self then WakeSignal else NoWake))"

definition sl_set_mask :: "sig_set \<Rightarrow> signal_list \<Rightarrow> signal_list" where
  "sl_set_mask m self = self\<lparr>sl_mask := m\<rparr>"

definition sl_add_mask :: "sig_set \<Rightarrow> signal_list \<Rightarrow> signal_list" where
  "sl_add_mask m self = self\<lparr>sl_mask := sigset_mask (sl_mask self) m\<rparr>"

definition sl_unmask :: "sig_set \<Rightarrow> signal_list \<Rightarrow> signal_list" where
  "sl_unmask m self = self\<lparr>sl_mask := sigset_unmask (sl_mask self) m\<rparr>"

definition store_update :: "nat \<Rightarrow> (action_list \<Rightarrow> action_list) \<Rightarrow> action_store \<Rightarrow> action_store" where
  "store_update a f st = st\<lparr>as_lists := (as_lists st)(a := f (as_lists st a))\<rparr>"

definition sl_set_action :: "signal \<Rightarrow> signal_action \<Rightarrow> signal_list \<Rightarrow> action_store \<Rightarrow> action_store res" where
  "sl_set_action s action self st =
     (if signal_now s then Inl (Errno EINVAL)
      else Inr (store_update (sl_actions self) (\<lambda>l. al_set l s action) st))"

definition sl_get_action :: "signal \<Rightarrow> signal_list \<Rightarrow> action_store \<Rightarrow> signal_action" where
  "sl_get_action s self st = al_get (as_lists st (sl_actions self)) s"

definition sl_set_signal_waker :: "bool \<Rightarrow> signal_list \<Rightarrow> signal_list" where
  "sl_set_signal_waker waker self = self\<lparr>sl_signal_waker := waker\<rparr>"

definition sl_clear_non_ignore :: "signal_list \<Rightarrow> action_store \<Rightarrow> action_store" where
  "sl_clear_non_ignore self st = store_update (sl_actions self) al_remove_non_ignore st"

definition sl_clear_pending :: "signal_list \<Rightarrow> signal_list" where
  "sl_clear_pending self = self\<lparr>sl_pending := []\<rparr>"

definition sl_has_pending_signal :: "signal_list \<Rightarrow> bool" where
  "sl_has_pending_signal self \<longleftrightarrow> sl_pending self \<noteq> []"

text \<open>How a run of \<open>handle\<close> ends: it returns to the thread, panics, blocks in a stop (the parent is notified and
  the stop waker set), or terminates the thread with \<open>force_kill\<close>.\<close>

datatype handled = Returned | Panicked | Stopping signal | Killed signal

record handle_state =
  hs_list :: signal_list
  hs_ctx :: trap_context
  hs_fpu :: fpu_state
  hs_mem :: umem

partial_function (option) sl_handle ::
  "usize \<Rightarrow> (nat \<Rightarrow> u8) \<Rightarrow> action_store \<Rightarrow> handle_state \<Rightarrow> (handled \<times> handle_state) option" where
  "sl_handle vdso pad st hs =
     (case sl_pop (hs_list hs) of
        (l, None) \<Rightarrow> Some (Returned, hs)
      | (l, Some s) \<Rightarrow>
          (case al_get (as_lists st (sl_actions l)) s of
             ActSimple h \<Rightarrow>
               (let old_mask = sl_mask l;
                    l = sl_add_mask (sh_mask h) l
                in case act_handle vdso pad (ActSimple h) s old_mask (hs_ctx hs) (hs_fpu hs) (hs_mem hs) of
                     (m, Inr c) \<Rightarrow> Some (Returned, hs\<lparr>hs_list := l, hs_ctx := c, hs_mem := m\<rparr>)
                   | (m, Inl Panic) \<Rightarrow> Some (Panicked, hs\<lparr>hs_list := l, hs_mem := m\<rparr>)
                   | (m, Inl (Errno e)) \<Rightarrow>
                       sl_handle vdso pad st
                         (hs\<lparr>hs_list := fst (sl_raise st (if e = EFAULT then SIGSEGV else SIGSYS) (l\<lparr>sl_mask := old_mask\<rparr>)),
                             hs_mem := m\<rparr>))
           | _ \<Rightarrow>
               (let l = sl_unmask (sigset_from s) l; hs = hs\<lparr>hs_list := l\<rparr>
                in if signal_ignore s \<or> s = SIGCONT then sl_handle vdso pad st hs
                   else if signal_stop s then
                     (if sl_stop_waker l then Some (Panicked, hs)
                      else Some (Stopping s, hs\<lparr>hs_list := l\<lparr>sl_stop_waker := True\<rparr>\<rparr>))
                   else Some (Killed s, hs))))"

text \<open>\<open>SignalList::restore\<close>; the context and the floating-point state are replaced as far as it gets.\<close>

definition up_read_at :: "umem \<Rightarrow> nat \<Rightarrow> usize \<Rightarrow> bytes res" where
  "up_read_at m sz addr = rbind (up_new sz addr) (up_read m sz)"

definition sl_restore :: "sstatus_ops \<Rightarrow> handle_state \<Rightarrow> handle_state \<times> unit res" where
  "sl_restore ops hs =
     (let old_trap_ctx_vaddr = get_stack_pointer (hs_ctx hs);
          old_fpu_state_vaddr = uadd old_trap_ctx_vaddr SIZE_TRAP_CONTEXT;
          old_mask_vaddr = uadd old_fpu_state_vaddr SIZE_FPU_STATE
      in case up_read_at (hs_mem hs) SIZE_TRAP_CONTEXT old_trap_ctx_vaddr of
           Inl e \<Rightarrow> (hs, Inl e)
         | Inr bs \<Rightarrow>
             let hs = hs\<lparr>hs_ctx := tc_of_bytes bs\<rparr>
             in if \<not> is_user_mode ops (hs_ctx hs) \<or> \<not> is_interrupt_enabled ops (hs_ctx hs) then (hs, Inl (Errno EFAULT))
                else case up_read_at (hs_mem hs) SIZE_FPU_STATE old_fpu_state_vaddr of
                  Inl e \<Rightarrow> (hs, Inl e)
                | Inr bs \<Rightarrow>
                    let hs = hs\<lparr>hs_fpu := fs_of_bytes bs\<rparr>
                    in case up_read_at (hs_mem hs) SIZE_SIG_SET old_mask_vaddr of
                      Inl e \<Rightarrow> (hs, Inl e)
                    | Inr bs \<Rightarrow> (hs\<lparr>hs_list := sl_set_mask (of_le bs) (hs_list hs)\<rparr>, Inr ()))"

section \<open>System calls\<close>

definition up_write_at :: "umem \<Rightarrow> usize \<Rightarrow> bytes \<Rightarrow> umem \<times> unit res" where
  "up_write_at m addr bs = (case up_new (length bs) addr of Inl e \<Rightarrow> (m, Inl e) | Inr p \<Rightarrow> up_write m p bs)"

definition SIG_BLOCK :: nat where "SIG_BLOCK = 0"
definition SIG_UNBLOCK :: nat where "SIG_UNBLOCK = 1"
definition SIG_SETMASK :: nat where "SIG_SETMASK = 2"

definition rt_sigprocmask ::
  "nat \<Rightarrow> usize \<Rightarrow> usize \<Rightarrow> usize \<Rightarrow> signal_list \<Rightarrow> umem \<Rightarrow> signal_list \<times> umem \<times> unit res" where
  "rt_sigprocmask how sset oldset sigsetsize l m =
     (if sigsetsize \<noteq> SIZE_SIG_SET then (l, m, Inl (Errno EINVAL))
      else
        let old_mask = sl_mask l
        in case (if \<not> user_is_null oldset then up_write_at m oldset (le_bytes 8 old_mask) else (m, Inr ())) of
             (m, Inl e) \<Rightarrow> (l, m, Inl e)
           | (m, Inr _) \<Rightarrow>
               if user_is_null sset then (l, m, Inr ())
               else case up_read_at m SIZE_SIG_SET sset of
                 Inl e \<Rightarrow> (l, m, Inl e)
               | Inr bs \<Rightarrow>
                   let new_mask = of_le bs
                   in if how = SIG_BLOCK then (sl_add_mask new_mask l, m, Inr ())
                      else if how = SIG_UNBLOCK then (sl_unmask new_mask l, m, Inr ())
                      else if how = SIG_SETMASK then (sl_set_mask new_mask l, m, Inr ())
                      else (l, m, Inl (Errno EINVAL)))"

text \<open>\<open>rt_sigsuspend\<close> up to its loop, one test of the loop (\<open>None\<close>: it sleeps), and its end.\<close>

definition rt_sigsuspend_begin :: "usize \<Rightarrow> usize \<Rightarrow> signal_list \<Rightarrow> umem \<Rightarrow> (signal_list \<times> sig_set) res" where
  "rt_sigsuspend_begin msk sigsetsize l m =
     (if sigsetsize \<noteq> SIZE_SIG_SET then Inl (Errno EINVAL)
      else rbind (up_read_at m SIZE_SIG_SET msk) (\<lambda>bs. Inr (sl_set_mask (of_le bs) l, sl_mask l)))"

definition rt_sigsuspend_poll :: "sig_set \<Rightarrow> signal_list \<Rightarrow> (signal_list \<times> unit res) option" where
  "rt_sigsuspend_poll old_mask l =
     (if \<not> sl_has_pending_signal l then None else Some (sl_set_mask old_mask l, Inl (Errno EINTR)))"

definition sa_bytes :: "sig_action \<Rightarrow> bytes" where
  "sa_bytes a = le_bytes 8 (of_nat (sa_handler a)) @ le_bytes 8 (sa_flags a) @ le_bytes 8 (sa_mask a)"

definition sa_of_bytes :: "bytes \<Rightarrow> sig_action" where
  "sa_of_bytes bs = \<lparr>sa_handler = unat (field 0 bs), sa_flags = field 8 bs, sa_mask = field 16 bs\<rparr>"

definition rt_sigaction ::
  "nat \<Rightarrow> usize \<Rightarrow> usize \<Rightarrow> usize \<Rightarrow> signal_list \<Rightarrow> action_store \<Rightarrow> umem \<Rightarrow> action_store \<times> umem \<times> unit res" where
  "rt_sigaction signum act oldact sigsetsize l st m =
     (case signal_try_from_raw signum of
        Inl e \<Rightarrow> (st, m, Inl e)
      | Inr s \<Rightarrow>
          if sigsetsize \<noteq> 8 then (st, m, Inl (Errno EINVAL))
          else if signal_now s then (st, m, Inl (Errno EINVAL))
          else
            let old_action = sl_get_action s l st
            in case (if \<not> user_is_null oldact then up_write_at m oldact (sa_bytes (sa_from old_action)) else (m, Inr ())) of
                 (m, Inl e) \<Rightarrow> (st, m, Inl e)
               | (m, Inr _) \<Rightarrow>
                   if user_is_null act then (st, m, Inr ())
                   else case rbind (up_read_at m 24 act) (\<lambda>bs.
                          rbind (sa_try_into (sa_of_bytes bs)) (\<lambda>action. sl_set_action s action l st)) of
                     Inl e \<Rightarrow> (st, m, Inl e)
                   | Inr st \<Rightarrow> (st, m, Inr ()))"

section \<open>Representations are faithful\<close>

lemma le_bytes_Suc: "le_bytes (Suc n) w = ucast w # le_bytes n (drop_bit 8 w)"
proof -
  have "[0..<Suc n] = 0 # map Suc [0..<n]" by (simp add: map_Suc_upt upt_conv_Cons del: upt_Suc)
  then show ?thesis unfolding le_bytes_def by (simp add: add.commute del: upt_Suc)
qed

lemma length_le_bytes [simp]: "length (le_bytes n w) = n"
  by (simp add: le_bytes_def)

lemma of_le_le_bytes: "of_le (le_bytes n w) = take_bit (8 * n) w"
proof (induction n arbitrary: w)
  case 0
  then show ?case by (simp add: le_bytes_def)
next
  case (Suc n)
  have "ucast (ucast w :: u8) OR push_bit 8 (take_bit (8 * n) (drop_bit 8 w)) = take_bit (8 * Suc n) w"
    by (rule bit_word_eqI) (auto simp: bit_simps)
  then show ?case by (simp add: le_bytes_Suc Suc)
qed

lemma of_le_word [simp]: "of_le (le_bytes 8 w) = w"
  by (simp add: of_le_le_bytes take_bit_word_eq_self)

lemma of_le_word32 [simp]: "ucast (of_le (le_bytes 4 (ucast (x :: u32)))) = x"
proof -
  have "ucast (take_bit 32 (ucast x :: u64)) = x" by (rule bit_word_eqI) (auto simp: bit_simps)
  then show ?thesis by (simp add: of_le_le_bytes)
qed

text \<open>A word of a structure whose words before it are \<open>xs\<close>.\<close>

lemma field_words:
  assumes "off = 8 * length xs"
  shows "field off (concat (map (le_bytes 8) xs) @ le_bytes 8 w @ rest) = w"
proof -
  have "length (concat (map (le_bytes 8) xs)) = off" using assms by (induction xs arbitrary: off) auto
  then show ?thesis by (simp add: field_def)
qed

lemma field_nth:
  assumes "i < length xs" and "off = 8 * i"
  shows "field off (concat (map (le_bytes 8) xs) @ rest) = xs ! i"
proof -
  have xs: "concat (map (le_bytes 8) xs) @ rest =
      concat (map (le_bytes 8) (take i xs)) @ le_bytes 8 (xs ! i) @ concat (map (le_bytes 8) (drop (Suc i) xs)) @ rest"
    using id_take_nth_drop [OF assms(1)] by (metis append.assoc concat.simps(2) concat_append list.simps(9) map_append)
  show ?thesis unfolding xs by (rule field_words) (use assms in simp)
qed

definition tc_words :: "trap_context \<Rightarrow> u64 list" where
  "tc_words c = map (tc_regs c) registers @ [tc_sstatus c, tc_sepc c, tc_scause c, tc_stval c]"

lemma tc_bytes_words: "tc_bytes pad c = concat (map (le_bytes 8) (tc_words c)) @ map pad [0..<8]"
  by (simp add: tc_bytes_def tc_words_def comp_def)

lemma offset_of_nth: "\<exists>i < 31. offset_of r = 8 * i \<and> registers ! i = r"
proof (cases r)
qed (auto simp: registers_def nth_Cons' intro: exI [of _ "offset_of r div 8"])

lemma length_words: "length (concat (map (le_bytes 8) xs)) = 8 * length xs"
  by (induction xs) auto

lemma length_tc_bytes: "length (tc_bytes pad c) = SIZE_TRAP_CONTEXT"
  by (simp add: tc_bytes_words length_words tc_words_def registers_def SIZE_TRAP_CONTEXT_def)

lemma length_fs_bytes: "length (fs_f f) = 32 \<Longrightarrow> length (fs_bytes pad f) = SIZE_FPU_STATE"
  by (simp add: fs_bytes_def length_words SIZE_FPU_STATE_def)

lemma tc_roundtrip: "tc_of_bytes (tc_bytes pad c) = c"
proof -
  have len: "length registers = 31" by (simp add: registers_def)
  have "field (offset_of r) (tc_bytes pad c) = tc_regs c r" for r
  proof -
    obtain i where i: "i < 31" "offset_of r = 8 * i" "registers ! i = r" using offset_of_nth by blast
    show ?thesis unfolding tc_bytes_words
      by (subst field_nth [of i]) (use i len in \<open>auto simp: tc_words_def nth_append\<close>)
  qed
  moreover have "field (8 * (31 + k)) (tc_bytes pad c) = [tc_sstatus c, tc_sepc c, tc_scause c, tc_stval c] ! k" if "k < 4" for k
    unfolding tc_bytes_words
    by (subst field_nth [of "31 + k"]) (use that len in \<open>auto simp: tc_words_def nth_append\<close>)
  from this [of 0] this [of 1] this [of 2] this [of 3]
  have "field 248 (tc_bytes pad c) = tc_sstatus c" "field 256 (tc_bytes pad c) = tc_sepc c"
    "field 264 (tc_bytes pad c) = tc_scause c" "field 272 (tc_bytes pad c) = tc_stval c" by simp_all
  ultimately show ?thesis
    by (simp add: tc_of_bytes_def OFFSET_SSTATUS_def OFFSET_SEPC_def OFFSET_SCAUSE_def OFFSET_STVAL_def)
qed

lemma fs_roundtrip:
  assumes "length (fs_f f) = 32"
  shows "fs_of_bytes (fs_bytes pad f) = f"
proof -
  have "field (8 * i) (fs_bytes pad f) = fs_f f ! i" if "i < 32" for i
    unfolding fs_bytes_def by (rule field_nth) (use that assms in simp_all)
  then have "map (\<lambda>i. field (8 * i) (fs_bytes pad f)) [0..<32] = fs_f f"
    using assms by (intro nth_equalityI) simp_all
  moreover have "take 4 (drop 256 (fs_bytes pad f)) = le_bytes 4 (ucast (fs_fcsr f))"
    by (simp add: fs_bytes_def length_words assms)
  ultimately show ?thesis by (simp add: fs_of_bytes_def)
qed

section \<open>The frame on the user stack\<close>

lemma stored_append:
  "stored (stored m a n f) (a + n) k g = stored m a (n + k) (\<lambda>i. if i < n then f i else g (i - n))"
proof -
  have "x - (a + n) = x - a - n" for x by simp
  then show ?thesis by (intro umem.equality) (auto simp: stored_def fun_eq_iff)
qed

lemma stored_cong: "(\<And>i. i < k \<Longrightarrow> f i = g i) \<Longrightarrow> stored m a k f = stored m a k g"
  by (intro umem.equality) (auto simp: stored_def fun_eq_iff)

lemma ubuf_copy_ok:
  assumes "ubuf_inv (m, b)" and "ubuf_copy m b x = (m', Inr b')" and "x \<noteq> []"
  shows "m' = stored m (cup_ptr (ubuf_ptr b)) (length x) (\<lambda>i. x ! i)" "ubuf_inv (m', b')"
    "cup_ptr (ubuf_ptr b') = cup_ptr (ubuf_ptr b) + length x"
    "\<forall>y. cup_ptr (ubuf_ptr b) \<le> y \<and> y < cup_ptr (ubuf_ptr b) + length x \<longrightarrow> um_writable m y"
proof -
  define n where "n = min (length x) (ubuf_size b - ubuf_cur b)"
  have fill: "ubuf_fill (m, b) x = Inr ((m', b'), Done n)" and len: "n = length x" and pre: "prefix_ok (um_writable m) (cup_ptr (ubuf_ptr b)) n = n"
    and m': "m' = stored m (cup_ptr (ubuf_ptr b)) n (\<lambda>i. x ! i)"
    and b': "b' = b\<lparr>ubuf_ptr := \<lparr>cup_ptr = cup_ptr (ubuf_ptr b) + n, cup_len = cup_len (ubuf_ptr b) - n\<rparr>, ubuf_cur := ubuf_cur b + n\<rparr>"
    using assms(2,3) ubuf_fill_cases [OF assms(1), of x]
    by (auto simp: ubuf_copy_def buffer_copy_def n_def [symmetric] split: if_splits sum.splits)
  from m' len show "m' = stored m (cup_ptr (ubuf_ptr b)) (length x) (\<lambda>i. x ! i)" by simp
  show "cup_ptr (ubuf_ptr b') = cup_ptr (ubuf_ptr b) + length x" using b' len by simp
  show "\<forall>y. cup_ptr (ubuf_ptr b) \<le> y \<and> y < cup_ptr (ubuf_ptr b) + length x \<longrightarrow> um_writable m y"
    using pre prefix_ok_all [of "um_writable m" "cup_ptr (ubuf_ptr b)" n] len by auto
  have "n \<le> ubuf_size b - ubuf_cur b" by (simp add: n_def)
  then show "ubuf_inv (m', b')" using assms(1) cup_forward_eq(2) [of "ubuf_ptr b" n]
    unfolding m' b' by (auto simp: ubuf_inv_def)
qed

lemma copy_all_ok:
  assumes "ubuf_inv (m, b)" and "copy_all m b xs = (m', Inr ())" and "[] \<notin> set xs"
  shows "m' = stored m (cup_ptr (ubuf_ptr b)) (length (concat xs)) (\<lambda>i. concat xs ! i)"
    "\<forall>y. cup_ptr (ubuf_ptr b) \<le> y \<and> y < cup_ptr (ubuf_ptr b) + length (concat xs) \<longrightarrow> um_writable m y"
  using assms
proof (induction xs arbitrary: m b)
  case (Cons x xs)
  {
    case 1
    then obtain m1 b1 where c: "ubuf_copy m b x = (m1, Inr b1)" "copy_all m1 b1 xs = (m', Inr ())"
      by (auto split: prod.splits sum.splits)
    note one = ubuf_copy_ok [OF 1(1) c(1)]
    have x: "x \<noteq> []" "[] \<notin> set xs" using 1 by auto
    have "m' = stored m1 (cup_ptr (ubuf_ptr b1)) (length (concat xs)) (\<lambda>i. concat xs ! i)"
      using Cons.IH(1) [OF one(2) [OF x(1)] c(2) x(2)] .
    then show ?case unfolding one(1) [OF x(1)] one(3) [OF x(1)] stored_append
      by (simp only: concat.simps length_append) (rule stored_cong, simp add: nth_append)
  next
    case 2
    then obtain m1 b1 where c: "ubuf_copy m b x = (m1, Inr b1)" "copy_all m1 b1 xs = (m', Inr ())"
      by (auto split: prod.splits sum.splits)
    note one = ubuf_copy_ok [OF 2(1) c(1)]
    have x: "x \<noteq> []" "[] \<notin> set xs" using 2 by auto
    have "um_writable m1 = um_writable m" using one(1) [OF x(1)] by simp
    then show ?case using Cons.IH(2) [OF one(2) [OF x(1)] c(2) x(2)] one(3,4) [OF x(1)]
      by (metis add.assoc concat.simps(2) length_append not_le)
  }
qed auto

lemma ubuf_copy_total:
  assumes "ubuf_inv (m, b)" and "x \<noteq> []" and "length x \<le> ubuf_size b - ubuf_cur b"
    and "\<forall>y. cup_ptr (ubuf_ptr b) \<le> y \<and> y < cup_ptr (ubuf_ptr b) + length x \<longrightarrow> um_writable m y"
  shows "\<exists>m' b'. ubuf_copy m b x = (m', Inr b') \<and> ubuf_size b' - ubuf_cur b' = ubuf_size b - ubuf_cur b - length x"
proof -
  have n: "min (length x) (ubuf_size b - ubuf_cur b) = length x" using assms(3) by simp
  have "prefix_ok (um_writable m) (cup_ptr (ubuf_ptr b)) (length x) = length x"
    unfolding prefix_ok_all using assms(4) by simp
  then show ?thesis using assms(2) ubuf_fill_cases [OF assms(1), of x] unfolding n
    by (simp add: ubuf_copy_def buffer_copy_def)
qed

lemma copy_all_total:
  assumes "ubuf_inv (m, b)" and "[] \<notin> set xs" and "length (concat xs) \<le> ubuf_size b - ubuf_cur b"
    and "\<forall>y. cup_ptr (ubuf_ptr b) \<le> y \<and> y < cup_ptr (ubuf_ptr b) + length (concat xs) \<longrightarrow> um_writable m y"
  shows "\<exists>m'. copy_all m b xs = (m', Inr ())"
  using assms
proof (induction xs arbitrary: m b)
  case (Cons x xs)
  obtain m1 b1 where c: "ubuf_copy m b x = (m1, Inr b1)" "ubuf_size b1 - ubuf_cur b1 = ubuf_size b - ubuf_cur b - length x"
    using ubuf_copy_total [OF Cons.prems(1), of x] Cons.prems by auto
  have x: "x \<noteq> []" using Cons.prems by auto
  note one = ubuf_copy_ok [OF Cons.prems(1) c(1) x]
  have "\<exists>m'. copy_all m1 b1 xs = (m', Inr ())"
    by (rule Cons.IH [OF one(2)]) (use Cons.prems c(2) one(1,3) in auto)
  then show ?case using c(1) by simp
qed simp

lemma ubuf_copy_preempt:
  assumes "ubuf_copy m b x = (m', Inr b')"
  shows "um_preempt_count m = 0"
  using assms by (auto simp: ubuf_copy_def buffer_copy_def ubuf_fill_def assert_preempt_enabled_def rassert_def split: sum.splits if_splits)

lemma floor_below: "floor_to a 16 \<le> a" "16 dvd floor_to a 16"
  by (simp_all add: floor_to_def)

text \<open>The bytes of the frame.\<close>

definition frame_bytes :: "(nat \<Rightarrow> u8) \<Rightarrow> trap_context \<Rightarrow> fpu_state \<Rightarrow> sig_set \<Rightarrow> bytes" where
  "frame_bytes pad c f old_mask = tc_bytes pad c @ fs_bytes pad f @ le_bytes 8 old_mask"

lemma length_frame: "length (fs_f f) = 32 \<Longrightarrow> length (frame_bytes pad c f old_mask) = SAVED_DATA_SIZE"
  by (simp add: frame_bytes_def length_tc_bytes length_fs_bytes SAVED_DATA_SIZE_def SIZE_SIG_SET_def)

lemma act_handle_ok:
  assumes "act_handle vdso pad (ActSimple h) s old_mask c f m = (m', Inr c')" and f: "length (fs_f f) = 32"
  defines "a \<equiv> floor_to (usub (get_stack_pointer c) SAVED_DATA_SIZE) 16"
  shows "0 < a" "a + SAVED_DATA_SIZE \<le> USER_MAX_ADDR" "a + SAVED_DATA_SIZE \<le> get_stack_pointer c" "um_preempt_count m = 0"
    "m' = stored m a SAVED_DATA_SIZE (\<lambda>i. frame_bytes pad c f old_mask ! i)"
    "\<forall>y. a \<le> y \<and> y < a + SAVED_DATA_SIZE \<longrightarrow> um_writable m y"
    "c' = set_user_call_frame c (sh_handler h) (Some a) (Some (case sh_restorer h of Some r \<Rightarrow> r | None \<Rightarrow> vdso))
       (take (if sh_siginfo h then 3 else 1) [s, 0, 0])"
proof -
  let ?xs = "[tc_bytes pad c, fs_bytes pad f, le_bytes 8 old_mask]"
  obtain buf where buf: "ubuf_new a SAVED_DATA_SIZE = Inr buf" and all: "copy_all m buf ?xs = (m', Inr ())"
    and c': "c' = set_user_call_frame c (sh_handler h) (Some a) (Some (case sh_restorer h of Some r \<Rightarrow> r | None \<Rightarrow> vdso))
       (take (if sh_siginfo h then 3 else 1) [s, 0, 0])"
    using assms(1) by (auto simp: act_handle_def a_def Let_def split: sum.splits prod.splits)
  show pos: "0 < a" and top: "a + SAVED_DATA_SIZE \<le> USER_MAX_ADDR"
    using buf by (auto simp: ubuf_new_def cup_new_iff split: if_splits)
  have b: "buf = \<lparr>ubuf_ptr = \<lparr>cup_ptr = a, cup_len = SAVED_DATA_SIZE\<rparr>, ubuf_size = SAVED_DATA_SIZE, ubuf_cur = 0\<rparr>"
    using buf pos top by (simp add: ubuf_new_def cup_new_iff)
  show preempt: "um_preempt_count m = 0"
    using all by (auto dest: ubuf_copy_preempt split: prod.splits sum.splits)
  have inv: "ubuf_inv (m, buf)" using pos top preempt by (simp add: ubuf_inv_def b cup_ok_def)
  have ne: "[] \<notin> set ?xs"
    using length_tc_bytes [of pad c] length_fs_bytes [OF f, of pad] length_le_bytes [of 8 old_mask]
    by (auto simp: SIZE_TRAP_CONTEXT_def SIZE_FPU_STATE_def simp del: length_le_bytes)
  have cat: "concat ?xs = frame_bytes pad c f old_mask" by (simp add: frame_bytes_def)
  show "m' = stored m a SAVED_DATA_SIZE (\<lambda>i. frame_bytes pad c f old_mask ! i)"
    "\<forall>y. a \<le> y \<and> y < a + SAVED_DATA_SIZE \<longrightarrow> um_writable m y"
    using copy_all_ok [OF inv all ne] unfolding cat length_frame [OF f] by (simp_all add: b)
  show "c' = set_user_call_frame c (sh_handler h) (Some a) (Some (case sh_restorer h of Some r \<Rightarrow> r | None \<Rightarrow> vdso))
       (take (if sh_siginfo h then 3 else 1) [s, 0, 0])" by (rule c')
  have sp: "get_stack_pointer c < usize_mod"
    using unsigned_less [of "tc_regs c Rsp"] by (simp add: get_stack_pointer_def usize_mod_def)
  show "a + SAVED_DATA_SIZE \<le> get_stack_pointer c"
  proof (cases "SAVED_DATA_SIZE \<le> get_stack_pointer c")
    case True
    then have "usub (get_stack_pointer c) SAVED_DATA_SIZE = get_stack_pointer c - SAVED_DATA_SIZE"
      using sp by (simp add: usub_eq)
    then have "a \<le> get_stack_pointer c - SAVED_DATA_SIZE" unfolding a_def using floor_below(1) by metis
    with True show ?thesis by linarith
  next
    case False
    then have "get_stack_pointer c + usize_mod - SAVED_DATA_SIZE < usize_mod" using usize_mod_pos by linarith
    then have "usub (get_stack_pointer c) SAVED_DATA_SIZE = get_stack_pointer c + usize_mod - SAVED_DATA_SIZE"
      by (simp add: usub_def)
    then have "usize_mod - 2 * SAVED_DATA_SIZE \<le> a"
      unfolding a_def floor_to_def by (simp add: usize_mod_def SAVED_DATA_SIZE_def SIZE_TRAP_CONTEXT_def SIZE_FPU_STATE_def SIZE_SIG_SET_def)
    with top show ?thesis by (simp add: usize_mod_def SAVED_DATA_SIZE_def SIZE_TRAP_CONTEXT_def SIZE_FPU_STATE_def SIZE_SIG_SET_def USER_MAX_ADDR_def)
  qed
qed

lemma act_handle_total:
  fixes c :: trap_context
  assumes f: "length (fs_f f) = 32" and "um_preempt_count m = 0"
  defines "a \<equiv> floor_to (usub (get_stack_pointer c) SAVED_DATA_SIZE) 16"
  assumes "0 < a" and "a + SAVED_DATA_SIZE \<le> USER_MAX_ADDR" and "\<forall>y. a \<le> y \<and> y < a + SAVED_DATA_SIZE \<longrightarrow> um_writable m y"
  shows "\<exists>m' c'. act_handle vdso pad (ActSimple h) s old_mask c f m = (m', Inr c')"
proof -
  let ?xs = "[tc_bytes pad c, fs_bytes pad f, le_bytes 8 old_mask]"
  let ?b = "\<lparr>ubuf_ptr = \<lparr>cup_ptr = a, cup_len = SAVED_DATA_SIZE\<rparr>, ubuf_size = SAVED_DATA_SIZE, ubuf_cur = 0\<rparr>"
  have b: "ubuf_new a SAVED_DATA_SIZE = Inr ?b" using assms(4,5) by (simp add: ubuf_new_def cup_new_iff)
  have inv: "ubuf_inv (m, ?b)" using assms by (simp add: ubuf_inv_def cup_ok_def)
  have ne: "[] \<notin> set ?xs"
    using length_tc_bytes [of pad c] length_fs_bytes [OF f, of pad] length_le_bytes [of 8 old_mask]
    by (auto simp: SIZE_TRAP_CONTEXT_def SIZE_FPU_STATE_def simp del: length_le_bytes)
  have cat: "length (concat ?xs) = SAVED_DATA_SIZE" using length_frame [OF f, of pad c old_mask] by (simp add: frame_bytes_def)
  have "\<exists>m'. copy_all m ?b ?xs = (m', Inr ())"
    by (rule copy_all_total [OF inv ne]; unfold cat) (use assms(6) in simp_all)
  then obtain m' where "copy_all m ?b ?xs = (m', Inr ())" by blast
  then show ?thesis unfolding act_handle_def a_def [symmetric] Let_def using b by simp
qed

text \<open>Reading a part of a frame that is in memory.\<close>

lemma up_read_at_part:
  assumes "0 < a" and "a + length bs \<le> USER_MAX_ADDR" and "um_preempt_count m = 0"
    and frame: "\<And>i. i < length bs \<Longrightarrow> um_byte m (a + i) = bs ! i \<and> um_readable m (a + i)"
    and "off + sz \<le> length bs" and "0 < sz"
  shows "up_read_at m sz (uadd a off) = Inr (take sz (drop off bs))"
proof -
  have add: "uadd a off = a + off" using assms user_max_less by (intro uadd_eq) simp
  let ?p = "\<lparr>cup_ptr = a + off, cup_len = sz\<rparr>"
  have p: "up_new sz (a + off) = Inr ?p" "cup_ok ?p" using assms by (simp_all add: up_new_def cup_new_iff cup_ok_def)
  have "prefix_ok (um_readable m) (a + off) sz = sz"
    unfolding prefix_ok_all
  proof (intro allI impI)
    fix x
    assume "a + off \<le> x \<and> x < a + off + sz"
    then have "x - a < length bs" "a + (x - a) = x" using assms(5) by linarith+
    then show "um_readable m x" using frame [of "x - a"] by simp
  qed
  then have "cup_read m ?p sz = (map (um_byte m) [a + off..<a + off + sz], Inr ())"
    using cup_read_eq [OF p(2) assms(6) _ assms(3)] by simp
  moreover have "map (um_byte m) [a + off..<a + off + sz] = take sz (drop off bs)"
    using frame assms(5) by (intro nth_equalityI) (auto simp: add.assoc)
  ultimately show ?thesis by (simp add: up_read_at_def add p(1) up_read_def)
qed

lemma restore_frame:
  assumes "0 < a" and "a + SAVED_DATA_SIZE \<le> USER_MAX_ADDR" and "um_preempt_count (hs_mem hs) = 0"
    and "\<And>i. i < SAVED_DATA_SIZE \<Longrightarrow> um_byte (hs_mem hs) (a + i) = frame_bytes pad c f old_mask ! i \<and> um_readable (hs_mem hs) (a + i)"
    and f: "length (fs_f f) = 32" and "get_stack_pointer (hs_ctx hs) = a" and "is_user_mode ops c" and "is_interrupt_enabled ops c"
  shows "sl_restore ops hs = (hs\<lparr>hs_ctx := c, hs_fpu := f, hs_list := sl_set_mask old_mask (hs_list hs)\<rparr>, Inr ())"
proof -
  let ?bs = "frame_bytes pad c f old_mask"
  have len: "length ?bs = 560" using length_frame [OF f, of pad c old_mask] by (simp add: SAVED_DATA_SIZE_def SIZE_TRAP_CONTEXT_def SIZE_FPU_STATE_def SIZE_SIG_SET_def)
  have lc: "length (tc_bytes pad c) = 288" and lf: "length (fs_bytes pad f) = 264"
    using length_tc_bytes [of pad c] length_fs_bytes [OF f, of pad] by (simp_all add: SIZE_TRAP_CONTEXT_def SIZE_FPU_STATE_def)
  have frame: "um_byte (hs_mem hs) (a + i) = ?bs ! i \<and> um_readable (hs_mem hs) (a + i)" if "i < length ?bs" for i
    using assms(4) [of i] that len by (simp add: SAVED_DATA_SIZE_def SIZE_TRAP_CONTEXT_def SIZE_FPU_STATE_def SIZE_SIG_SET_def)
  have top: "a + length ?bs \<le> USER_MAX_ADDR" using assms(2) length_frame [OF f, of pad c old_mask] by simp
  note rd = up_read_at_part [OF assms(1) top assms(3) frame]
  have a: "a + 560 < usize_mod" using top len user_max_less by simp
  have "up_read_at (hs_mem hs) 288 a = Inr (tc_bytes pad c)"
    using rd [of 0 288] len lc a by (simp add: uadd_eq frame_bytes_def)
  moreover have "up_read_at (hs_mem hs) 264 (uadd a 288) = Inr (fs_bytes pad f)"
    using rd [of 288 264] len lc lf by (simp add: frame_bytes_def)
  moreover have "up_read_at (hs_mem hs) 8 (uadd (uadd a 288) 264) = Inr (le_bytes 8 old_mask)"
    using rd [of 552 8] len lc lf a by (simp add: frame_bytes_def uadd_eq add.commute)
  ultimately show ?thesis
    using assms(6-8) by (simp add: sl_restore_def SIZE_TRAP_CONTEXT_def SIZE_FPU_STATE_def SIZE_SIG_SET_def tc_roundtrip fs_roundtrip [OF f]
        is_user_mode_def is_interrupt_enabled_def)
qed

lemma arg_regs_other: "r \<notin> set rs \<Longrightarrow> set_arg_regs regs as rs r = regs r"
  by (induction regs as rs rule: set_arg_regs.induct) auto

lemma call_frame_sp:
  "tc_regs (set_user_call_frame c pc (Some sp) (Some ra) args) Rsp = of_nat sp"
  "tc_regs (set_user_call_frame c pc (Some sp) (Some ra) args) Rra = of_nat ra"
  "tc_sepc (set_user_call_frame c pc (Some sp) (Some ra) args) = of_nat pc"
  by (simp_all add: set_user_call_frame_def Let_def set_stack_pointer_def set_program_counter_def arg_regs_other)

text \<open>C32: delivering a signal to a handler and returning from it. A delivery that succeeds puts the
  handler into the program counter, its return address into \<open>ra\<close>, and a frame below the old stack
  pointer, at a multiple of 16, in user memory; nothing outside the frame changes. Whatever the handler
  does, if the frame is intact and the stack pointer is back at it, \<open>rt_sigreturn\<close> restores the
  registers, the floating-point state and the signal mask of the delivery exactly.\<close>

theorem signal_frame_roundtrip:
  assumes "act_handle vdso pad (ActSimple h) s old_mask c f m = (m', Inr c')" and "length (fs_f f) = 32"
    and "sh_handler h < usize_mod"
    and "\<forall>x. um_writable m x \<longrightarrow> um_readable m x" and "is_user_mode ops c" and "is_interrupt_enabled ops c"
    and "get_stack_pointer (hs_ctx hs) = get_stack_pointer c'" and "um_preempt_count (hs_mem hs) = 0"
    and "um_readable (hs_mem hs) = um_readable m'"
    and "\<forall>x. get_stack_pointer c' \<le> x \<and> x < get_stack_pointer c' + SAVED_DATA_SIZE \<longrightarrow> um_byte (hs_mem hs) x = um_byte m' x"
  shows "get_program_counter c' = sh_handler h \<and> 16 dvd get_stack_pointer c' \<and>
    get_stack_pointer c' + SAVED_DATA_SIZE \<le> get_stack_pointer c \<and> get_stack_pointer c' + SAVED_DATA_SIZE \<le> USER_MAX_ADDR \<and>
    (\<forall>x. x < get_stack_pointer c' \<or> get_stack_pointer c' + SAVED_DATA_SIZE \<le> x \<longrightarrow> um_byte m' x = um_byte m x) \<and>
    sl_restore ops hs = (hs\<lparr>hs_ctx := c, hs_fpu := f, hs_list := sl_set_mask old_mask (hs_list hs)\<rparr>, Inr ())"
proof -
  define a where "a = floor_to (usub (get_stack_pointer c) SAVED_DATA_SIZE) 16"
  note d = act_handle_ok [OF assms(1,2), folded a_def]
  have "a < 2 ^ 64" using d(2) user_max_less by (simp add: usize_mod_def)
  then have sp: "get_stack_pointer c' = a" by (simp add: get_stack_pointer_def d(7) call_frame_sp unat_of_nat)
  have pc: "get_program_counter c' = sh_handler h"
    using assms(3) by (simp add: get_program_counter_def d(7) call_frame_sp unat_of_nat usize_mod_def)
  have frame: "um_byte (hs_mem hs) (a + i) = frame_bytes pad c f old_mask ! i \<and> um_readable (hs_mem hs) (a + i)"
    if "i < SAVED_DATA_SIZE" for i
    using assms(4,9,10) d(5,6) that by (simp add: sp stored_def)
  have "sl_restore ops hs = (hs\<lparr>hs_ctx := c, hs_fpu := f, hs_list := sl_set_mask old_mask (hs_list hs)\<rparr>, Inr ())"
    by (rule restore_frame [OF d(1,2) assms(8) frame assms(2) assms(7) [unfolded sp] assms(5,6)])
  then show ?thesis using pc floor_below(2) d(2,3) by (simp add: sp a_def d(5) [unfolded a_def] stored_def)
qed

text \<open>A context, a memory and a reading of \<open>sstatus\<close> (\<open>SPP\<close> is bit 8, \<open>SPIE\<close> bit 5).\<close>

definition sample_ops :: sstatus_ops where
  "sample_ops = \<lparr>ss_spp_user = (\<lambda>w. \<not> bit w 8), ss_spie = (\<lambda>w. bit w 5)\<rparr>"

definition sample_ctx :: trap_context where
  "sample_ctx = \<lparr>tc_regs = (\<lambda>r. if r = Rsp then 0x10000 else 7), tc_sstatus = 0x20, tc_sepc = 0x1234, tc_scause = 8, tc_stval = 0\<rparr>"

definition sample_fpu :: fpu_state where
  "sample_fpu = \<lparr>fs_f = replicate 32 1, fs_fcsr = 0\<rparr>"

definition sample_mem :: umem where
  "sample_mem = \<lparr>um_byte = (\<lambda>_. 0), um_readable = (\<lambda>_. True), um_writable = (\<lambda>_. True), um_preempt_count = 0\<rparr>"

definition sample_handler :: simple_handler where
  "sample_handler = \<lparr>sh_handler = 0x4000, sh_restorer = None, sh_mask = 0, sh_siginfo = False\<rparr>"

definition sample_list :: signal_list where
  "sample_list = \<lparr>sl_mask = 3, sl_pending = [], sl_signal_waker = False, sl_stop_waker = False, sl_actions = 0\<rparr>"

lemma sample_delivered:
  "\<exists>m' c'. act_handle 0x8000 (\<lambda>_. 0) (ActSimple sample_handler) 10 5 sample_ctx sample_fpu sample_mem = (m', Inr c')"
  by (rule act_handle_total)
    (simp_all add: sample_fpu_def sample_mem_def sample_ctx_def get_stack_pointer_def SAVED_DATA_SIZE_def SIZE_TRAP_CONTEXT_def
      SIZE_FPU_STATE_def SIZE_SIG_SET_def usub_def usize_mod_def floor_to_def USER_MAX_ADDR_def)

theorem signal_frame_roundtrip_witness:
  "\<exists>m' c' hs'. act_handle 0x8000 (\<lambda>_. 0) (ActSimple sample_handler) 10 5 sample_ctx sample_fpu sample_mem = (m', Inr c') \<and>
     get_program_counter c' = 0x4000 \<and>
     sl_restore sample_ops \<lparr>hs_list = sample_list, hs_ctx = c', hs_fpu = \<lparr>fs_f = [], fs_fcsr = 0\<rparr>, hs_mem = m'\<rparr> = (hs', Inr ()) \<and>
     hs_ctx hs' = sample_ctx \<and> hs_fpu hs' = sample_fpu \<and> sl_mask (hs_list hs') = 5"
proof -
  obtain m' c' where d: "act_handle 0x8000 (\<lambda>_. 0) (ActSimple sample_handler) 10 5 sample_ctx sample_fpu sample_mem = (m', Inr c')"
    using sample_delivered by blast
  have len: "length (fs_f sample_fpu) = 32" by (simp add: sample_fpu_def)
  have m': "um_preempt_count m' = 0" using act_handle_ok(5) [OF d len] by (simp add: sample_mem_def stored_def)
  let ?hs = "\<lparr>hs_list = sample_list, hs_ctx = c', hs_fpu = \<lparr>fs_f = [], fs_fcsr = 0\<rparr>, hs_mem = m'\<rparr>"
  have "sl_restore sample_ops ?hs = (?hs\<lparr>hs_ctx := sample_ctx, hs_fpu := sample_fpu, hs_list := sl_set_mask 5 (hs_list ?hs)\<rparr>, Inr ())
      \<and> get_program_counter c' = sh_handler sample_handler"
    using signal_frame_roundtrip [OF d len, of sample_ops ?hs] m'
    by (simp add: sample_handler_def usize_mod_def sample_mem_def is_user_mode_def is_interrupt_enabled_def sample_ops_def sample_ctx_def)
  with d show ?thesis by (auto simp: sl_set_mask_def sample_handler_def)
qed

end
