(* ===== verification/Signal_Safety.thy ===== *)
theory Signal_Safety
  imports Signals
begin

text \<open>
  The signal lists of all threads together: the states that the operations of \<open>SignalList\<close> and the
  signal system calls can reach, the invariant of these states, and what it says about signals that
  cannot be caught. The last two sections show a run of \<open>handle\<close> that does not end, and what a signal
  number 0 does.
\<close>

section \<open>Reachable states\<close>

record sig_sys =
  sy_store :: action_store
  sy_lists :: "signal_list list"

definition put_list :: "nat \<Rightarrow> signal_list \<Rightarrow> sig_sys \<Rightarrow> sig_sys" where
  "put_list i l y = y\<lparr>sy_lists := (sy_lists y)[i := l]\<rparr>"

definition add_list :: "signal_list \<times> action_store \<Rightarrow> sig_sys \<Rightarrow> sig_sys" where
  "add_list p y = \<lparr>sy_store = snd p, sy_lists = sy_lists y @ [fst p]\<rparr>"

inductive sig_step :: "sig_sys \<Rightarrow> sig_sys \<Rightarrow> bool" where
  fresh: "sig_step y (add_list (sl_new (sy_store y)) y)"
| cloned: "i < length (sy_lists y) \<Longrightarrow> sig_step y (add_list (sl_new_cloned (sy_lists y ! i) (sy_store y)) y)"
| shared: "i < length (sy_lists y) \<Longrightarrow> sig_step y (add_list (sl_new_shared (sy_lists y ! i) (sy_store y)) y)"
| copied: "i < length (sy_lists y) \<Longrightarrow> sig_step y (add_list (sl_clone (sy_lists y ! i), sy_store y) y)"
| raised: "i < length (sy_lists y) \<Longrightarrow> sig_step y (put_list i (fst (sl_raise (sy_store y) s (sy_lists y ! i))) y)"
| waker: "i < length (sy_lists y) \<Longrightarrow> sig_step y (put_list i (sl_set_signal_waker w (sy_lists y ! i)) y)"
| procmask: "i < length (sy_lists y) \<Longrightarrow> rt_sigprocmask how sset oldset sz (sy_lists y ! i) m = (l, m', r) \<Longrightarrow>
    sig_step y (put_list i l y)"
| suspend: "i < length (sy_lists y) \<Longrightarrow> rt_sigsuspend_begin msk sz (sy_lists y ! i) m = Inr (l, old) \<Longrightarrow>
    sig_step y (put_list i l y)"
| resume: "i < length (sy_lists y) \<Longrightarrow> rt_sigsuspend_poll old (sy_lists y ! i) = Some (l, r) \<Longrightarrow>
    sig_step y (put_list i l y)"
| action: "i < length (sy_lists y) \<Longrightarrow> rt_sigaction n act oldact sz (sy_lists y ! i) (sy_store y) m = (st, m', r) \<Longrightarrow>
    sig_step y (y\<lparr>sy_store := st\<rparr>)"
| exec: "i < length (sy_lists y) \<Longrightarrow> sig_step y (y\<lparr>sy_store := sl_clear_non_ignore (sy_lists y ! i) (sy_store y)\<rparr>)"
| forked: "i < length (sy_lists y) \<Longrightarrow> sig_step y (put_list i (sl_clear_pending (sy_lists y ! i)) y)"
| handled: "i < length (sy_lists y) \<Longrightarrow> hs_list hs = sy_lists y ! i \<Longrightarrow>
    sl_handle vdso pad (sy_store y) hs = Some (r, hs') \<Longrightarrow> sig_step y (put_list i (hs_list hs') y)"
| returned: "i < length (sy_lists y) \<Longrightarrow> hs_list hs = sy_lists y ! i \<Longrightarrow> sl_restore ops hs = (hs', r) \<Longrightarrow>
    sig_step y (put_list i (hs_list hs') y)"

definition sig_init :: sig_sys where
  "sig_init = \<lparr>sy_store = \<lparr>as_lists = (\<lambda>_. al_new), as_next = 0\<rparr>, sy_lists = []\<rparr>"

definition sig_reachable :: "sig_sys \<Rightarrow> bool" where
  "sig_reachable y \<longleftrightarrow> sig_step\<^sup>*\<^sup>* sig_init y"

definition actions_ok :: "action_store \<Rightarrow> bool" where
  "actions_ok st \<longleftrightarrow> (\<forall>a s. signal_now s \<longrightarrow> as_lists st a s = None)"

definition sig_inv :: "sig_sys \<Rightarrow> bool" where
  "sig_inv y \<longleftrightarrow> actions_ok (sy_store y) \<and> (\<forall>l\<in>set (sy_lists y). sorted (sl_pending l))"

lemma put_list_inv:
  assumes "sig_inv y" and "sorted (sl_pending l)"
  shows "sig_inv (put_list i l y)"
  using assms set_update_subset_insert [of "sy_lists y" i l] by (auto simp: sig_inv_def put_list_def)

lemma add_list_inv:
  assumes "sig_inv y" and "sl_pending (fst p) = []" and "actions_ok (snd p)"
  shows "sig_inv (add_list p y)"
  using assms by (auto simp: sig_inv_def add_list_def)

lemma raise_sorted: "sorted (sl_pending l) \<Longrightarrow> sorted (sl_pending (fst (sl_raise st s l)))"
  by (auto simp: sl_raise_def Let_def sorted_insort)

lemma handle_sorted:
  assumes "sl_handle vdso pad st hs = Some (r, hs')" and "sorted (sl_pending (hs_list hs))"
  shows "sorted (sl_pending (hs_list hs'))"
proof -
  let ?P = "\<lambda>hs out. sorted (sl_pending (hs_list hs)) \<longrightarrow> sorted (sl_pending (hs_list (snd out)))"
  have "?P hs (r, hs')"
  proof (rule sl_handle.raw_induct [where P = "\<lambda>vdso pad st hs out. sorted (sl_pending (hs_list hs)) \<longrightarrow> sorted (sl_pending (hs_list (snd out)))", OF _ assms(1)], goal_cases)
    case (1 f vdso pad st hs out)
    note IH = 1(1) [rule_format]
    show ?case
    proof (intro impI)
      assume sorted: "sorted (sl_pending (hs_list hs))"
      show "sorted (sl_pending (hs_list (snd out)))"
      proof (cases "sl_pending (hs_list hs)")
        case Nil
        then show ?thesis using 1(2) by (auto simp: sl_pop_def)
      next
        case (Cons s rest)
        have rest: "sorted rest" using sorted Cons by simp
        show ?thesis using 1(2) rest
          by (auto simp: sl_pop_def Cons sl_add_mask_def sl_unmask_def Let_def raise_sorted
              split: signal_action.splits prod.splits sum.splits fault.splits if_splits dest!: IH)
      qed
    qed
  qed
  then show ?thesis using assms(2) by simp
qed

lemma actions_ok_alloc: "actions_ok st \<Longrightarrow> (\<forall>s. signal_now s \<longrightarrow> l s = None) \<Longrightarrow> actions_ok (snd (store_alloc l st))"
  by (auto simp: actions_ok_def store_alloc_def)

lemma actions_ok_update:
  "actions_ok st \<Longrightarrow> (\<And>l s. (\<forall>s. signal_now s \<longrightarrow> l s = None) \<Longrightarrow> signal_now s \<Longrightarrow> f l s = None) \<Longrightarrow> actions_ok (store_update a f st)"
  by (auto simp: actions_ok_def store_update_def)

lemma set_action_ok:
  assumes "actions_ok st" and "sl_set_action s act l st = Inr st'"
  shows "actions_ok st'"
proof -
  have "\<not> signal_now s" and st': "st' = store_update (sl_actions l) (\<lambda>l. al_set l s act) st"
    using assms(2) by (auto simp: sl_set_action_def split: if_splits)
  then show ?thesis unfolding st'
    by (intro actions_ok_update [OF assms(1)]) (auto simp: al_set_def split: signal_action.splits)
qed

lemma rt_sigaction_ok:
  assumes "actions_ok st" and "rt_sigaction n act oldact sz l st m = (st', m', r)"
  shows "actions_ok st'"
  using assms set_action_ok [OF assms(1)]
  by (auto simp: rt_sigaction_def Let_def rbind_def split: if_splits sum.splits prod.splits)

lemma procmask_pending:
  "rt_sigprocmask how sset oldset sz l m = (l', m', r) \<Longrightarrow> sl_pending l' = sl_pending l"
  by (auto simp: rt_sigprocmask_def Let_def sl_add_mask_def sl_unmask_def sl_set_mask_def split: if_splits sum.splits prod.splits)

lemma restore_pending: "sl_restore ops hs = (hs', r) \<Longrightarrow> sl_pending (hs_list hs') = sl_pending (hs_list hs)"
  by (auto simp: sl_restore_def Let_def sl_set_mask_def split: if_splits sum.splits)

lemma suspend_pending:
  "rt_sigsuspend_begin msk sz l m = Inr (l', old) \<Longrightarrow> sl_pending l' = sl_pending l"
  "rt_sigsuspend_poll old l = Some (l', r) \<Longrightarrow> sl_pending l' = sl_pending l"
  by (auto simp: rt_sigsuspend_begin_def rt_sigsuspend_poll_def sl_set_mask_def res_simps split: if_splits)

lemmas new_list_defs = sl_new_def sl_new_cloned_def sl_new_shared_def sl_clone_def al_new_cloned_def al_new_shared_def

lemma sig_inv_nth: "sig_inv y \<Longrightarrow> i < length (sy_lists y) \<Longrightarrow> sorted (sl_pending (sy_lists y ! i))"
  by (simp add: sig_inv_def)

lemma sig_inv_actions: "sig_inv y \<Longrightarrow> actions_ok (sy_store y)"
  by (simp add: sig_inv_def)

lemma sig_step_inv:
  assumes "sig_step y y'" and "sig_inv y"
  shows "sig_inv y'"
  using assms
proof (induction rule: sig_step.induct)
  case (fresh y)
  then show ?case using actions_ok_alloc [of "sy_store y" al_new]
    by (intro add_list_inv) (auto simp: sig_inv_def new_list_defs al_new_def split: prod.splits)
next
  case (cloned i y)
  have "\<forall>s. signal_now s \<longrightarrow> as_lists (sy_store y) (sl_actions (sy_lists y ! i)) s = None"
    using cloned(2) by (simp add: sig_inv_def actions_ok_def)
  with actions_ok_alloc [OF _ this] cloned
  have "actions_ok (snd (store_alloc (as_lists (sy_store y) (sl_actions (sy_lists y ! i))) (sy_store y)))" by (simp add: sig_inv_def)
  then show ?case using cloned by (intro add_list_inv) (auto simp: new_list_defs split: prod.splits)
next
  case (handled i y hs vdso pad r hs')
  then show ?case using handle_sorted [OF handled(3)] by (intro put_list_inv) (auto simp: sig_inv_nth)
next
  case (action i y n act oldact sz m st m' r)
  then show ?case using rt_sigaction_ok [OF _ action(2)] by (auto simp: sig_inv_def)
next
  case (exec i y)
  then show ?case using actions_ok_update [of "sy_store y" al_remove_non_ignore]
    by (auto simp: sig_inv_def sl_clear_non_ignore_def al_remove_non_ignore_def)
qed (auto intro!: put_list_inv add_list_inv raise_sorted dest!: procmask_pending restore_pending suspend_pending
    simp: sig_inv_nth sig_inv_actions new_list_defs sl_set_signal_waker_def sl_clear_pending_def)

lemma sig_reachable_inv:
  assumes "sig_reachable y"
  shows "sig_inv y"
proof -
  have "sig_step\<^sup>*\<^sup>* sig_init y" using assms by (simp add: sig_reachable_def)
  then show ?thesis
  proof (induction rule: rtranclp_induct)
    case base
    then show ?case by (simp add: sig_init_def sig_inv_def actions_ok_def al_new_def)
  qed (rule sig_step_inv)
qed

section \<open>Signals that cannot be caught\<close>

lemma raise_now:
  assumes "sig_reachable y" and "signal_now s"
  shows "al_get (as_lists (sy_store y) a) s = ActDefault"
    "sl_pending (fst (sl_raise (sy_store y) s l)) = insort s (sl_pending l)"
    "sl_actions (fst (sl_raise (sy_store y) s l)) = sl_actions l"
    "sl_stop_waker (fst (sl_raise (sy_store y) s l)) = sl_stop_waker l"
proof -
  have none: "as_lists (sy_store y) a s = None" for a
    using sig_reachable_inv [OF assms(1)] assms(2) by (simp add: sig_inv_def actions_ok_def)
  then show "al_get (as_lists (sy_store y) a) s = ActDefault" by (simp add: al_get_def)
  show "sl_pending (fst (sl_raise (sy_store y) s l)) = insort s (sl_pending l)"
    "sl_actions (fst (sl_raise (sy_store y) s l)) = sl_actions l"
    "sl_stop_waker (fst (sl_raise (sy_store y) s l)) = sl_stop_waker l"
    using assms(2) none by (auto simp: sl_raise_def al_get_def signal_now_def signal_ignore_def signal_defs Let_def)
qed

lemma insort_least: "\<forall>x\<in>set xs. s \<le> x \<Longrightarrow> insort s xs = s # (xs :: nat list)"
  by (cases xs) auto


text \<open>A thread that has blocked every signal.\<close>

definition blocked_sys :: sig_sys where
  "blocked_sys = add_list (sl_new (sy_store sig_init)) sig_init"

lemma blocked_sys_reachable: "sig_reachable blocked_sys"
  unfolding sig_reachable_def blocked_sys_def by (rule r_into_rtranclp) (rule sig_step.fresh)


section \<open>A handler on a bad stack\<close>

lemma bad_stack_handle:
  assumes "a = floor_to (usub (get_stack_pointer c) SAVED_DATA_SIZE) 16" and "a = 0 \<or> USER_MAX_ADDR < a + SAVED_DATA_SIZE"
  shows "act_handle vdso pad (ActSimple h) s old_mask c f m = (m, Inl (Errno EFAULT))"
  using assms by (auto simp: act_handle_def ubuf_new_def cup_new_iff)

text \<open>The state at the head of the loop: the stack pointer is \<open>sp\<close> and \<open>SIGSEGV\<close> comes before the rest.\<close>

definition segv_pending :: "simple_handler \<Rightarrow> signal list \<Rightarrow> usize \<Rightarrow> action_store \<Rightarrow> handle_state \<Rightarrow> bool" where
  "segv_pending h rest sp st hs \<longleftrightarrow> al_get (as_lists st (sl_actions (hs_list hs))) SIGSEGV = ActSimple h \<and>
     sl_pending (hs_list hs) = SIGSEGV # rest \<and> get_stack_pointer (hs_ctx hs) = sp"

lemma segv_pending_again:
  assumes "segv_pending h rest sp st hs" and "\<forall>x\<in>set rest. SIGSEGV \<le> x"
    and "hs' = hs\<lparr>hs_list := fst (sl_raise st SIGSEGV (l\<lparr>sl_pending := rest, sl_mask := old_mask\<rparr>)), hs_mem := m\<rparr>"
    and "sl_actions l = sl_actions (hs_list hs)"
  shows "segv_pending h rest sp st hs'"
  using assms insort_least [OF assms(2)]
  by (simp add: segv_pending_def sl_raise_def signal_ignore_def signal_defs Let_def)

lemma segv_pending_never_returns:
  assumes "sl_handle vdso pad st hs = Some out" and "\<forall>x\<in>set rest. SIGSEGV \<le> x"
    and "a = floor_to (usub sp SAVED_DATA_SIZE) 16" and "a = 0 \<or> USER_MAX_ADDR < a + SAVED_DATA_SIZE"
  shows "\<not> segv_pending h rest sp st hs"
proof (rule sl_handle.raw_induct [where P = "\<lambda>vdso pad st hs out. \<not> segv_pending h rest sp st hs", OF _ assms(1)], goal_cases)
  case (1 f vdso pad st hs out)
  show ?case
  proof
    assume bad: "segv_pending h rest sp st hs"
    let ?l = "(hs_list hs)\<lparr>sl_pending := rest\<rparr>"
    have pop: "sl_pop (hs_list hs) = (?l, Some SIGSEGV)" using bad by (simp add: segv_pending_def sl_pop_def)
    have act: "al_get (as_lists st (sl_actions ?l)) SIGSEGV = ActSimple h" using bad by (simp add: segv_pending_def)
    have deliver: "act_handle vdso pad (ActSimple h) SIGSEGV (sl_mask ?l) (hs_ctx hs) (hs_fpu hs) (hs_mem hs) = (hs_mem hs, Inl (Errno EFAULT))"
      using bad assms(3,4) by (intro bad_stack_handle [of a]) (simp_all add: segv_pending_def)
    let ?hs = "hs\<lparr>hs_list := fst (sl_raise st SIGSEGV (sl_add_mask (sh_mask h) ?l\<lparr>sl_mask := sl_mask ?l\<rparr>)), hs_mem := hs_mem hs\<rparr>"
    have "f vdso pad st ?hs = Some out" using 1(2) unfolding pop by (simp add: act [simplified] deliver [simplified] Let_def)
    then have "\<not> segv_pending h rest sp st ?hs" by (rule 1(1))
    moreover have "segv_pending h rest sp st ?hs"
      by (rule segv_pending_again [OF bad assms(2), where l = "hs_list hs" and old_mask = "sl_mask (hs_list hs)" and m = "hs_mem hs"])
        (simp_all add: sl_add_mask_def)
    ultimately show False by simp
  qed
qed

text \<open>C34: a handler for \<open>SIGSEGV\<close> and a stack pointer outside the user range hang the kernel. The
  delivery fails, \<open>handle\<close> raises \<open>SIGSEGV\<close> in return, finds it as the first pending signal, and tries to
  deliver it to the same handler: the loop has no await point and does not end.\<close>

theorem segv_handler_diverges:
  assumes "al_get (as_lists st (sl_actions (hs_list hs))) SIGSEGV = ActSimple h"
    and "sl_pending (hs_list hs) = SIGSEGV # rest" and "\<forall>x\<in>set rest. SIGSEGV \<le> x"
    and "a = floor_to (usub (get_stack_pointer (hs_ctx hs)) SAVED_DATA_SIZE) 16" and "a = 0 \<or> USER_MAX_ADDR < a + SAVED_DATA_SIZE"
  shows "sl_handle vdso pad st hs = None"
  using segv_pending_never_returns [OF _ assms(3) assms(4,5), of vdso pad st hs _ h] assms(1,2)
  by (cases "sl_handle vdso pad st hs") (auto simp: segv_pending_def)

definition segv_store :: action_store where
  "segv_store = \<lparr>as_lists = (\<lambda>_. [SIGSEGV \<mapsto> ActSimple sample_handler]), as_next = 1\<rparr>"

theorem segv_handler_diverges_witness:
  "sl_handle 0 (\<lambda>_. 0) segv_store
     \<lparr>hs_list = fst (sl_raise segv_store SIGSEGV sample_list), hs_ctx = set_stack_pointer sample_ctx 0,
      hs_fpu = sample_fpu, hs_mem = sample_mem\<rparr> = None"
  by (rule segv_handler_diverges [of _ _ sample_handler "[]", OF _ _ _ refl])
    (simp_all add: segv_store_def al_get_def sl_raise_def sample_list_def signal_ignore_def signal_defs Let_def
      get_stack_pointer_def set_stack_pointer_def floor_to_def usub_def usize_mod_def SAVED_DATA_SIZE_def SIZE_TRAP_CONTEXT_def
      SIZE_FPU_STATE_def SIZE_SIG_SET_def USER_MAX_ADDR_def)

section \<open>The number 0\<close>

text \<open>C35: the number 0 is accepted as a signal. \<open>kill(pid, 0)\<close> should only test whether the process
  exists; here the number passes \<open>try_from_raw\<close>, is raised as a signal without a disposition of its
  own, and comes before all others: the next \<open>handle\<close> terminates the thread.\<close>

theorem signal_zero_kills:
  assumes "al_get (as_lists st (sl_actions l)) 0 = ActDefault" and "hs_list hs = fst (sl_raise st 0 l)"
  shows "signal_try_from_raw 0 = Inr 0 \<and> (\<exists>hs'. sl_handle vdso pad st hs = Some (Killed 0, hs'))"
proof -
  have l: "sl_pending (hs_list hs) = 0 # sl_pending l" "sl_actions (hs_list hs) = sl_actions l"
    using assms insort_least [of "sl_pending l" 0] by (simp_all add: sl_raise_def signal_ignore_def signal_defs Let_def)
  have "\<exists>hs'. sl_handle vdso pad st hs = Some (Killed 0, hs')"
    by (subst sl_handle.simps) (simp add: sl_pop_def l assms(1) signal_ignore_def signal_stop_def signal_defs Let_def)
  then show ?thesis by (simp add: signal_try_from_raw_def SIGNUM_MAX_def)
qed

theorem signal_zero_kills_witness:
  "\<exists>hs'. sl_handle 0 (\<lambda>_. 0) segv_store
     \<lparr>hs_list = fst (sl_raise segv_store 0 sample_list), hs_ctx = sample_ctx, hs_fpu = sample_fpu, hs_mem = sample_mem\<rparr> = Some (Killed 0, hs')"
  using signal_zero_kills [of segv_store sample_list
      "\<lparr>hs_list = fst (sl_raise segv_store 0 sample_list), hs_ctx = sample_ctx, hs_fpu = sample_fpu, hs_mem = sample_mem\<rparr>" 0 "\<lambda>_. 0"]
  by (simp add: segv_store_def al_get_def SIGSEGV_def)

end
