(* ===== verification/Terminal.thy ===== *)
theory Terminal
  imports Signals
begin

unbundle bit_operations_syntax

text \<open>
  The terminal (\<open>src/kernel/terminal.rs\<close>) and the job control of a session
  (\<open>src/kernel/task/session.rs\<close>): terminal settings, the line discipline that turns input characters
  into lines, echo and signals, reading, and the control requests.

  What the terminal writes to its device is appended to \<open>tm_out\<close>, the signals it asks its session to
  raise to \<open>tm_raised\<close>. Readers poll with a sleep between two tests; a test is a step of the model.
\<close>

section \<open>Terminal settings\<close>

definition VINTR :: nat where "VINTR = 0"
definition VQUIT :: nat where "VQUIT = 1"
definition VERASE :: nat where "VERASE = 2"
definition VKILL :: nat where "VKILL = 3"
definition VEOF :: nat where "VEOF = 4"
definition VMIN :: nat where "VMIN = 6"
definition VSUSP :: nat where "VSUSP = 10"
definition VEOL :: nat where "VEOL = 11"
definition VEOL2 :: nat where "VEOL2 = 16"
definition NCCS :: nat where "NCCS = 19"

lemmas cc_defs = VINTR_def VQUIT_def VERASE_def VKILL_def VEOF_def VMIN_def VSUSP_def VEOL_def VEOL2_def NCCS_def

definition INLCR :: u16 where "INLCR = 0x40"
definition IGNCR :: u16 where "IGNCR = 0x80"
definition ICRNL :: u16 where "ICRNL = 0x100"
definition IXOFF :: u16 where "IXOFF = 0x1000"
definition OPOST :: u16 where "OPOST = 1"
definition ONLCR :: u16 where "ONLCR = 4"
definition ISIG :: u16 where "ISIG = 1"
definition ICANON :: u16 where "ICANON = 2"
definition ECHO :: u16 where "ECHO = 8"
definition ECHOE :: u16 where "ECHOE = 0x10"
definition ECHOK :: u16 where "ECHOK = 0x20"
definition ECHONL :: u16 where "ECHONL = 0x40"
definition NOFLSH :: u16 where "NOFLSH = 0x80"
definition ECHOCTL :: u16 where "ECHOCTL = 0x200"
definition ECHOKE :: u16 where "ECHOKE = 0x800"
definition IEXTEN :: u16 where "IEXTEN = 0x8000"

lemmas termio_flag_defs = INLCR_def IGNCR_def ICRNL_def IXOFF_def OPOST_def ONLCR_def ISIG_def ICANON_def ECHO_def
  ECHOE_def ECHOK_def ECHONL_def NOFLSH_def ECHOCTL_def ECHOKE_def IEXTEN_def

text \<open>All bits that \<open>TermioIFlags\<close>, \<open>TermioOFlags\<close> and \<open>TermioLFlags\<close> know.\<close>

definition IFLAGS_ALL :: u16 where "IFLAGS_ALL = 0x7FFF"
definition OFLAGS_ALL :: u16 where "OFLAGS_ALL = 0xFF"
definition LFLAGS_ALL :: u16 where "LFLAGS_ALL = 0xDFFF"

definition CFLAG_STANDARD :: u32 where "CFLAG_STANDARD = 0xF OR 0x30 OR 0x80 OR 0x400"

record termios =
  ti_iflag :: u16
  ti_oflag :: u16
  ti_cflag :: u32
  ti_lflag :: u16
  ti_line :: u8
  ti_cc :: "u8 list"

definition has_bits :: "u16 \<Rightarrow> u16 \<Rightarrow> bool" where
  "has_bits w f \<longleftrightarrow> w AND f = f"

definition veof :: "termios \<Rightarrow> u8" where "veof t = ti_cc t ! VEOF"
definition veol :: "termios \<Rightarrow> u8" where "veol t = ti_cc t ! VEOL"
definition veol2 :: "termios \<Rightarrow> u8" where "veol2 t = ti_cc t ! VEOL2"
definition vintr :: "termios \<Rightarrow> u8" where "vintr t = ti_cc t ! VINTR"
definition vquit :: "termios \<Rightarrow> u8" where "vquit t = ti_cc t ! VQUIT"
definition vsusp :: "termios \<Rightarrow> u8" where "vsusp t = ti_cc t ! VSUSP"
definition verase :: "termios \<Rightarrow> u8" where "verase t = ti_cc t ! VERASE"
definition vkill :: "termios \<Rightarrow> u8" where "vkill t = ti_cc t ! VKILL"
definition echo :: "termios \<Rightarrow> bool" where "echo t = has_bits (ti_lflag t) ECHO"
definition echoe :: "termios \<Rightarrow> bool" where "echoe t = has_bits (ti_lflag t) ECHOE"
definition echoctl :: "termios \<Rightarrow> bool" where "echoctl t = has_bits (ti_lflag t) ECHOCTL"
definition echoke :: "termios \<Rightarrow> bool" where "echoke t = has_bits (ti_lflag t) ECHOKE"
definition echok :: "termios \<Rightarrow> bool" where "echok t = has_bits (ti_lflag t) ECHOK"
definition echonl :: "termios \<Rightarrow> bool" where "echonl t = has_bits (ti_lflag t) ECHONL"
definition isig :: "termios \<Rightarrow> bool" where "isig t = has_bits (ti_lflag t) ISIG"
definition icanon :: "termios \<Rightarrow> bool" where "icanon t = has_bits (ti_lflag t) ICANON"
definition iexten :: "termios \<Rightarrow> bool" where "iexten t = has_bits (ti_lflag t) IEXTEN"
definition igncr :: "termios \<Rightarrow> bool" where "igncr t = has_bits (ti_iflag t) IGNCR"
definition icrnl :: "termios \<Rightarrow> bool" where "icrnl t = has_bits (ti_iflag t) ICRNL"
definition inlcr :: "termios \<Rightarrow> bool" where "inlcr t = has_bits (ti_iflag t) INLCR"
definition noflsh :: "termios \<Rightarrow> bool" where "noflsh t = has_bits (ti_lflag t) NOFLSH"

definition termios_new_standard :: termios where
  "termios_new_standard =
     \<lparr>ti_iflag = ICRNL OR IXOFF, ti_oflag = OPOST OR ONLCR, ti_cflag = CFLAG_STANDARD,
      ti_lflag = ISIG OR ICANON OR ECHO OR ECHOE OR ECHOK OR ECHOCTL OR ECHOKE OR IEXTEN, ti_line = 0,
      ti_cc = map (\<lambda>idx. if idx = VINTR then 3 else if idx = VQUIT then 0x1C else if idx = VERASE then 0x7F
        else if idx = VKILL then 0x15 else if idx = VEOF then 4 else if idx = VSUSP then 0x1A
        else if idx = VMIN then 1 else 0) [0..<NCCS]\<rparr>"

record user_termios =
  ut_iflag :: u32
  ut_oflag :: u32
  ut_cflag :: u32
  ut_lflag :: u32
  ut_line :: u8
  ut_cc :: "u8 list"

definition termios_get_user :: "termios \<Rightarrow> user_termios" where
  "termios_get_user t =
     \<lparr>ut_iflag = ucast (ti_iflag t), ut_oflag = ucast (ti_oflag t), ut_cflag = ti_cflag t,
      ut_lflag = ucast (ti_lflag t), ut_line = ti_line t, ut_cc = ti_cc t\<rparr>"

text \<open>The assignments of \<open>SetTermios\<close>.\<close>

definition termios_set_user :: "termios \<Rightarrow> user_termios \<Rightarrow> termios" where
  "termios_set_user t u =
     t\<lparr>ti_iflag := ucast (ut_iflag u) AND IFLAGS_ALL, ti_oflag := ucast (ut_oflag u) AND OFLAGS_ALL,
       ti_lflag := ucast (ut_lflag u) AND LFLAGS_ALL, ti_cflag := ut_cflag u, ti_line := ut_line u, ti_cc := ut_cc u\<rparr>"

definition ut_bytes :: "user_termios \<Rightarrow> bytes" where
  "ut_bytes u = le_bytes 4 (ucast (ut_iflag u)) @ le_bytes 4 (ucast (ut_oflag u)) @ le_bytes 4 (ucast (ut_cflag u)) @
     le_bytes 4 (ucast (ut_lflag u)) @ ut_line u # ut_cc u"

definition ut_of_bytes :: "bytes \<Rightarrow> user_termios" where
  "ut_of_bytes bs =
     \<lparr>ut_iflag = ucast (of_le (take 4 bs)), ut_oflag = ucast (of_le (take 4 (drop 4 bs))),
      ut_cflag = ucast (of_le (take 4 (drop 8 bs))), ut_lflag = ucast (of_le (take 4 (drop 12 bs))),
      ut_line = bs ! 16, ut_cc = drop 17 bs\<rparr>"

section \<open>The line discipline\<close>

text \<open>\<open>tm_session\<close> is the session that the weak reference still finds.\<close>

record terminal =
  tm_termio :: termios
  tm_session :: "nat option"
  tm_buffer :: bytes
  tm_out :: bytes
  tm_raised :: "(nat \<times> signal) list"

definition terminal_new :: terminal where
  "terminal_new = \<lparr>tm_termio = termios_new_standard, tm_session = None, tm_buffer = [], tm_out = [], tm_raised = []\<rparr>"

definition clear_read_buffer :: "terminal \<Rightarrow> terminal" where
  "clear_read_buffer t = t\<lparr>tm_buffer := []\<rparr>"

definition term_write :: "bytes \<Rightarrow> terminal \<Rightarrow> terminal" where
  "term_write data t = t\<lparr>tm_out := tm_out t @ data\<rparr>"

definition erase :: "bool \<Rightarrow> terminal \<Rightarrow> terminal \<times> u8 option" where
  "erase ech t =
     (if tm_buffer t = [] then (t, None)
      else
        let back = List.last (tm_buffer t)
        in if back = 10 then (t, None)
           else if back = veof (tm_termio t) then (t, None)
           else if back = veol (tm_termio t) then (t, None)
           else if back = veol2 (tm_termio t) then (t, None)
           else
             let t = t\<lparr>tm_buffer := butlast (tm_buffer t)\<rparr>;
                 t = (if ech \<and> echo (tm_termio t) \<and> echoe (tm_termio t) then term_write [8, 32, 8] t else t)
             in (t, Some back))"

text \<open>\<open>while self.erase(..).is_some() {}\<close>.\<close>

lemma erase_shorter: "erase ech t = (t', Some b) \<Longrightarrow> length (tm_buffer t') < length (tm_buffer t)"
  by (auto simp: erase_def Let_def term_write_def split: if_splits)

function erase_all :: "bool \<Rightarrow> terminal \<Rightarrow> terminal" where
  "erase_all ech t = (case erase ech t of (t', None) \<Rightarrow> t' | (t', Some _) \<Rightarrow> erase_all ech t')"
  by pat_completeness auto
termination
  by (relation "measure (\<lambda>(ech, t). length (tm_buffer t))") (auto dest: erase_shorter [OF sym])

declare erase_all.simps [simp del]

definition echo_char :: "u8 \<Rightarrow> terminal \<Rightarrow> terminal" where
  "echo_char ch t =
     (if ch = 9 \<or> ch = 10 \<or> ch = 0x11 \<or> ch = 0x13 \<or> 32 \<le> ch then term_write [ch] t
      else if \<not> echo (tm_termio t) then term_write [ch] t
      else if \<not> echoctl (tm_termio t) then term_write [ch] t
      else if \<not> iexten (tm_termio t) then term_write [ch] t
      else term_write [0x5E, ch + 0x40] t)"

definition term_signal :: "signal \<Rightarrow> terminal \<Rightarrow> terminal" where
  "term_signal s t =
     (let t = (case tm_session t of Some session \<Rightarrow> t\<lparr>tm_raised := tm_raised t @ [(session, s)]\<rparr> | None \<Rightarrow> t)
      in if \<not> noflsh (tm_termio t) then clear_read_buffer t else t)"

definition echo_and_signal :: "u8 \<Rightarrow> signal \<Rightarrow> terminal \<Rightarrow> terminal" where
  "echo_and_signal ch s t = term_signal s (echo_char ch t)"

text \<open>Nothing waits on the condition variable of the terminal, so that notifying it has no effect.\<close>

definition do_commit_char :: "u8 \<Rightarrow> terminal \<Rightarrow> terminal" where
  "do_commit_char ch t =
     (let t = t\<lparr>tm_buffer := tm_buffer t @ [ch]\<rparr>
      in if echo (tm_termio t) \<or> (ch = 10 \<and> echonl (tm_termio t)) then echo_char ch t else t)"

definition line_delimiter :: "termios \<Rightarrow> u8 \<Rightarrow> bool" where
  "line_delimiter ti ch \<longleftrightarrow> ch = 10 \<or> (veol ti \<noteq> 0 \<and> ch = veol ti) \<or> (veol2 ti \<noteq> 0 \<and> ch = veol2 ti)"

definition line_ready :: "terminal \<Rightarrow> bool" where
  "line_ready t \<longleftrightarrow> \<not> icanon (tm_termio t) \<or> list_ex (line_delimiter (tm_termio t)) (tm_buffer t)"

definition commit_char :: "u8 \<Rightarrow> terminal \<Rightarrow> terminal" where
  "commit_char ch t =
     (let ti = tm_termio t
      in if isig ti \<and> ch \<noteq> 0xFF \<and> ch = vintr ti then echo_and_signal ch SIGINT t
         else if isig ti \<and> ch \<noteq> 0xFF \<and> ch = vquit ti then echo_and_signal ch SIGQUIT t
         else if isig ti \<and> ch \<noteq> 0xFF \<and> ch = vsusp ti then echo_and_signal ch SIGTSTP t
         else if icanon ti \<and> ch \<noteq> 0xFF \<and> ch = veof ti then t
         else if icanon ti \<and> ch \<noteq> 0xFF \<and> ch = verase ti then fst (erase True t)
         else if icanon ti \<and> ch \<noteq> 0xFF \<and> ch = vkill ti then
           (if echok ti then term_write [10] (erase_all False t)
            else if echoke ti \<and> iexten ti then erase_all True t
            else t)
         else if ch = 13 \<and> igncr ti then t
         else if ch = 13 \<and> icrnl ti then do_commit_char 10 t
         else if ch = 10 \<and> inlcr ti then do_commit_char 13 t
         else do_commit_char ch t)"

section \<open>Reading\<close>

text \<open>One test of the loop of \<open>poll_in\<close>, and of \<open>read\<close>; \<open>None\<close> is a sleep.\<close>

definition term_poll_in :: "terminal \<Rightarrow> unit option" where
  "term_poll_in t = (if tm_buffer t \<noteq> [] \<and> line_ready t then Some () else None)"

fun line_length :: "termios \<Rightarrow> bytes \<Rightarrow> nat option" where
  "line_length ti [] = None"
| "line_length ti (ch # chs) = (if line_delimiter ti ch then Some 1 else map_option Suc (line_length ti chs))"

definition TMP_BUFFER :: nat where "TMP_BUFFER = 32"

definition term_read_step :: "usize \<Rightarrow> terminal \<Rightarrow> (terminal \<times> bytes) option" where
  "term_read_step available t =
     (if available = 0 then Some (t, [])
      else if tm_buffer t = [] \<or> \<not> line_ready t then None
      else
        let len = (if icanon (tm_termio t) then
                     (case line_length (tm_termio t) (tm_buffer t) of Some n \<Rightarrow> n | None \<Rightarrow> length (tm_buffer t))
                   else min available (length (tm_buffer t)));
            len = min len TMP_BUFFER
        in Some (t\<lparr>tm_buffer := drop len (tm_buffer t)\<rparr>, take len (tm_buffer t)))"

text \<open>A call of \<open>read\<close> up to its first sleep (\<open>None\<close>), and the test for signals after a sleep.\<close>

definition term_read ::
  "('b \<Rightarrow> bytes \<Rightarrow> ('b \<times> fill_result) res) \<Rightarrow> usize \<Rightarrow> 'b \<Rightarrow> terminal \<Rightarrow> (terminal \<times> ('b \<times> usize) res) option" where
  "term_read fill available b t =
     (if available = 0 then Some (t, rmap (\<lambda>(b, r). (b, allow_partial r)) (fill b []))
      else map_option (\<lambda>(t, data). (t, rmap (\<lambda>(b, r). (b, allow_partial r)) (fill b data))) (term_read_step available t))"

definition term_read_interrupted :: "signal_list \<Rightarrow> unit res" where
  "term_read_interrupted l = (if sl_has_pending_signal l then Inl (Errno EINTR) else Inr ())"

section \<open>Sessions and control requests\<close>

text \<open>Terminals and sessions refer to each other by number; a group reference is alive or not.\<close>

record session =
  se_groups :: "nat list"
  se_foreground :: "nat option"
  se_terminal :: "nat option"

record tty_world =
  tw_terms :: "nat \<Rightarrow> terminal"
  tw_sessions :: "nat \<Rightarrow> session"
  tw_group_alive :: "nat \<Rightarrow> bool"

definition put_session :: "nat \<Rightarrow> session \<Rightarrow> tty_world \<Rightarrow> tty_world" where
  "put_session sid x w = w\<lparr>tw_sessions := (tw_sessions w)(sid := x)\<rparr>"

definition put_term :: "nat \<Rightarrow> terminal \<Rightarrow> tty_world \<Rightarrow> tty_world" where
  "put_term tid x w = w\<lparr>tw_terms := (tw_terms w)(tid := x)\<rparr>"

definition session_new :: session where
  "session_new = \<lparr>se_groups = [], se_foreground = None, se_terminal = None\<rparr>"

definition session_add_member :: "nat \<Rightarrow> session \<Rightarrow> session res" where
  "session_add_member pgid x =
     (if pgid \<in> set (se_groups x) then Inl Panic else Inr (x\<lparr>se_groups := insort pgid (se_groups x)\<rparr>))"

definition session_remove_member :: "nat \<Rightarrow> session \<Rightarrow> session res" where
  "session_remove_member pgid x = rassert (pgid \<in> set (se_groups x)) (Inr (x\<lparr>se_groups := removeAll pgid (se_groups x)\<rparr>))"

definition session_foreground :: "nat \<Rightarrow> tty_world \<Rightarrow> nat option" where
  "session_foreground sid w =
     (case se_foreground (tw_sessions w sid) of
        Some pgid \<Rightarrow> if tw_group_alive w pgid then Some pgid else None
      | None \<Rightarrow> None)"

definition set_foreground_pgid :: "nat \<Rightarrow> nat \<Rightarrow> tty_world \<Rightarrow> tty_world res" where
  "set_foreground_pgid sid pgid w =
     (let x = tw_sessions w sid
      in if pgid \<in> set (se_groups x) then Inr (put_session sid (x\<lparr>se_foreground := Some pgid\<rparr>) w) else Inl (Errno EPERM))"

definition drop_control_terminal :: "nat \<Rightarrow> tty_world \<Rightarrow> tty_world \<times> nat option" where
  "drop_control_terminal sid w =
     (let x = tw_sessions w sid in (put_session sid (x\<lparr>se_foreground := None, se_terminal := None\<rparr>) w, se_terminal x))"

text \<open>The pattern \<open>Some(session)\<close> hides the argument \<open>session\<close> in the first branch.\<close>

definition set_session :: "nat \<Rightarrow> nat \<Rightarrow> bool \<Rightarrow> tty_world \<Rightarrow> tty_world res" where
  "set_session tid sid forced w =
     (case tm_session (tw_terms w tid) of
        Some session \<Rightarrow>
          if \<not> forced then Inl (Errno EPERM)
          else
            let w = fst (drop_control_terminal session w)
            in Inr (put_term tid (tw_terms w tid\<lparr>tm_session := Some session\<rparr>) w)
      | None \<Rightarrow> Inr (put_term tid (tw_terms w tid\<lparr>tm_session := Some sid\<rparr>) w))"

definition drop_session :: "nat \<Rightarrow> tty_world \<Rightarrow> tty_world" where
  "drop_session tid w = put_term tid (tw_terms w tid\<lparr>tm_session := None\<rparr>) w"

text \<open>\<open>pgroup\<close> is the process group of the calling thread.\<close>

definition set_control_terminal :: "nat \<Rightarrow> nat \<Rightarrow> bool \<Rightarrow> nat \<Rightarrow> tty_world \<Rightarrow> tty_world res" where
  "set_control_terminal sid tid forced pgroup w =
     (if se_terminal (tw_sessions w sid) \<noteq> None then
        (if tm_session (tw_terms w tid) = Some sid then Inr w else Inl (Errno EPERM))
      else rbind (set_session tid sid forced w) (\<lambda>w.
        Inr (put_session sid (tw_sessions w sid\<lparr>se_terminal := Some tid, se_foreground := Some pgroup\<rparr>) w)))"

definition raise_foreground :: "nat \<Rightarrow> signal \<Rightarrow> tty_world \<Rightarrow> (nat \<times> signal) list" where
  "raise_foreground sid s w = (case session_foreground sid w of Some fg \<Rightarrow> [(fg, s)] | None \<Rightarrow> [])"

datatype tty_request =
  GetProcessGroup checked_user_pointer
| SetProcessGroup checked_user_pointer
| GetWindowSize checked_user_pointer
| GetTermios checked_user_pointer
| SetTermios checked_user_pointer

definition window_size_bytes :: bytes where
  "window_size_bytes = le_bytes 2 40 @ le_bytes 2 80 @ le_bytes 2 0 @ le_bytes 2 0"

fun term_ioctl :: "tty_request \<Rightarrow> nat \<Rightarrow> tty_world \<Rightarrow> umem \<Rightarrow> tty_world \<times> umem \<times> unit res" where
  "term_ioctl (GetProcessGroup p) tid w m =
     (case tm_session (tw_terms w tid) of
        None \<Rightarrow> (w, m, Inl (Errno ENOTTY))
      | Some sid \<Rightarrow>
          (case session_foreground sid w of
             None \<Rightarrow> (w, m, Inl (Errno ENOTTY))
           | Some pgid \<Rightarrow> (w, up_write m p (le_bytes 4 (of_nat pgid)))))"
| "term_ioctl (SetProcessGroup p) tid w m =
     (case up_read m 4 p of
        Inl e \<Rightarrow> (w, m, Inl e)
      | Inr bs \<Rightarrow>
          (case tm_session (tw_terms w tid) of
             None \<Rightarrow> (w, m, Inl (Errno ENOTTY))
           | Some sid \<Rightarrow>
               (case set_foreground_pgid sid (unat (of_le bs)) w of
                  Inl e \<Rightarrow> (w, m, Inl e)
                | Inr w \<Rightarrow> (w, m, Inr ()))))"
| "term_ioctl (GetWindowSize p) tid w m = (w, up_write m p window_size_bytes)"
| "term_ioctl (GetTermios p) tid w m = (w, up_write m p (ut_bytes (termios_get_user (tm_termio (tw_terms w tid)))))"
| "term_ioctl (SetTermios p) tid w m =
     (case up_read m 36 p of
        Inl e \<Rightarrow> (w, m, Inl e)
      | Inr bs \<Rightarrow>
          (put_term tid (tw_terms w tid\<lparr>tm_termio := termios_set_user (tm_termio (tw_terms w tid)) (ut_of_bytes bs)\<rparr>) w, m, Inr ()))"

section \<open>Line editing\<close>

text \<open>What an input character means: a signal, an edit of the current line, or a character of the line.\<close>

datatype edit = Interrupting | Discarded | EraseOne | EraseLine | Accept u8

definition classify :: "termios \<Rightarrow> u8 \<Rightarrow> edit" where
  "classify ti ch =
     (if isig ti \<and> ch \<noteq> 0xFF \<and> (ch = vintr ti \<or> ch = vquit ti \<or> ch = vsusp ti) then Interrupting
      else if icanon ti \<and> ch \<noteq> 0xFF \<and> ch = veof ti then Discarded
      else if icanon ti \<and> ch \<noteq> 0xFF \<and> ch = verase ti then EraseOne
      else if icanon ti \<and> ch \<noteq> 0xFF \<and> ch = vkill ti then
        (if echok ti \<or> (echoke ti \<and> iexten ti) then EraseLine else Discarded)
      else if ch = 13 \<and> igncr ti then Discarded
      else Accept (if ch = 13 \<and> icrnl ti then 10 else if ch = 10 \<and> inlcr ti then 13 else ch))"

text \<open>The characters that end a line for editing, the finished lines and the current line.\<close>

definition line_end :: "termios \<Rightarrow> u8 \<Rightarrow> bool" where
  "line_end ti ch \<longleftrightarrow> ch = 10 \<or> ch = veof ti \<or> ch = veol ti \<or> ch = veol2 ti"

definition lines_of :: "termios \<Rightarrow> bytes \<Rightarrow> bytes \<times> bytes" where
  "lines_of ti buf = (rev (dropWhile (\<lambda>c. \<not> line_end ti c) (rev buf)), rev (takeWhile (\<lambda>c. \<not> line_end ti c) (rev buf)))"

fun edit_line :: "termios \<Rightarrow> edit \<Rightarrow> bytes \<times> bytes \<Rightarrow> bytes \<times> bytes" where
  "edit_line ti Interrupting (finished, cur) = (if noflsh ti then (finished, cur) else ([], []))"
| "edit_line ti Discarded (finished, cur) = (finished, cur)"
| "edit_line ti EraseOne (finished, cur) = (finished, butlast cur)"
| "edit_line ti EraseLine (finished, cur) = (finished, [])"
| "edit_line ti (Accept ch) (finished, cur) =
     (if line_end ti ch then (finished @ cur @ [ch], []) else (finished, cur @ [ch]))"

lemma lines_of_append: "fst (lines_of ti buf) @ snd (lines_of ti buf) = buf"
  unfolding lines_of_def by (simp add: rev_append [symmetric] del: rev_append)

lemma lines_of_snoc: "lines_of ti (buf @ [ch]) = edit_line ti (Accept ch) (lines_of ti buf)"
proof (cases "line_end ti ch")
  case True
  then have "lines_of ti (buf @ [ch]) = (buf @ [ch], [])" by (simp add: lines_of_def)
  with True show ?thesis using lines_of_append [of ti buf] by (cases "lines_of ti buf") simp
qed (simp add: lines_of_def)

lemma lines_of_Nil [simp]: "lines_of ti [] = ([], [])"
  by (simp add: lines_of_def)

lemma term_fields [simp]:
  "tm_buffer (term_write d t) = tm_buffer t" "tm_termio (term_write d t) = tm_termio t"
  "tm_buffer (echo_char ch t) = tm_buffer t" "tm_termio (echo_char ch t) = tm_termio t"
  by (simp_all add: term_write_def echo_char_def)

lemma erase_lines:
  "lines_of (tm_termio t) (tm_buffer (fst (erase ech t))) = edit_line (tm_termio t) EraseOne (lines_of (tm_termio t) (tm_buffer t))"
proof (cases "tm_buffer t" rule: rev_cases)
  case Nil
  then show ?thesis by (simp add: erase_def)
next
  case (snoc ys y)
  show ?thesis
  proof (cases "line_end (tm_termio t) y")
    case True
    then have "fst (erase ech t) = t" using snoc by (auto simp: erase_def line_end_def Let_def)
    moreover have "snd (lines_of (tm_termio t) (tm_buffer t)) = []" using snoc True by (simp add: lines_of_def)
    ultimately show ?thesis by (cases "lines_of (tm_termio t) (tm_buffer t)") simp
  next
    case False
    then have "tm_buffer (fst (erase ech t)) = ys" using snoc by (auto simp: erase_def line_end_def Let_def)
    then show ?thesis using snoc False lines_of_snoc [of "tm_termio t" ys y] by (cases "lines_of (tm_termio t) ys") simp
  qed
qed

lemma erase_termio [simp]: "tm_termio (fst (erase ech t)) = tm_termio t"
  unfolding erase_def Let_def by (simp split: if_split)

lemma erase_None:
  assumes "erase ech t = (t', None)"
  shows "t' = t \<and> snd (lines_of (tm_termio t) (tm_buffer t)) = []"
proof (cases "tm_buffer t" rule: rev_cases)
  case Nil
  then show ?thesis using assms by (simp add: erase_def)
next
  case (snoc ys y)
  have "line_end (tm_termio t) y \<and> t' = t" using assms unfolding erase_def line_end_def Let_def snoc by (simp split: if_splits)
  then show ?thesis by (simp add: lines_of_def snoc)
qed

lemma erase_all_lines:
  "lines_of (tm_termio t) (tm_buffer (erase_all ech t)) = edit_line (tm_termio t) EraseLine (lines_of (tm_termio t) (tm_buffer t)) \<and>
   tm_termio (erase_all ech t) = tm_termio t"
proof (induction ech t rule: erase_all.induct)
  case (1 ech t)
  obtain t' r where e: "erase ech t = (t', r)" by fastforce
  have t': "tm_termio t' = tm_termio t" "lines_of (tm_termio t) (tm_buffer t') = edit_line (tm_termio t) EraseOne (lines_of (tm_termio t) (tm_buffer t))"
    using erase_termio [of ech t] erase_lines [of t ech] by (simp_all add: e)
  show ?case
  proof (cases r)
    case None
    then have run: "erase_all ech t = t'" by (subst erase_all.simps) (simp add: e)
    show ?thesis using erase_None [of ech t t'] e None unfolding run
      by (cases "lines_of (tm_termio t) (tm_buffer t)") simp
  next
    case (Some b)
    then have run: "erase_all ech t = erase_all ech t'" by (subst erase_all.simps) (simp add: e)
    show ?thesis using 1 [OF e [symmetric] Some] t' unfolding run
      by (cases "lines_of (tm_termio t) (tm_buffer t)") simp
  qed
qed

lemma signal_lines:
  "lines_of (tm_termio t) (tm_buffer (echo_and_signal ch s t)) = edit_line (tm_termio t) Interrupting (lines_of (tm_termio t) (tm_buffer t)) \<and>
   tm_termio (echo_and_signal ch s t) = tm_termio t"
  by (cases "lines_of (tm_termio t) (tm_buffer t)")
    (simp add: echo_and_signal_def term_signal_def clear_read_buffer_def Let_def split: option.split)

lemma commit_lines:
  "lines_of (tm_termio t) (tm_buffer (do_commit_char ch t)) = edit_line (tm_termio t) (Accept ch) (lines_of (tm_termio t) (tm_buffer t)) \<and>
   tm_termio (do_commit_char ch t) = tm_termio t"
  by (simp add: do_commit_char_def Let_def lines_of_snoc)

lemma edit_Discarded [simp]: "edit_line ti Discarded x = x"
  by (cases x) simp

text \<open>A character is handled by one of these.\<close>

lemma commit_char_cases:
  obtains sg where "commit_char ch t = echo_and_signal ch sg t" "classify (tm_termio t) ch = Interrupting"
  | "commit_char ch t = t" "classify (tm_termio t) ch = Discarded"
  | "commit_char ch t = fst (erase True t)" "classify (tm_termio t) ch = EraseOne"
  | "commit_char ch t = term_write [10] (erase_all False t) \<or> commit_char ch t = erase_all True t" "classify (tm_termio t) ch = EraseLine"
  | x where "commit_char ch t = do_commit_char x t" "classify (tm_termio t) ch = Accept x"
proof -
  let ?ti = "tm_termio t"
  let ?sig = "isig ?ti \<and> ch \<noteq> 0xFF" and ?can = "icanon ?ti \<and> ch \<noteq> 0xFF"
  consider (sig) "?sig \<and> (ch = vintr ?ti \<or> ch = vquit ?ti \<or> ch = vsusp ?ti)"
    | (eof) "\<not> (?sig \<and> (ch = vintr ?ti \<or> ch = vquit ?ti \<or> ch = vsusp ?ti))" "?can \<and> ch = veof ?ti"
    | (erase) "\<not> (?sig \<and> (ch = vintr ?ti \<or> ch = vquit ?ti \<or> ch = vsusp ?ti))" "\<not> (?can \<and> ch = veof ?ti)" "?can \<and> ch = verase ?ti"
    | (kill) "\<not> (?sig \<and> (ch = vintr ?ti \<or> ch = vquit ?ti \<or> ch = vsusp ?ti))" "\<not> (?can \<and> ch = veof ?ti)" "\<not> (?can \<and> ch = verase ?ti)"
        "?can \<and> ch = vkill ?ti"
    | (other) "\<not> (?sig \<and> (ch = vintr ?ti \<or> ch = vquit ?ti \<or> ch = vsusp ?ti))" "\<not> (?can \<and> ch = veof ?ti)" "\<not> (?can \<and> ch = verase ?ti)"
        "\<not> (?can \<and> ch = vkill ?ti)"
    by blast
  then show ?thesis
  proof cases
    case sig
    then have "classify ?ti ch = Interrupting" unfolding classify_def conj_assoc by (rule if_P)
    moreover have "\<exists>sg. commit_char ch t = echo_and_signal ch sg t"
      using sig unfolding commit_char_def Let_def by (cases "ch = vintr ?ti"; cases "ch = vquit ?ti") auto
    ultimately show ?thesis using that(1) by blast
  next
    case eof
    then show ?thesis using that(2) unfolding commit_char_def classify_def Let_def by auto
  next
    case erase
    then show ?thesis using that(3) unfolding commit_char_def classify_def Let_def by auto
  next
    case kill
    then show ?thesis using that(2,4) unfolding commit_char_def classify_def Let_def
      by (cases "echok ?ti"; cases "echoke ?ti \<and> iexten ?ti") auto
  next
    case other
    have c: "classify ?ti ch = (if ch = 13 \<and> igncr ?ti then Discarded
        else Accept (if ch = 13 \<and> icrnl ?ti then 10 else if ch = 10 \<and> inlcr ?ti then 13 else ch))"
      using other unfolding classify_def conj_assoc by (simp only: if_False)
    have "commit_char ch t = (if ch = 13 \<and> igncr ?ti then t else if ch = 13 \<and> icrnl ?ti then do_commit_char 10 t
         else if ch = 10 \<and> inlcr ?ti then do_commit_char 13 t else do_commit_char ch t)"
    proof -
      from other have n: "\<not> (isig ?ti \<and> ch \<noteq> 0xFF \<and> ch = vintr ?ti)" "\<not> (isig ?ti \<and> ch \<noteq> 0xFF \<and> ch = vquit ?ti)"
        "\<not> (isig ?ti \<and> ch \<noteq> 0xFF \<and> ch = vsusp ?ti)" "\<not> (icanon ?ti \<and> ch \<noteq> 0xFF \<and> ch = veof ?ti)"
        "\<not> (icanon ?ti \<and> ch \<noteq> 0xFF \<and> ch = verase ?ti)" "\<not> (icanon ?ti \<and> ch \<noteq> 0xFF \<and> ch = vkill ?ti)" by blast+
      show ?thesis unfolding commit_char_def Let_def n [THEN if_not_P] by (rule refl)
    qed
    then show ?thesis using that(2,5) c by (auto split: if_splits)
  qed
qed

lemma commit_char_lines:
  "lines_of (tm_termio t) (tm_buffer (commit_char ch t)) = edit_line (tm_termio t) (classify (tm_termio t) ch) (lines_of (tm_termio t) (tm_buffer t)) \<and>
   tm_termio (commit_char ch t) = tm_termio t"
  by (rule commit_char_cases [of ch t])
    (auto simp: signal_lines commit_lines erase_lines erase_all_lines simp del: edit_line.simps)

text \<open>C36: line editing. After any sequence of input characters, the buffer of the terminal is what
  editing its lines gives: an accepted character is appended to the current line (after the
  translations of carriage return and newline), a line end finishes it, the erase and kill characters
  take away from the current line and never from a finished one, and a signal character empties the
  buffer unless \<open>NOFLSH\<close> is set. The settings of the terminal do not change.\<close>

theorem terminal_line_editing:
  "lines_of (tm_termio t) (tm_buffer (fold commit_char chs t)) =
     fold (\<lambda>ch. edit_line (tm_termio t) (classify (tm_termio t) ch)) chs (lines_of (tm_termio t) (tm_buffer t)) \<and>
   tm_termio (fold commit_char chs t) = tm_termio t"
proof (induction chs arbitrary: t)
  case (Cons ch chs)
  show ?case using Cons [of "commit_char ch t"] commit_char_lines [of t ch] by simp
qed simp

section \<open>Reading a line\<close>

lemma line_length_Some:
  "line_length ti buf = Some n \<Longrightarrow> 0 < n \<and> n \<le> length buf \<and> line_delimiter ti (buf ! (n - 1)) \<and> (\<forall>i < n - 1. \<not> line_delimiter ti (buf ! i))"
proof (induction buf arbitrary: n)
  case (Cons ch chs)
  show ?case
  proof (cases "line_delimiter ti ch")
    case True
    then show ?thesis using Cons.prems by auto
  next
    case False
    then obtain k where k: "line_length ti chs = Some k" "n = Suc k" using Cons.prems by auto
    have "\<forall>i < n - 1. \<not> line_delimiter ti ((ch # chs) ! i)"
      using Cons.IH [OF k(1)] k(2) False by (auto simp: nth_Cons split: nat.splits)
    then show ?thesis using Cons.IH [OF k(1)] k(2) by (auto simp: nth_Cons split: nat.splits)
  qed
qed simp

lemma line_length_None: "line_length ti buf = None \<longleftrightarrow> \<not> list_ex (line_delimiter ti) buf"
  by (induction buf) auto

text \<open>What one successful test takes out of the terminal's buffer.\<close>

lemma read_step_takes:
  assumes "0 < available" and "tm_buffer t \<noteq> []" and "line_ready t"
  obtains t' data where "term_read_step available t = Some (t', data)" and "tm_termio t' = tm_termio t"
    and "data @ tm_buffer t' = tm_buffer t" and "data \<noteq> []" and "length data \<le> TMP_BUFFER"
    and "icanon (tm_termio t) \<longrightarrow> (\<forall>i. i + 1 < length data \<longrightarrow> \<not> line_delimiter (tm_termio t) (data ! i)) \<and>
      (length data < TMP_BUFFER \<longrightarrow> line_delimiter (tm_termio t) (List.last data))"
    and "\<not> icanon (tm_termio t) \<longrightarrow> length data = min (min available (length (tm_buffer t))) TMP_BUFFER"
proof -
  let ?ti = "tm_termio t" and ?buf = "tm_buffer t"
  define n where "n = (if icanon ?ti then (case line_length ?ti ?buf of Some n \<Rightarrow> n | None \<Rightarrow> length ?buf) else min available (length ?buf))"
  define len where "len = min n TMP_BUFFER"
  have step: "term_read_step available t = Some (t\<lparr>tm_buffer := drop len ?buf\<rparr>, take len ?buf)"
    using assms by (simp add: term_read_step_def n_def len_def Let_def)
  have n: "0 < n \<and> n \<le> length ?buf \<and> (icanon ?ti \<longrightarrow> line_delimiter ?ti (?buf ! (n - 1)) \<and> (\<forall>i < n - 1. \<not> line_delimiter ?ti (?buf ! i)))"
  proof (cases "icanon ?ti")
    case True
    then obtain k where "line_length ?ti ?buf = Some k" using assms(3) line_length_None [of ?ti ?buf] by (auto simp: line_ready_def)
    then show ?thesis using line_length_Some [of ?ti ?buf k] True by (simp add: n_def)
  next
    case False
    then show ?thesis using assms(1,2) by (simp add: n_def)
  qed
  then have l: "0 < len" "len \<le> length ?buf" "len \<le> n" by (auto simp: len_def TMP_BUFFER_def)
  show ?thesis
  proof (rule that [OF step])
    show "take len ?buf \<noteq> []" using l(1) assms(2) by simp
    show "length (take len ?buf) \<le> TMP_BUFFER" by (simp add: len_def)
    have "line_delimiter ?ti (List.last (take len ?buf))" if "icanon ?ti" "len < TMP_BUFFER"
    proof -
      have "len = n" using that(2) by (simp add: len_def min_def split: if_splits)
      moreover have "List.last (take len ?buf) = ?buf ! (len - 1)" using l assms(2) by (subst last_conv_nth) auto
      ultimately show ?thesis using n that(1) by simp
    qed
    then show "icanon ?ti \<longrightarrow> (\<forall>i. i + 1 < length (take len ?buf) \<longrightarrow> \<not> line_delimiter ?ti (take len ?buf ! i)) \<and>
        (length (take len ?buf) < TMP_BUFFER \<longrightarrow> line_delimiter ?ti (List.last (take len ?buf)))"
      using n l by auto
    show "\<not> icanon ?ti \<longrightarrow> length (take len ?buf) = min (min available (length ?buf)) TMP_BUFFER"
      by (auto simp: len_def n_def)
  qed simp_all
qed

text \<open>A read into any implementation of \<open>Buffer\<close>.\<close>

context buffer
begin

lemma term_read_fill:
  assumes "inv b" and "available = capacity b - length (contents b)" and "0 < available"
    and "term_read_step available t = Some (t', data)"
  shows "\<exists>r. term_read fill available b t = Some (t', r) \<and>
    (case r of Inr (b', n) \<Rightarrow> inv b' \<and> contents b' = contents b @ take available data \<and> n = min (length data) available
     | Inl e \<Rightarrow> e = Errno EFAULT)"
proof (cases "fill b data")
  case (Inl e)
  then show ?thesis using assms fill_err [OF assms(1) Inl] by (simp add: term_read_def)
next
  case (Inr x)
  obtain b' r where x: "x = (b', r)" by fastforce
  show ?thesis using assms fill_ok [OF assms(1), of data b' r] Inr x by (simp add: term_read_def)
qed

end

text \<open>C37: reading from the terminal into user memory. When a reader's test succeeds, it takes a
  non-empty prefix of at most 32 bytes from the terminal's buffer and leaves the rest: in canonical mode
  the first line, or its first 32 bytes, otherwise as many bytes as fit. The reader gets the part of
  them for which its buffer has room: in canonical mode, with room for less than the line, the rest of
  the bytes taken is lost. A fault loses all of them.\<close>

theorem terminal_read:
  assumes "ubuf_inv (m, b)" and "available = ubuf_size b - ubuf_cur b" and "0 < available"
    and "tm_buffer t \<noteq> []" and "line_ready t"
  shows "\<exists>t' data r. term_read ubuf_fill available (m, b) t = Some (t', r) \<and>
    data @ tm_buffer t' = tm_buffer t \<and> data \<noteq> [] \<and> length data \<le> TMP_BUFFER \<and>
    (icanon (tm_termio t) \<longrightarrow> (\<forall>i. i + 1 < length data \<longrightarrow> \<not> line_delimiter (tm_termio t) (data ! i)) \<and>
      (length data < TMP_BUFFER \<longrightarrow> line_delimiter (tm_termio t) (List.last data))) \<and>
    (\<not> icanon (tm_termio t) \<longrightarrow> length data = min (min available (length (tm_buffer t))) TMP_BUFFER) \<and>
    (case r of Inr (s, n) \<Rightarrow> ubuf_contents s = ubuf_contents (m, b) @ take available data \<and> n = min (length data) available
     | Inl e \<Rightarrow> e = Errno EFAULT)"
proof -
  from read_step_takes [OF assms(3-5)] obtain t' data where d: "term_read_step available t = Some (t', data)"
    "data @ tm_buffer t' = tm_buffer t" "data \<noteq> []" "length data \<le> TMP_BUFFER"
    "icanon (tm_termio t) \<longrightarrow> (\<forall>i. i + 1 < length data \<longrightarrow> \<not> line_delimiter (tm_termio t) (data ! i)) \<and>
      (length data < TMP_BUFFER \<longrightarrow> line_delimiter (tm_termio t) (List.last data))"
    "\<not> icanon (tm_termio t) \<longrightarrow> length data = min (min available (length (tm_buffer t))) TMP_BUFFER" by metis
  have "length (ubuf_contents (m, b)) = ubuf_cur b" using assms(1) by (simp add: ubuf_inv_def ubuf_contents_def)
  then have av: "available = ubuf_total (m, b) - length (ubuf_contents (m, b))" using assms(2) by (simp add: ubuf_total_def)
  from ubuf.term_read_fill [OF assms(1) av assms(3) d(1)] obtain r where
    r: "term_read ubuf_fill available (m, b) t = Some (t', r)" "case r of Inr (s, n) \<Rightarrow> ubuf_inv s \<and>
      ubuf_contents s = ubuf_contents (m, b) @ take available data \<and> n = min (length data) available | Inl e \<Rightarrow> e = Errno EFAULT" by blast
  show ?thesis using r d(2-) by (intro exI [of _ t'] exI [of _ data] exI [of _ r]) (auto split: sum.splits)
qed

text \<open>A line of three bytes and a buffer with room for two.\<close>

definition sample_term :: terminal where
  "sample_term = terminal_new\<lparr>tm_buffer := [104, 105, 10]\<rparr>"

definition sample_ubuf :: user_buffer where
  "sample_ubuf = \<lparr>ubuf_ptr = \<lparr>cup_ptr = 0x1000, cup_len = 2\<rparr>, ubuf_size = 2, ubuf_cur = 0\<rparr>"

lemma standard_settings: "icanon termios_new_standard" "veol termios_new_standard = 0" "veol2 termios_new_standard = 0"
  by (simp_all add: icanon_def has_bits_def termios_new_standard_def termio_flag_defs veol_def veol2_def cc_defs)

lemma sample_read_step: "term_read_step 2 sample_term = Some (sample_term\<lparr>tm_buffer := []\<rparr>, [104, 105, 10])"
  by (simp add: term_read_step_def sample_term_def terminal_new_def line_ready_def line_delimiter_def standard_settings TMP_BUFFER_def)

theorem terminal_read_witness:
  "\<exists>t' r. term_read ubuf_fill 2 (sample_mem, sample_ubuf) sample_term = Some (t', r) \<and> tm_buffer t' = [] \<and>
     (case r of Inr (s, n) \<Rightarrow> ubuf_contents s = [104, 105] \<and> n = 2 | Inl e \<Rightarrow> e = Errno EFAULT)"
proof -
  have inv: "ubuf_inv (sample_mem, sample_ubuf)"
    by (simp add: ubuf_inv_def sample_mem_def sample_ubuf_def cup_ok_def USER_MAX_ADDR_def)
  have t: "2 = ubuf_size sample_ubuf - ubuf_cur sample_ubuf" "(0 :: nat) < 2" "tm_buffer sample_term \<noteq> []" "line_ready sample_term"
    by (simp_all add: sample_ubuf_def sample_term_def terminal_new_def line_ready_def line_delimiter_def)
  from terminal_read [OF inv t] obtain t' data r where r: "term_read ubuf_fill 2 (sample_mem, sample_ubuf) sample_term = Some (t', r)"
    "data @ tm_buffer t' = tm_buffer sample_term"
    "case r of Inr (s, n) \<Rightarrow> ubuf_contents s = ubuf_contents (sample_mem, sample_ubuf) @ take 2 data \<and> n = min (length data) 2 | Inl e \<Rightarrow> e = Errno EFAULT"
    by blast
  have t': "t' = sample_term\<lparr>tm_buffer := []\<rparr>" using r(1) by (simp add: term_read_def sample_read_step)
  then have data: "data = [104, 105, 10]" using r(2) by (simp add: sample_term_def)
  have empty: "ubuf_contents (sample_mem, sample_ubuf) = []" by (simp add: ubuf_contents_def sample_ubuf_def)
  have "case r of Inr (s, n) \<Rightarrow> ubuf_contents s = [104, 105] \<and> n = 2 | Inl e \<Rightarrow> e = Errno EFAULT"
    using r(3) unfolding data empty by (auto split: sum.splits)
  then show ?thesis using r(1) t' by (intro exI [of _ t'] exI [of _ r]) simp
qed

section \<open>Settings and sessions\<close>

text \<open>Writing back the settings that were read changes nothing.\<close>

lemma termios_roundtrip:
  assumes "ti_iflag t AND IFLAGS_ALL = ti_iflag t" and "ti_oflag t AND OFLAGS_ALL = ti_oflag t" and "ti_lflag t AND LFLAGS_ALL = ti_lflag t"
  shows "termios_set_user t' (ut_of_bytes (ut_bytes (termios_get_user t))) = t"
proof -
  let ?u = "termios_get_user t"
  have "ut_of_bytes (ut_bytes ?u) = ?u" by (simp add: ut_of_bytes_def ut_bytes_def drop_Cons' nth_append)
  then show ?thesis using assms by (simp add: termios_set_user_def termios_get_user_def unsigned_ucast_eq take_bit_word_eq_self)
qed

text \<open>A forced change of the session drops the old session's terminal and then stores the old session again.\<close>

lemma set_session_forced:
  assumes "tm_session (tw_terms w tid) = Some old"
  shows "\<exists>w'. set_session tid sid True w = Inr w' \<and> tm_session (tw_terms w' tid) = Some old \<and> se_terminal (tw_sessions w' old) = None"
  using assms by (simp add: set_session_def drop_control_terminal_def put_term_def put_session_def Let_def)

text \<open>Without force, a session gets a terminal only if neither belongs to another, and then they refer to each other.\<close>

lemma set_control_terminal_ok:
  assumes "set_control_terminal sid tid False pgroup w = Inr w'" and "se_terminal (tw_sessions w sid) = None"
  shows "tm_session (tw_terms w tid) = None" "tm_session (tw_terms w' tid) = Some sid" "se_terminal (tw_sessions w' sid) = Some tid"
    "se_foreground (tw_sessions w' sid) = Some pgroup"
  using assms by (auto simp: set_control_terminal_def set_session_def put_term_def put_session_def res_simps split: option.splits)

end
