(* ===== verification/Spec2Isabelle.thy ===== *)
theory Spec2Isabelle
  imports Prelude Address Btree Intrusive_List Raw_Page Buddy_Alloc Buddy_Correct Page_Alloc Slab Io
    Path User_Mem Flags Pipe Page_Table Page_Own Mm_Area Mm_List Mm_Protect Signals Signal_Safety Terminal
begin

text \<open>
  A verification library for the kernel \<open>dlutos\<close>.
\<close>

end
